(* ===== verification/Kernel_Prelude.thy ===== *)
theory Kernel_Prelude
  imports Main "HOL-Library.Word"
begin

text \<open>
  The prelude of the development: the machine integers of the kernel, the results its
  functions return, the loop combinators its \<^verbatim>\<open>for\<close> loops are translated to, and the
  generic lemmas on lists and words that the component theories share.

  A result is \<^verbatim>\<open>None\<close> when the code does not return (a loop that runs forever),
  \<open>Some (Inl e)\<close> when it stops in \<^verbatim>\<open>kernel_panic\<close> (which never returns to its
  caller, \<^verbatim>\<open>kernel.cpp\<close>) and \<open>Some (Inr x)\<close> when it returns \<open>x\<close>.
\<close>

unbundle bit_operations_syntax

section \<open>Machine integers and results\<close>

type_synonym u8 = "8 word"
type_synonym u16 = "16 word"
type_synonym u32 = "32 word"
type_synonym u64 = "64 word"

datatype kerror = KernelPanic string

type_synonym 'a res = "(kerror + 'a) option"

named_theorems res_simps \<open>evaluation of results\<close>
named_theorems word_nat \<open>from 64-bit words to natural numbers\<close>

definition ret :: "'a \<Rightarrow> 'a res" where
  "ret x = Some (Inr x)"

definition kernel_panic :: "string \<Rightarrow> 'a res" where
  "kernel_panic msg = Some (Inl (KernelPanic msg))"

definition kernel_assert :: "bool \<Rightarrow> string \<Rightarrow> 's \<Rightarrow> 's res" where
  "kernel_assert condition fmt s = (if \<not> condition then kernel_panic fmt else ret s)"

definition res_bind :: "'a res \<Rightarrow> ('a \<Rightarrow> 'b res) \<Rightarrow> 'b res" where
  "res_bind r f = Option.bind r (\<lambda>e. case e of Inl x \<Rightarrow> Some (Inl x) | Inr y \<Rightarrow> f y)"

lemma res_bind_simps [simp, res_simps]:
  "res_bind (ret x) f = f x"
  "res_bind (kernel_panic msg) f = kernel_panic msg"
  "res_bind None f = None"
  by (simp_all add: res_bind_def ret_def kernel_panic_def)

lemma res_distinct [simp, res_simps]:
  "ret x \<noteq> None" "None \<noteq> ret x" "kernel_panic m \<noteq> None" "None \<noteq> kernel_panic m"
  "ret x \<noteq> kernel_panic m" "kernel_panic m \<noteq> ret x"
  by (simp_all add: ret_def kernel_panic_def)

lemma ret_inject [simp]: "ret x = ret y \<longleftrightarrow> x = y"
  by (simp add: ret_def)

lemma kernel_panic_inject [simp]: "kernel_panic x = kernel_panic y \<longleftrightarrow> x = y"
  by (simp add: kernel_panic_def)

lemma res_cases [case_names diverges panics returns]:
  obtains "r = None" | m where "r = kernel_panic m" | x where "r = ret x"
proof (cases r)
  case None
  then show ?thesis using that(1) by blast
next
  case (Some e)
  then show ?thesis
    using that(2,3) by (cases e) (auto simp: ret_def kernel_panic_def intro: kerror.exhaust)
qed

lemma res_bind_eq_ret:
  "res_bind r f = ret y \<longleftrightarrow> (\<exists>x. r = ret x \<and> f x = ret y)"
  by (cases r rule: res_cases) auto

lemma res_bind_assoc: "res_bind (res_bind r f) g = res_bind r (\<lambda>x. res_bind (f x) g)"
  by (cases r rule: res_cases) simp_all

lemma res_bind_ret [simp]: "res_bind r ret = r"
  by (cases r rule: res_cases) simp_all

lemma res_bind_mono [partial_function_mono]:
  fixes C :: "'a \<Rightarrow> ('x \<Rightarrow> 'c option) \<Rightarrow> 'b res"
  assumes "mono_option B" and "\<And>y. mono_option (\<lambda>f. C y f)"
  shows "mono_option (\<lambda>f. res_bind (B f) (\<lambda>y. C y f))"
  unfolding res_bind_def
proof (rule bind_mono [OF assms(1)])
  fix e :: "kerror + 'a"
  show "mono_option (\<lambda>f. case e of Inl x \<Rightarrow> Some (Inl x) | Inr y \<Rightarrow> C y f)"
    by (cases e) (simp_all add: assms(2) option.const_mono)
qed

section \<open>Loops\<close>

text \<open>A range-based loop over a list, stopping where the body does not return.\<close>

fun res_fold :: "('x \<Rightarrow> 's \<Rightarrow> 's res) \<Rightarrow> 'x list \<Rightarrow> 's \<Rightarrow> 's res" where
  "res_fold body [] s = ret s"
| "res_fold body (x # xs) s = res_bind (body x s) (res_fold body xs)"

lemma res_fold_append:
  "res_fold body (xs @ ys) s = res_bind (res_fold body xs s) (res_fold body ys)"
proof (induction xs arbitrary: s)
  case (Cons x xs)
  show ?case by (cases "body x s" rule: res_cases) (simp_all add: Cons.IH)
qed simp

lemma res_fold_Nil [simp]: "res_fold body [] = ret"
  by (rule ext) simp

lemma res_fold_concat:
  "(\<And>x. x \<in> set xs \<Longrightarrow> body x = res_fold step (g x)) \<Longrightarrow>
    res_fold body xs s = res_fold step (concat (map g xs)) s"
proof (induction xs arbitrary: s)
  case (Cons x xs)
  then show ?case
    by (cases "res_fold step (g x) s" rule: res_cases) (simp_all add: res_fold_append)
qed simp

lemma res_fold_ret: "res_fold (\<lambda>x s. ret (f x s)) xs s = ret (fold f xs s)"
  by (induction xs arbitrary: s) simp_all

text \<open>A counted loop \<^verbatim>\<open>for (i = lo; i < hi; i += step)\<close> over 64-bit unsigned words. The
  counter wraps, so the loop need not end.\<close>

partial_function (option) for_up ::
  "u64 \<Rightarrow> (u64 \<Rightarrow> 's \<Rightarrow> 's res) \<Rightarrow> u64 \<Rightarrow> u64 \<Rightarrow> 's \<Rightarrow> 's res" where
  "for_up step body i hi s =
     (if i < hi then res_bind (body i s) (\<lambda>s'. for_up step body (i + step) hi s')
      else ret s)"

text \<open>The values the counter takes when the loop ends without wrapping.\<close>

definition count_up :: "u64 \<Rightarrow> u64 \<Rightarrow> u64 \<Rightarrow> u64 list" where
  "count_up step lo hi =
     map (\<lambda>k. lo + of_nat k * step)
       [0..<(unat hi - unat lo + unat step - 1) div unat step]"

lemma for_up_done: "\<not> i < hi \<Longrightarrow> for_up step body i hi s = ret s"
  by (simp add: for_up.simps)

lemma for_up_step:
  "i < hi \<Longrightarrow> for_up step body i hi s = res_bind (body i s) (for_up step body (i + step) hi)"
  by (subst for_up.simps) simp

lemma unat_less_2p: "unat (a :: u64) < 2 ^ 64"
  using unsigned_less [of a, where ?'a = nat] by simp

lemma unat_add_no_wrap:
  fixes a b :: u64
  assumes "unat a + unat b < 2 ^ 64"
  shows "unat (a + b) = unat a + unat b"
  using assms by (simp add: unat_word_ariths)

lemma count_up_Nil [simp]:
  assumes "\<not> lo < hi" shows "count_up step lo hi = []"
proof -
  have "unat hi - unat lo = 0" using assms by (simp add: word_less_nat_alt)
  moreover have "(unat step - 1) div unat step = 0" by (cases "unat step") auto
  ultimately show ?thesis by (simp add: count_up_def)
qed

lemma count_up_Cons:
  assumes lt: "lo < hi" and step: "0 < step" and nw: "unat hi + unat step \<le> 2 ^ 64"
  shows "count_up step lo hi = lo # count_up step (lo + step) hi"
proof -
  let ?n = "\<lambda>l. (unat hi - l + unat step - 1) div unat step"
  have s: "0 < unat step" using step by (simp add: word_less_nat_alt)
  have l: "unat lo < unat hi" using lt by (simp add: word_less_nat_alt)
  have u: "unat (lo + step) = unat lo + unat step"
    using l nw by (intro unat_add_no_wrap) simp
  have "?n (unat lo) = Suc (?n (unat lo + unat step))"
  proof (cases "unat hi - unat lo \<le> unat step")
    case True
    then have "unat hi - unat lo + unat step - 1 < 2 * unat step" using s by simp
    moreover have "unat step \<le> unat hi - unat lo + unat step - 1" using l by simp
    ultimately have "?n (unat lo) = 1" by (simp add: div_nat_eqI)
    moreover have "?n (unat lo + unat step) = 0" using True s by simp
    ultimately show ?thesis by simp
  next
    case False
    then have "?n (unat lo)
        = ((unat hi - (unat lo + unat step) + unat step - 1) + unat step) div unat step"
      by (intro arg_cong2 [where f = "(div)"]) simp_all
    also have "\<dots> = Suc (?n (unat lo + unat step))" using s by (subst div_add_self2) simp_all
    finally show ?thesis .
  qed
  then have "count_up step lo hi
      = map (\<lambda>k. lo + of_nat k * step) [0..<Suc (?n (unat (lo + step)))]"
    by (simp add: count_up_def u)
  also have "\<dots> = lo # map (\<lambda>k. (lo + step) + of_nat k * step) [0..<?n (unat (lo + step))]"
    by (subst upt_conv_Cons) (simp_all add: map_Suc_upt [symmetric] algebra_simps del: map_Suc_upt upt_Suc)
  finally show ?thesis by (simp add: count_up_def)
qed

text \<open>Where the counter cannot wrap, the loop runs its body on the values of \<open>count_up\<close>.\<close>

lemma for_up_eq_fold:
  assumes step: "0 < step" and nw: "unat hi + unat step \<le> 2 ^ 64"
  shows "for_up step body lo hi s = res_fold body (count_up step lo hi) s"
proof (induction "unat hi - unat lo" arbitrary: lo s rule: less_induct)
  case less
  show ?case
  proof (cases "lo < hi")
    case True
    then have l: "unat lo < unat hi" by (simp add: word_less_nat_alt)
    have u: "unat (lo + step) = unat lo + unat step"
      using l nw by (intro unat_add_no_wrap) simp
    have "unat hi - unat (lo + step) < unat hi - unat lo"
      using l u step by (simp add: word_less_nat_alt)
    then have "for_up step body (lo + step) hi = res_fold body (count_up step (lo + step) hi)"
      using less by blast
    then show ?thesis
      using True by (simp add: for_up_step count_up_Cons [OF True step nw])
  next
    case False
    then show ?thesis by (simp add: for_up_done)
  qed
qed

lemma fold_skip: "fold (\<lambda>x s. if P x then s else g x s) xs s = fold g (filter (\<lambda>x. \<not> P x) xs) s"
  by (induction xs arbitrary: s) simp_all

lemma length_count_up [simp]:
  "length (count_up step lo hi) = (unat hi - unat lo + unat step - 1) div unat step"
  by (simp add: count_up_def)

lemma unat_count_up:
  assumes "x \<in> set (count_up step lo hi)" and "0 < step" and "unat hi + unat step \<le> 2 ^ 64"
  shows "\<exists>k. unat x = unat lo + k * unat step \<and> unat x < unat hi"
  using assms(1)
proof (induction "unat hi - unat lo" arbitrary: lo rule: less_induct)
  case less
  have lt: "lo < hi" using less.prems by (cases "lo < hi") auto
  then have l: "unat lo < unat hi" by (simp add: word_less_nat_alt)
  have u: "unat (lo + step) = unat lo + unat step"
    using l assms(3) by (intro unat_add_no_wrap) simp
  from less.prems consider "x = lo" | "x \<in> set (count_up step (lo + step) hi)"
    by (auto simp: count_up_Cons [OF lt assms(2,3)])
  then show ?case
  proof cases
    case 1
    then show ?thesis using l by (intro exI [of _ 0]) simp
  next
    case 2
    moreover have "unat hi - unat (lo + step) < unat hi - unat lo"
      using l u assms(2) by (simp add: word_less_nat_alt)
    ultimately obtain k where "unat x = unat (lo + step) + k * unat step" "unat x < unat hi"
      using less.hyps by blast
    then show ?thesis using u by (intro exI [of _ "Suc k"]) simp
  qed
qed

lemma distinct_count_up:
  assumes "0 < step" and "unat hi + unat step \<le> 2 ^ 64"
  shows "distinct (count_up step lo hi)"
proof (induction "unat hi - unat lo" arbitrary: lo rule: less_induct)
  case less
  show ?case
  proof (cases "lo < hi")
    case True
    then have l: "unat lo < unat hi" by (simp add: word_less_nat_alt)
    have u: "unat (lo + step) = unat lo + unat step"
      using l assms(2) by (intro unat_add_no_wrap) simp
    have s: "0 < unat step" using assms(1) by (simp add: word_less_nat_alt)
    have "lo \<notin> set (count_up step (lo + step) hi)"
      using unat_count_up [of lo step "lo + step" hi] assms u s by auto
    moreover have "unat hi - unat (lo + step) < unat hi - unat lo" using l u s by simp
    ultimately show ?thesis
      using less.hyps by (simp add: count_up_Cons [OF True assms])
  qed simp
qed

section \<open>Loops that return\<close>

lemma res_fold_total:
  assumes "\<And>x s. x \<in> set xs \<Longrightarrow> I s \<Longrightarrow> \<exists>s'. body x s = ret s' \<and> I s'" and "I s"
  shows "\<exists>s'. res_fold body xs s = ret s' \<and> I s'"
  using assms
proof (induction xs arbitrary: s)
  case (Cons x xs)
  obtain s1 where "body x s = ret s1" "I s1" using Cons.prems by (meson list.set_intros(1))
  then show ?case using Cons.IH [of s1] Cons.prems(1) by simp
qed simp

lemma for_up_total:
  assumes "\<And>x s. lo \<le> x \<Longrightarrow> x < hi \<Longrightarrow> I s \<Longrightarrow> \<exists>s'. body x s = ret s' \<and> I s'" and "I s"
  shows "\<exists>s'. for_up 1 body lo hi s = ret s' \<and> I s'"
proof -
  have hi: "unat hi + unat (1 :: u64) \<le> 2 ^ 64" using unat_less_2p [of hi] by simp
  have "lo \<le> x \<and> x < hi" if "x \<in> set (count_up 1 lo hi)" for x
    using unat_count_up [OF that _ hi] by (auto simp: word_le_nat_alt word_less_nat_alt)
  then have "\<exists>s'. res_fold body (count_up 1 lo hi) s = ret s' \<and> I s'"
    using assms by (intro res_fold_total) auto
  then show ?thesis using for_up_eq_fold [OF _ hi, of body lo s] by simp
qed

lemma for_up_split:
  assumes "m \<le> hi" shows "lo \<le> m \<Longrightarrow> for_up 1 body lo hi s = res_bind (for_up 1 body lo m s) (for_up 1 body m hi)"
proof (induction "unat m - unat lo" arbitrary: lo s)
  case 0
  then have "lo = m" by (simp add: word_le_nat_alt word_unat_eq_iff)
  then show ?case by (simp add: for_up_done)
next
  case (Suc n)
  then have lt: "unat lo < unat m" by simp
  then have u: "unat (lo + 1) = Suc (unat lo)"
    using unat_add_no_wrap [of lo 1] unat_less_2p [of m] by simp
  have "lo + 1 \<le> m" "n = unat m - unat (lo + 1)" using u lt Suc(2) by (simp_all add: word_le_nat_alt)
  then have IH: "for_up 1 body (lo + 1) hi s = res_bind (for_up 1 body (lo + 1) m s) (for_up 1 body m hi)" for s
    using Suc(1) by blast
  have "lo < m" "lo < hi" using lt assms by (simp_all add: word_less_nat_alt word_le_nat_alt)
  then show ?case
    using ext [of "for_up 1 body (lo + 1) hi", OF IH] by (simp add: for_up_step res_bind_assoc)
qed

text \<open>A loop that reaches a panicking iteration.\<close>

lemma for_up_panics:
  assumes "\<And>x s. lo \<le> x \<Longrightarrow> x < m \<Longrightarrow> I s \<Longrightarrow> \<exists>s'. body x s = ret s' \<and> I s'" and "I s"
    and "lo \<le> m" "m < hi" and "\<And>s. I s \<Longrightarrow> body m s = kernel_panic msg"
  shows "for_up 1 body lo hi s = kernel_panic msg"
proof -
  have "\<exists>s'. for_up 1 body lo m s = ret s' \<and> I s'" by (rule for_up_total) (use assms in auto)
  then obtain s' where "for_up 1 body lo m s = ret s'" "I s'" by blast
  then show ?thesis
    using assms(3,4,5) for_up_split [of m hi lo body s] by (simp add: for_up_step)
qed

text \<open>What a returning loop keeps, whether or not it ends.\<close>

lemma res_fold_keeps:
  assumes "res_fold body xs s = ret s'" and "\<And>x s s'. I s \<Longrightarrow> body x s = ret s' \<Longrightarrow> I s'" and "I s"
  shows "I s'"
  using assms
proof (induction xs arbitrary: s)
  case (Cons x xs)
  then show ?case by (auto simp: res_bind_eq_ret)
qed simp

lemma for_up_keeps:
  assumes "for_up 1 body lo hi s = ret s'" and "\<And>x s s'. I s \<Longrightarrow> body x s = ret s' \<Longrightarrow> I s'" and "I s"
  shows "I s'"
proof -
  have "unat hi + unat (1 :: u64) \<le> 2 ^ 64" using unat_less_2p [of hi] by simp
  then have "res_fold body (count_up 1 lo hi) s = ret s'"
    using assms(1) for_up_eq_fold [of 1 hi body lo s] by simp
  then show ?thesis using assms(2,3) by (rule res_fold_keeps)
qed

text \<open>A counted loop with an inclusive bound, \<^verbatim>\<open>for (i = lo; i <= hi; ++i)\<close>: it runs forever where the
  bound is the largest word.\<close>

partial_function (option) for_incl ::
  "(u64 \<Rightarrow> 's \<Rightarrow> 's res) \<Rightarrow> u64 \<Rightarrow> u64 \<Rightarrow> 's \<Rightarrow> 's res" where
  "for_incl body i hi s =
     (if i \<le> hi then res_bind (body i s) (\<lambda>s'. for_incl body (i + 1) hi s') else ret s)"

lemma for_incl_eq_for_up:
  assumes "hi \<noteq> - 1"
  shows "for_incl body i hi s = for_up 1 body i (hi + 1) s"
proof (induction "unat (hi + 1) - unat i" arbitrary: i s rule: less_induct)
  case less
  have hi: "unat (hi + 1) = Suc (unat hi)" using assms unatSuc [of hi] by (simp add: add_eq_0_iff add.commute)
  show ?case
  proof (cases "i \<le> hi")
    case True
    then have lt: "i < hi + 1" using hi by (simp add: word_less_nat_alt word_le_nat_alt)
    then have "unat (i + 1) = Suc (unat i)"
      using unat_add_no_wrap [of i 1] unat_less_2p [of "hi + 1"] by (simp add: word_less_nat_alt)
    then have "unat (hi + 1) - unat (i + 1) < unat (hi + 1) - unat i"
      using lt by (simp add: word_less_nat_alt)
    then have "for_incl body (i + 1) hi = for_up 1 body (i + 1) (hi + 1)" using less by blast
    then show ?thesis using True lt by (subst for_incl.simps) (simp add: for_up_step)
  next
    case False
    then have "\<not> i < hi + 1" using hi by (simp add: word_less_nat_alt word_le_nat_alt)
    then show ?thesis using False by (subst for_incl.simps) (simp add: for_up_done)
  qed
qed

lemma for_incl_keeps:
  assumes "for_incl body lo hi s = ret s'" and "\<And>x s s'. I s \<Longrightarrow> body x s = ret s' \<Longrightarrow> I s'" and "I s"
  shows "I s'"
proof -
  let ?P = "\<lambda>b (i :: u64) (h :: u64) s (y :: kerror + _).
    (\<forall>x s s'. I s \<longrightarrow> b x s = ret s' \<longrightarrow> I s') \<longrightarrow> I s \<longrightarrow> (\<forall>s'. y = Inr s' \<longrightarrow> I s')"
  have "?P body lo hi s (Inr s')"
  proof (rule for_incl.raw_induct [where P = ?P])
    fix loop b i h s y
    assume IH: "\<And>b i h s y. loop b i h s = Some y \<Longrightarrow> ?P b i h s y"
      and eq: "(if i \<le> h then res_bind (b i s) (loop b (i + 1) h) else ret s) = Some y"
    show "?P b i h s y"
    proof (cases "i \<le> h")
      case True
      show ?thesis
      proof (cases "b i s" rule: res_cases)
        case (returns s1)
        then have "loop b (i + 1) h s1 = Some y" using eq True by simp
        then show ?thesis using IH [of b "i + 1" h s1 y] returns by blast
      next
        case diverges
        then show ?thesis using eq True by simp
      next
        case (panics m)
        then have "y = Inl (KernelPanic m)" using eq True by (simp add: kernel_panic_def res_bind_def)
        then show ?thesis by simp
      qed
    next
      case False
      then show ?thesis using eq by (auto simp: ret_def)
    qed
  qed (use assms(1) in \<open>simp add: ret_def\<close>)
  then show ?thesis using assms(2,3) by blast
qed

section \<open>Rings\<close>

text \<open>Distinct positions of a ring of \<open>c\<close> slots lie in distinct slots.\<close>

lemma ring_slot_inj:
  fixes f j k c :: nat
  assumes "(f + j) mod c = (f + k) mod c" "j < c" "k < c" shows "j = k"
proof -
  have *: "x = y" if "(f + y) mod c = (f + x) mod c" "y < c" "x \<le> y" for x y
  proof -
    have "c dvd y - x" using that mod_eq_dvd_iff_nat [of "f + x" "f + y" c] by simp
    then show "x = y" using that(2,3) by (auto dest: dvd_imp_le)
  qed
  show ?thesis using * [of j k] * [of k j] assms by (metis nat_le_linear)
qed

end
