(* ===== verification/Machine.thy ===== *)
theory Machine
  imports Kernel_Prelude
begin

text \<open>
  The memory the kernel's pointers refer to: bytes at 64-bit addresses, with the
  little-endian 32- and 64-bit accesses of x86-64.

  The boot mappings (\<^verbatim>\<open>initial_mappings\<close> of \<^verbatim>\<open>paging.cpp\<close>, and Limine's before
  them, \<^verbatim>\<open>docs/memory.md\<close>) name the first 4 GiB of physical memory twice: by the
  identity map and, shifted by the HHDM offset, by the higher-half direct map. The kernel uses
  both names: the free stack is reached through the identity map and the page tables through
  the direct map. \<open>cell_of\<close> resolves the second name to the first, so that two pointers to
  the same byte share one cell of \<open>mem\<close>; every other address names its own cell.
\<close>

section \<open>Byte-addressed memory\<close>

type_synonym memory = "u64 \<Rightarrow> u8"

primrec get_le :: "nat \<Rightarrow> memory \<Rightarrow> u64 \<Rightarrow> u64" where
  "get_le 0 m a = 0"
| "get_le (Suc n) m a = ucast (m a) OR push_bit 8 (get_le n m (a + 1))"

primrec put_le :: "nat \<Rightarrow> u64 \<Rightarrow> u64 \<Rightarrow> memory \<Rightarrow> memory" where
  "put_le 0 a v m = m"
| "put_le (Suc n) a v m = put_le n (a + 1) (drop_bit 8 v) (m(a := ucast v))"

definition read_u64 :: "memory \<Rightarrow> u64 \<Rightarrow> u64" where
  "read_u64 m a = get_le 8 m a"

definition write_u64 :: "u64 \<Rightarrow> u64 \<Rightarrow> memory \<Rightarrow> memory" where
  "write_u64 a v m = put_le 8 a v m"

definition read_u32 :: "memory \<Rightarrow> u64 \<Rightarrow> u32" where
  "read_u32 m a = ucast (get_le 4 m a)"

definition write_u32 :: "u64 \<Rightarrow> u32 \<Rightarrow> memory \<Rightarrow> memory" where
  "write_u32 a v m = put_le 4 a (ucast v) m"

text \<open>Value-initialisation of an object of \<open>n\<close> bytes (placement new with zeroed members).\<close>

definition zero_fill :: "u64 \<Rightarrow> nat \<Rightarrow> memory \<Rightarrow> memory" where
  "zero_fill a n m = (\<lambda>b. if unat (b - a) < n then 0 else m b)"

lemma bit_get_le:
  "n \<le> 8 \<Longrightarrow> bit (get_le n m a) k \<longleftrightarrow> k < 8 * n \<and> bit (m (a + of_nat (k div 8))) (k mod 8)"
proof (induction n arbitrary: a k)
  case 0
  then show ?case by simp
next
  case (Suc n)
  show ?case
  proof (cases "k < 8")
    case True
    then show ?thesis by (simp add: bit_simps)
  next
    case False
    then obtain j where j: "k = 8 + j" using le_Suc_ex by (metis linorder_not_less)
    have "(8 + j) div 8 = Suc (j div 8)" by simp
    moreover have "\<not> bit (m a) k" using False by (auto dest: bit_imp_le_length)
    ultimately show ?thesis
      using Suc j by (auto simp: bit_simps add.assoc simp del: div_add_self1 div_add_self2
          dest: bit_imp_le_length)
  qed
qed

lemma unat_diff_Suc:
  fixes a b :: u64
  assumes "b \<noteq> a" shows "unat (b - a) = Suc (unat (b - (a + 1)))"
proof -
  have "b - a \<noteq> 0" using assms by simp
  then have "unat (b - a) = Suc (unat (b - a - 1))"
    by (metis Suc_pred' unat_gt_0 unat_minus_one)
  then show ?thesis by (simp add: algebra_simps)
qed

lemma put_le_apply:
  "n \<le> 8 \<Longrightarrow> put_le n a v m b =
     (if unat (b - a) < n then ucast (drop_bit (8 * unat (b - a)) v) else m b)"
proof (induction n arbitrary: a v m)
  case 0
  then show ?case by simp
next
  case (Suc n)
  show ?case
  proof (cases "b = a")
    case True
    have "a - (a + 1) = (18446744073709551615 :: u64)" by simp
    then have "\<not> unat (a - (a + 1)) < n"
      using Suc.prems by (simp only: unat_numeral) simp
    then show ?thesis using True Suc by simp
  next
    case False
    then show ?thesis
      using Suc unat_diff_Suc [OF False] by (simp add: drop_bit_drop_bit add.commute)
  qed
qed

lemma get_le_cong:
  assumes "n \<le> 8" and "\<And>i. i < n \<Longrightarrow> m (a + of_nat i) = m' (a + of_nat i)"
  shows "get_le n m a = get_le n m' a"
proof (rule bit_eqI)
  fix k
  have "k < 8 * n \<Longrightarrow> k div 8 < n" by (simp add: less_mult_imp_div_less mult.commute)
  then show "bit (get_le n m a) k = bit (get_le n m' a) k"
    using assms by (auto simp: bit_get_le)
qed

section \<open>Separation of accesses\<close>

text \<open>Two 64-bit accesses do not overlap (addresses wrap).\<close>

definition sep8 :: "u64 \<Rightarrow> u64 \<Rightarrow> bool" where
  "sep8 a b \<longleftrightarrow> 8 \<le> unat (b - a) \<and> 8 \<le> unat (a - b)"

text \<open>A 64-bit access lies outside an object of \<open>n\<close> bytes.\<close>

definition outside :: "u64 \<Rightarrow> nat \<Rightarrow> u64 \<Rightarrow> bool" where
  "outside a n b \<longleftrightarrow> n \<le> unat (b - a) \<and> unat (b - a) + 8 \<le> 2 ^ 64"

lemma unat_of_nat_small: "n < 2 ^ 64 \<Longrightarrow> unat (of_nat n :: u64) = n"
  by (simp add: unat_of_nat take_bit_nat_eq_self)

lemma read_write_u64_same [simp]: "read_u64 (write_u64 a v m) a = v"
proof (rule bit_eqI)
  fix k :: nat
  assume "possible_bit TYPE(u64) k"
  then have k: "k < 64" by simp
  then have "unat (of_nat (k div 8) :: u64) = k div 8"
    by (intro unat_of_nat_small) simp
  moreover have "8 * (k div 8) + k mod 8 = k" by simp
  ultimately show "bit (read_u64 (write_u64 a v m) a) k = bit v k"
    using k by (simp add: read_u64_def write_u64_def bit_get_le put_le_apply bit_simps
        less_mult_imp_div_less)
qed

lemma read_u64_cong:
  assumes "\<And>i. i < 8 \<Longrightarrow> m (a + of_nat i) = m' (a + of_nat i)"
  shows "read_u64 m a = read_u64 m' a"
  unfolding read_u64_def by (rule get_le_cong) (use assms in auto)

lemma sep8_not_in:
  assumes "sep8 a b" and "i < 8" shows "\<not> unat (a + of_nat i - b) < 8"
proof
  assume less: "unat (a + of_nat i - b) < 8"
  have i: "unat (of_nat i :: u64) = i" using assms by (intro unat_of_nat_small) simp
  have ab: "8 \<le> unat (a - b)" "8 \<le> unat (b - a)" using assms by (auto simp: sep8_def)
  have "a + of_nat i - b = (a - b) + of_nat i" by simp
  then have "unat (a + of_nat i - b) = (unat (a - b) + i) mod 2 ^ 64"
    by (simp only: unat_word_ariths(1) i) simp
  then have "2 ^ 64 \<le> unat (a - b) + i"
    using less ab(1) by (intro leI notI) simp
  then have "2 ^ 64 - unat (a - b) < 8" using assms(2) by simp
  moreover have "unat (b - a) = 2 ^ 64 - unat (a - b)"
  proof -
    have "a \<noteq> b" using ab(1) by auto
    then have "unat a \<noteq> unat b" by (simp only: word_unat_eq_iff not_False_eq_True)
    then show ?thesis using unat_less_2p [of a] unat_less_2p [of b] by (auto simp: unat_sub_if')
  qed
  ultimately show False using ab(2) by simp
qed

lemma read_write_u64_sep [simp]:
  assumes "sep8 a b" shows "read_u64 (write_u64 b v m) a = read_u64 m a"
  by (rule read_u64_cong) (use sep8_not_in [OF assms] in \<open>simp add: write_u64_def put_le_apply\<close>)

lemma sep8_sym: "sep8 a b \<Longrightarrow> sep8 b a"
  by (simp add: sep8_def)

lemma read_zero_fill_outside [simp]:
  assumes "outside a n b" shows "read_u64 (zero_fill a n m) b = read_u64 m b"
proof (rule read_u64_cong)
  fix i :: nat assume i: "i < 8"
  have ui: "unat (of_nat i :: u64) = i" using i by (intro unat_of_nat_small) simp
  have "unat (b + of_nat i - a) = unat (b - a) + i"
    using assms i ui unat_add_no_wrap [of "b - a" "of_nat i"]
    by (simp add: outside_def algebra_simps)
  then show "zero_fill a n m (b + of_nat i) = m (b + of_nat i)"
    using assms by (simp add: zero_fill_def outside_def)
qed

lemma read_u64_zero: "(\<And>i. i < 8 \<Longrightarrow> m (a + of_nat i) = 0) \<Longrightarrow> read_u64 m a = 0"
  using read_u64_cong [of m a "\<lambda>_. 0"] by (simp add: read_u64_def numeral_eq_Suc)

lemma read_zero_fill_inside [simp]:
  assumes "unat (b - a) + 8 \<le> n" and "n \<le> 2 ^ 64"
  shows "read_u64 (zero_fill a n m) b = 0"
proof (rule read_u64_zero)
  fix i :: nat assume i: "i < 8"
  have ui: "unat (of_nat i :: u64) = i" using i by (intro unat_of_nat_small) simp
  have "unat (b + of_nat i - a) = unat (b - a) + i"
    using assms i ui unat_add_no_wrap [of "b - a" "of_nat i"] by (simp add: algebra_simps)
  then show "zero_fill a n m (b + of_nat i) = 0"
    using assms i by (simp add: zero_fill_def)
qed

lemma sep8_aligned:
  assumes "unat a mod 8 = 0" and "unat b mod 8 = 0" and "a \<noteq> b"
  shows "sep8 a b"
proof -
  have *: "8 \<le> unat (x - y)"
    if "unat x mod 8 = 0" "unat y mod 8 = 0" "x \<noteq> y" for x y :: u64
  proof -
    have "unat (x - y) mod 8 = 0"
      using that unat_less_2p [of x] unat_less_2p [of y]
      by (auto simp: unat_sub_if' mod_eq_0_iff_dvd dvd_diff_nat)
    moreover have "unat (x - y) \<noteq> 0" using that(3) by (simp add: unat_eq_0)
    ultimately show ?thesis by (simp add: mod_eq_0_iff_dvd dvd_imp_le)
  qed
  show ?thesis using assms by (simp add: sep8_def *)
qed

section \<open>The machine and its pointers\<close>

record machine =
  mem :: memory
  hhdm_offset :: u64

definition cell_of :: "u64 \<Rightarrow> u64 \<Rightarrow> u64" where
  "cell_of off p = (if unat (p - off) < 2 ^ 32 then p - off else p)"

definition load64 :: "'z machine_scheme \<Rightarrow> u64 \<Rightarrow> u64" where
  "load64 s p = read_u64 (mem s) (cell_of (hhdm_offset s) p)"

definition store64 :: "u64 \<Rightarrow> u64 \<Rightarrow> 'z machine_scheme \<Rightarrow> 'z machine_scheme" where
  "store64 p v s = s\<lparr>mem := write_u64 (cell_of (hhdm_offset s) p) v (mem s)\<rparr>"

definition zero_object :: "u64 \<Rightarrow> nat \<Rightarrow> 'z machine_scheme \<Rightarrow> 'z machine_scheme" where
  "zero_object p n s = s\<lparr>mem := zero_fill (cell_of (hhdm_offset s) p) n (mem s)\<rparr>"

text \<open>What Limine documents of the HHDM offset: it lies in the higher half, and the 4 GiB
  window above it does not wrap.\<close>

definition hhdm_ok :: "u64 \<Rightarrow> bool" where
  "hhdm_ok off \<longleftrightarrow> 2 ^ 47 \<le> unat off \<and> unat off + 2 ^ 33 \<le> 2 ^ 64"

lemma cell_of_direct [simp]: "unat p < 2 ^ 32 \<Longrightarrow> cell_of off (off + p) = p"
  by (simp add: cell_of_def)

lemma cell_of_identity [simp]:
  assumes "hhdm_ok off" and "unat p < 2 ^ 47" shows "cell_of off p = p"
proof -
  have "unat (p - off) = unat p + 2 ^ 64 - unat off"
    using assms by (simp add: unat_sub_if' hhdm_ok_def)
  then have "\<not> unat (p - off) < 2 ^ 32" using assms by (auto simp: hhdm_ok_def)
  then show ?thesis by (simp add: cell_of_def)
qed

lemma machine_frame [simp]:
  "hhdm_offset (store64 p v s) = hhdm_offset s" "hhdm_offset (zero_object p n s) = hhdm_offset s"
  "machine.more (store64 p v s) = machine.more s"
  "machine.more (zero_object p n s) = machine.more s"
  by (simp_all add: store64_def zero_object_def)

lemma load_store_same [simp]: "load64 (store64 p v s) p = v"
  by (simp add: load64_def store64_def)

lemma load_store_sep:
  "sep8 (cell_of (hhdm_offset s) p) (cell_of (hhdm_offset s) q)
     \<Longrightarrow> load64 (store64 q v s) p = load64 s p"
  by (simp add: load64_def store64_def)

lemma load_zero_outside:
  "outside (cell_of (hhdm_offset s) q) n (cell_of (hhdm_offset s) p)
     \<Longrightarrow> load64 (zero_object q n s) p = load64 s p"
  by (simp add: load64_def zero_object_def)

end
