(* ===== verification/Kpp_Stack.thy ===== *)
theory Kpp_Stack
  imports Machine
begin

text \<open>
  \<^verbatim>\<open>kpp::NonOwningStack\<close>: a bounded stack of pointers in memory it does not own. The
  object is the record; its contents are the words at \<^verbatim>\<open>m_stack\<close>. The interface its client
  (the frame allocator) relies on is the locale \<open>bounded_stack\<close>.
\<close>

section \<open>The interface\<close>

locale bounded_stack =
  fixes push :: "u64 \<Rightarrow> 'q \<Rightarrow> 'q"
    and pop :: "'q \<Rightarrow> 'q"
    and top :: "'q \<Rightarrow> u64"
    and is_empty :: "'q \<Rightarrow> bool"
    and contents :: "'q \<Rightarrow> u64 list"
    and capacity :: "'q \<Rightarrow> nat"
    and invar :: "'q \<Rightarrow> bool"
  assumes contents_push: "invar q \<Longrightarrow> contents (push x q) =
      (if length (contents q) < capacity q then x # contents q else contents q)"
    and contents_pop: "invar q \<Longrightarrow> contents (pop q) = tl (contents q)"
    and top_contents: "invar q \<Longrightarrow> contents q \<noteq> [] \<Longrightarrow> top q = hd (contents q)"
    and is_empty_contents: "invar q \<Longrightarrow> is_empty q \<longleftrightarrow> contents q = []"
    and capacity_push: "invar q \<Longrightarrow> capacity (push x q) = capacity q"
    and capacity_pop: "invar q \<Longrightarrow> capacity (pop q) = capacity q"
    and invar_push: "invar q \<Longrightarrow> invar (push x q)"
    and invar_pop: "invar q \<Longrightarrow> invar (pop q)"
    and contents_bound: "invar q \<Longrightarrow> length (contents q) \<le> capacity q"
begin

text \<open>What a client gets from pushing a sequence: as much of it as fits, last on top.\<close>

lemma push_all:
  "invar q \<Longrightarrow>
     invar (fold push xs q) \<and> capacity (fold push xs q) = capacity q \<and>
     contents (fold push xs q) = rev (take (capacity q - length (contents q)) xs) @ contents q"
proof (induction xs arbitrary: q)
  case Nil
  then show ?case by simp
next
  case (Cons x xs)
  then have "invar (push x q)" by (simp add: invar_push)
  note IH = Cons.IH [OF this]
  show ?case
  proof (cases "length (contents q) < capacity q")
    case True
    then have "capacity q - length (contents q) = Suc (capacity q - Suc (length (contents q)))"
      by simp
    then show ?thesis using IH True Cons.prems by (simp add: contents_push capacity_push)
  next
    case False
    then show ?thesis using IH Cons.prems by (simp add: contents_push capacity_push)
  qed
qed

lemma push_pop: "invar q \<Longrightarrow> length (contents q) < capacity q \<Longrightarrow>
    contents (pop (push x q)) = contents q \<and> top (push x q) = x"
  by (simp add: contents_pop contents_push invar_push top_contents)

end

section \<open>The class\<close>

record NonOwningStack =
  m_stack :: u64
  m_maxSize :: u64
  m_size :: u64

definition NonOwningStack_init :: "u64 \<Rightarrow> u64 \<Rightarrow> NonOwningStack" where
  "NonOwningStack_init base max_size = \<lparr>m_stack = base, m_maxSize = max_size, m_size = 0\<rparr>"

definition stack_empty :: "NonOwningStack \<Rightarrow> bool" where
  "stack_empty st \<longleftrightarrow> m_size st = 0"

definition stack_full :: "NonOwningStack \<Rightarrow> bool" where
  "stack_full st \<longleftrightarrow> m_size st = m_maxSize st"

definition stack_size :: "NonOwningStack \<Rightarrow> u64" where
  "stack_size st = m_size st"

text \<open>The slot \<^verbatim>\<open>m_stack[i]\<close> of the pointer array.\<close>

definition slot :: "NonOwningStack \<Rightarrow> u64 \<Rightarrow> u64" where
  "slot st i = m_stack st + 8 * i"

definition stack_push ::
  "u64 \<Rightarrow> NonOwningStack \<times> 'z machine_scheme \<Rightarrow> NonOwningStack \<times> 'z machine_scheme" where
  "stack_push frame_pointer = (\<lambda>(st, s).
     if stack_full st then (st, s)
     else (st\<lparr>m_size := m_size st + 1\<rparr>, store64 (slot st (m_size st)) frame_pointer s))"

definition stack_pop ::
  "NonOwningStack \<times> 'z machine_scheme \<Rightarrow> NonOwningStack \<times> 'z machine_scheme" where
  "stack_pop = (\<lambda>(st, s).
     if stack_empty st then (st, s) else (st\<lparr>m_size := m_size st - 1\<rparr>, s))"

definition stack_top :: "NonOwningStack \<times> 'z machine_scheme \<Rightarrow> u64" where
  "stack_top = (\<lambda>(st, s). load64 s (slot st (m_size st - 1)))"

section \<open>The contents of the stack\<close>

text \<open>The invariant: the array of \<^verbatim>\<open>m_maxSize\<close> pointers is 8-byte aligned and lies in the
  identity-mapped first 4 GiB, and at most \<^verbatim>\<open>m_maxSize\<close> slots are in use.\<close>

definition stack_inv :: "NonOwningStack \<times> 'z machine_scheme \<Rightarrow> bool" where
  "stack_inv = (\<lambda>(st, s). hhdm_ok (hhdm_offset s) \<and> unat (m_stack st) mod 8 = 0 \<and>
     unat (m_stack st) + 8 * unat (m_maxSize st) \<le> 2 ^ 32 \<and> m_size st \<le> m_maxSize st)"

definition stack_contents :: "NonOwningStack \<times> 'z machine_scheme \<Rightarrow> u64 list" where
  "stack_contents = (\<lambda>(st, s).
     rev (map (\<lambda>i. load64 s (slot st (of_nat i))) [0..<unat (m_size st)]))"

definition stack_capacity :: "NonOwningStack \<times> 'z machine_scheme \<Rightarrow> nat" where
  "stack_capacity = (\<lambda>(st, s). unat (m_maxSize st))"

lemma unat_slot:
  assumes "stack_inv (st, s)" and "i \<le> unat (m_maxSize st)"
  shows "unat (slot st (of_nat i)) = unat (m_stack st) + 8 * i"
proof -
  have "unat (8 * of_nat i :: u64) = 8 * i"
    using assms unat_of_nat_small [of "8 * i"] by (simp add: stack_inv_def)
  then show ?thesis
    using assms unat_add_no_wrap [of "m_stack st" "8 * of_nat i"]
    by (simp add: slot_def stack_inv_def)
qed

lemma slot_cell:
  assumes "stack_inv (st, s)" and "i \<le> unat (m_maxSize st)"
  shows "cell_of (hhdm_offset s) (slot st (of_nat i)) = slot st (of_nat i)"
  using assms unat_slot [OF assms] by (intro cell_of_identity) (auto simp: stack_inv_def)

lemma slot_sep:
  assumes "stack_inv (st, s)" and "i \<le> unat (m_maxSize st)" and "j \<le> unat (m_maxSize st)"
    and "i \<noteq> j"
  shows "sep8 (slot st (of_nat i)) (slot st (of_nat j))"
proof (rule sep8_aligned)
  note u = unat_slot [OF assms(1,2)] unat_slot [OF assms(1,3)]
  show "unat (slot st (of_nat i)) mod 8 = 0" "unat (slot st (of_nat j)) mod 8 = 0"
    using assms(1) u by (simp_all add: stack_inv_def mod_eq_0_iff_dvd)
  show "slot st (of_nat i) \<noteq> slot st (of_nat j)"
    using u assms(4) by (metis add_left_cancel nat_mult_eq_cancel_disj zero_neq_numeral)
qed

lemma length_stack_contents [simp]: "length (stack_contents (st, s)) = unat (m_size st)"
  by (simp add: stack_contents_def)

lemma stack_contents_cong:
  assumes "m_size st' = m_size st" and "m_stack st' = m_stack st"
    and "\<And>i. i < unat (m_size st) \<Longrightarrow>
      load64 s' (slot st (of_nat i)) = load64 s (slot st (of_nat i))"
  shows "stack_contents (st', s') = stack_contents (st, s)"
  using assms by (simp add: stack_contents_def slot_def)

lemma not_full_less:
  assumes "stack_inv (st, s)" and "\<not> stack_full st"
  shows "unat (m_size st) < unat (m_maxSize st)"
proof -
  have "m_size st < m_maxSize st"
    using assms by (simp add: stack_inv_def stack_full_def order_less_le)
  then show ?thesis by (simp add: word_less_nat_alt)
qed

lemma unat_Suc_size:
  assumes "stack_inv (st, s)" and "\<not> stack_full st"
  shows "unat (m_size st + 1) = Suc (unat (m_size st))"
  using not_full_less [OF assms] unat_less_2p [of "m_maxSize st"]
    unat_add_no_wrap [of "m_size st" 1] by simp

lemma stack_contents_push:
  assumes inv: "stack_inv (st, s)" and nf: "\<not> stack_full st"
  shows "stack_contents (stack_push x (st, s)) = x # stack_contents (st, s)"
proof -
  let ?n = "unat (m_size st)"
  note lt = not_full_less [OF inv nf]
  have "load64 (store64 (slot st (m_size st)) x s) (slot st (of_nat i))
      = load64 s (slot st (of_nat i))" if "i < ?n" for i
    using that lt slot_cell [OF inv, of i] slot_cell [OF inv, of ?n] slot_sep [OF inv, of i ?n]
    by (intro load_store_sep) simp
  then show ?thesis
    using nf by (simp add: stack_contents_def stack_push_def unat_Suc_size [OF inv nf] slot_def)
qed

lemma stack_inv_push:
  "stack_inv q \<Longrightarrow> stack_inv (stack_push x q)"
proof (cases q)
  case (Pair st s)
  assume inv: "stack_inv q"
  show ?thesis
  proof (cases "stack_full st")
    case False
    then show ?thesis
      using inv Pair not_full_less [of st s] unat_Suc_size [of st s]
      by (simp add: stack_push_def stack_inv_def word_le_nat_alt)
  next
    case True
    then show ?thesis using inv Pair by (simp add: stack_push_def)
  qed
qed

lemma stack_pop_size:
  assumes "\<not> stack_empty st" shows "Suc (unat (m_size st - 1)) = unat (m_size st)"
  using assms by (metis Suc_pred' stack_empty_def unat_gt_0 unat_minus_one)

interpretation nos: bounded_stack stack_push stack_pop stack_top "\<lambda>(st, s). stack_empty st"
  stack_contents stack_capacity stack_inv
proof
  fix q :: "NonOwningStack \<times> 'a machine_scheme" and x :: u64
  obtain st s where q: "q = (st, s)" by (cases q)
  assume inv: "stack_inv q"
  show "stack_contents (stack_push x q) =
      (if length (stack_contents q) < stack_capacity q then x # stack_contents q else stack_contents q)"
  proof (cases "stack_full st")
    case True
    then show ?thesis by (simp add: q stack_push_def stack_capacity_def stack_full_def)
  next
    case False
    then show ?thesis
      using inv not_full_less [of st s] by (simp add: q stack_contents_push stack_capacity_def)
  qed
  show "stack_contents (stack_pop q) = tl (stack_contents q)"
  proof (cases "stack_empty st")
    case True
    then show ?thesis by (simp add: q stack_pop_def stack_contents_def stack_empty_def)
  next
    case False
    then show ?thesis
      by (simp add: q stack_pop_def stack_contents_def stack_pop_size [OF False, symmetric] slot_def)
  qed
  show "stack_top q = hd (stack_contents q)" if "stack_contents q \<noteq> []"
  proof -
    have ne: "\<not> stack_empty st" using that by (auto simp: q stack_contents_def stack_empty_def)
    then show ?thesis
      by (simp add: q stack_top_def stack_contents_def stack_pop_size [OF ne, symmetric])
  qed
  show "(case q of (st, s) \<Rightarrow> stack_empty st) \<longleftrightarrow> stack_contents q = []"
    by (simp add: q stack_contents_def stack_empty_def unat_eq_0)
  show "stack_capacity (stack_push x q) = stack_capacity q"
    by (simp add: q stack_push_def stack_capacity_def)
  show "stack_capacity (stack_pop q) = stack_capacity q"
    by (simp add: q stack_pop_def stack_capacity_def)
  show "stack_inv (stack_push x q)" using inv by (rule stack_inv_push)
  show "stack_inv (stack_pop q)"
    using inv stack_pop_size [of st]
    by (auto simp: q stack_pop_def stack_inv_def word_le_nat_alt)
  show "length (stack_contents q) \<le> stack_capacity q"
    using inv by (simp add: q stack_capacity_def stack_inv_def word_le_nat_alt)
qed

end
