(* ===== verification/Kpp_Optional.thy ===== *)
theory Kpp_Optional
  imports Kernel_Prelude
begin

text \<open>
  \<^verbatim>\<open>kpp::Optional\<close>: a zero-initialised buffer for a value and a presence flag. Reading
  through \<^verbatim>\<open>operator*\<close> or \<^verbatim>\<open>operator->\<close> reads the buffer whatever the flag
  says, so the model has the buffer and not an option value. Constructors and destructors of the
  contained type act on a world \<open>'w\<close>; \<open>dtor\<close> is the contained type's destructor.
\<close>

record 'a Optional =
  buffer :: 'a
  is_present :: bool

text \<open>\<open>zeroed\<close> is the object whose bytes are all zero: \<^verbatim>\<open>buffer {}\<close>.\<close>

definition Optional_init :: "'a \<Rightarrow> 'a Optional" where
  "Optional_init zeroed = \<lparr>buffer = zeroed, is_present = False\<rparr>"

definition Optional_reset ::
  "('a \<Rightarrow> 'w \<Rightarrow> 'w) \<Rightarrow> 'a Optional \<times> 'w \<Rightarrow> 'a Optional \<times> 'w" where
  "Optional_reset dtor = (\<lambda>(opt, w).
     if is_present opt then (opt\<lparr>is_present := False\<rparr>, dtor (buffer opt) w) else (opt, w))"

definition Optional_emplace ::
  "('a \<Rightarrow> 'w \<Rightarrow> 'w) \<Rightarrow> 'a \<Rightarrow> 'a Optional \<times> 'w \<Rightarrow> 'a Optional \<times> 'w" where
  "Optional_emplace dtor v = (\<lambda>(opt, w).
     let (opt', w') = (if is_present opt then Optional_reset dtor (opt, w) else (opt, w))
     in (opt'\<lparr>buffer := v, is_present := True\<rparr>, w'))"

definition Optional_assign_nullopt ::
  "('a \<Rightarrow> 'w \<Rightarrow> 'w) \<Rightarrow> 'a Optional \<times> 'w \<Rightarrow> 'a Optional \<times> 'w" where
  "Optional_assign_nullopt dtor = Optional_reset dtor"

definition Optional_deref :: "'a Optional \<Rightarrow> 'a" where
  "Optional_deref opt = buffer opt"

lemma fst_Optional_emplace: "fst (Optional_emplace d v (opt, w)) = \<lparr>buffer = v, is_present = True\<rparr>"
  by (cases opt) (simp add: Optional_emplace_def Optional_reset_def)

text \<open>Copy and move assignment from another \<^verbatim>\<open>Optional\<close>: \<open>mk\<close> is the contained type's
  copy or move constructor.\<close>

definition Optional_assign ::
  "('a \<Rightarrow> 'w \<Rightarrow> 'w) \<Rightarrow> ('a \<Rightarrow> 'a) \<Rightarrow> 'a Optional \<Rightarrow> 'a Optional \<times> 'w \<Rightarrow> 'a Optional \<times> 'w" where
  "Optional_assign dtor mk other = (\<lambda>q.
     if is_present other then Optional_emplace dtor (mk (Optional_deref other)) q
     else Optional_reset dtor q)"

definition Optional_assign_value ::
  "('a \<Rightarrow> 'w \<Rightarrow> 'w) \<Rightarrow> 'a \<Rightarrow> 'a Optional \<times> 'w \<Rightarrow> 'a Optional \<times> 'w" where
  "Optional_assign_value dtor v = (\<lambda>(opt, w).
     Optional_emplace dtor v
       (if is_present opt then Optional_reset dtor (opt, w) else (opt, w)))"

definition Optional_bool :: "'a Optional \<Rightarrow> bool" where
  "Optional_bool opt = is_present opt"

definition Optional_not :: "'a Optional \<Rightarrow> bool" where
  "Optional_not opt = (\<not> is_present opt)"

lemmas Optional_defs = Optional_init_def Optional_reset_def Optional_emplace_def
  Optional_assign_nullopt_def Optional_deref_def Optional_assign_def Optional_assign_value_def
  Optional_bool_def Optional_not_def

text \<open>The operations a program performs on one \<^verbatim>\<open>Optional\<close>, and the values each
  constructs in its buffer. The operands are other objects: an \<^verbatim>\<open>Optional\<close> that is assigned its own
  contained value destroys it before it copies it.\<close>

datatype 'a optional_op =
    Reset | Emplace 'a | AssignNullopt | Assign "'a Optional" | AssignValue 'a

fun optional_step ::
  "('a \<Rightarrow> 'w \<Rightarrow> 'w) \<Rightarrow> ('a \<Rightarrow> 'a) \<Rightarrow> 'a optional_op \<Rightarrow> 'a Optional \<times> 'w \<Rightarrow> 'a Optional \<times> 'w"
where
  "optional_step dtor mk Reset q = Optional_reset dtor q"
| "optional_step dtor mk (Emplace v) q = Optional_emplace dtor v q"
| "optional_step dtor mk AssignNullopt q = Optional_assign_nullopt dtor q"
| "optional_step dtor mk (Assign other) q = Optional_assign dtor mk other q"
| "optional_step dtor mk (AssignValue v) q = Optional_assign_value dtor v q"

fun constructed :: "('a \<Rightarrow> 'a) \<Rightarrow> 'a optional_op \<Rightarrow> 'a list" where
  "constructed mk Reset = []"
| "constructed mk (Emplace v) = [v]"
| "constructed mk AssignNullopt = []"
| "constructed mk (Assign other) = (if is_present other then [mk (buffer other)] else [])"
| "constructed mk (AssignValue v) = [v]"

text \<open>A destructor that records which value it was called for.\<close>

definition record_dtor :: "'a \<Rightarrow> 'a list \<Rightarrow> 'a list" where
  "record_dtor v destroyed = destroyed @ [v]"

definition contained :: "'a Optional \<Rightarrow> 'a list" where
  "contained opt = (if is_present opt then [buffer opt] else [])"

lemma optional_step_values:
  assumes "optional_step record_dtor mk x (opt, d) = (opt', d')"
  shows "d' @ contained opt' = d @ contained opt @ constructed mk x"
  using assms by (cases x) (auto simp: Optional_defs record_dtor_def contained_def split: if_splits)

lemma optional_run_values:
  assumes "fold (optional_step record_dtor mk) ops (opt, d) = (opt', d')"
  shows "d' @ contained opt' = d @ contained opt @ concat (map (constructed mk) ops)"
  using assms
proof (induction ops arbitrary: opt d)
  case (Cons x xs)
  obtain o1 d1 where x: "optional_step record_dtor mk x (opt, d) = (o1, d1)" by fastforce
  then have "d' @ contained opt' = (d1 @ contained o1) @ concat (map (constructed mk) xs)"
    using Cons.IH [of o1 d1] Cons.prems by simp
  then show ?case by (simp add: optional_step_values [OF x])
qed simp

text \<open>C36. Resource safety of \<^verbatim>\<open>kpp::Optional\<close>: after any sequence of operations on a
  default-constructed \<^verbatim>\<open>Optional\<close>, the values for which the destructor was called, followed by the
  one that is present, are the values that were constructed in the buffer, in this order. So the destructor is
  called once for each value but the present one, for no other value and never for one that is still
  present. There is no destructor of \<^verbatim>\<open>Optional\<close> itself: the value that is present at the end is not destroyed.\<close>

theorem optional_destroys_each_once:
  assumes "fold (optional_step record_dtor mk) ops (Optional_init zeroed, []) = (opt, destroyed)"
  shows "destroyed @ (if is_present opt then [buffer opt] else []) = concat (map (constructed mk) ops)"
  using optional_run_values [OF assms] by (simp add: contained_def Optional_init_def)

theorem optional_destroys_each_once_witness:
  "\<exists>opt destroyed. fold (optional_step record_dtor (\<lambda>v. v))
       [Emplace (1 :: int), AssignValue 2, Reset, Assign \<lparr>buffer = 3, is_present = True\<rparr>, Emplace 4]
       (Optional_init 0, []) = (opt, destroyed) \<and>
     destroyed @ (if is_present opt then [buffer opt] else []) = [1, 2, 3, 4] \<and> destroyed = [1, 2, 3]"
proof -
  have run: "fold (optional_step record_dtor (\<lambda>v. v))
      [Emplace (1 :: int), AssignValue 2, Reset, Assign \<lparr>buffer = 3, is_present = True\<rparr>, Emplace 4]
      (Optional_init 0, []) = (\<lparr>buffer = 4, is_present = True\<rparr>, [1, 2, 3])"
    by (simp add: Optional_defs record_dtor_def)
  show ?thesis using optional_destroys_each_once [OF run] run by simp
qed

end
