(* ===== verification/Frame_Allocator.thy ===== *)
theory Frame_Allocator
  imports Kpp_Stack Kpp_Optional
begin

text \<open>
  The physical frame allocator (\<^verbatim>\<open>frame_allocator.cpp\<close>): a free stack of frame addresses
  kept in frames reserved from the bootloader's memory map.
\<close>

section \<open>State\<close>

definition LIMINE_MEMMAP_USABLE :: u64 where
  "LIMINE_MEMMAP_USABLE = 0"

definition LIMINE_MEMMAP_BOOTLOADER_RECLAIMABLE :: u64 where
  "LIMINE_MEMMAP_BOOTLOADER_RECLAIMABLE = 5"

definition frameSize :: u64 where
  "frameSize = 0x1000"

definition pageSize :: u64 where
  "pageSize = 0x1000"

record limine_memmap_entry =
  entry_base :: u64
  entry_length :: u64
  entry_type :: u64

record FrameRange =
  range_begin :: u64
  range_end :: u64

text \<open>The machine with the allocator's globals: the bootloader's memory map and the static
  \<^verbatim>\<open>Optional<NonOwningStack> free_stack\<close>.\<close>

record frame_state = machine +
  memory_map :: "limine_memmap_entry list"
  free_stack :: "NonOwningStack Optional"

section \<open>Operations\<close>

definition is_allocatable :: "limine_memmap_entry \<Rightarrow> bool" where
  "is_allocatable entry \<longleftrightarrow> entry_type entry = LIMINE_MEMMAP_USABLE"

fun get_num_allocatable_frames :: "limine_memmap_entry list \<Rightarrow> u64 \<Rightarrow> u64" where
  "get_num_allocatable_frames [] allocatable_frames = allocatable_frames"
| "get_num_allocatable_frames (entry # entries) allocatable_frames =
     get_num_allocatable_frames entries
       (if is_allocatable entry then allocatable_frames + entry_length entry div frameSize
        else allocatable_frames)"

definition ceil_div :: "u64 \<Rightarrow> u64 \<Rightarrow> u64" where
  "ceil_div dividend divisor = dividend div divisor + (if dividend mod divisor \<noteq> 0 then 1 else 0)"

fun manually_reserve_contiguous_frames :: "limine_memmap_entry list \<Rightarrow> u64 \<Rightarrow> u64" where
  "manually_reserve_contiguous_frames [] num_frames = 0"
| "manually_reserve_contiguous_frames (entry # entries) num_frames =
     (if is_allocatable entry \<and> entry_length entry \<ge> num_frames * frameSize
      then entry_base entry
      else manually_reserve_contiguous_frames entries num_frames)"

text \<open>\<^verbatim>\<open>free_stack->push(frame)\<close> on the static \<^verbatim>\<open>Optional\<close>.\<close>

definition free_stack_push :: "u64 \<Rightarrow> 'z frame_state_scheme \<Rightarrow> 'z frame_state_scheme" where
  "free_stack_push frame s =
     (let (st, s') = stack_push frame (Optional_deref (free_stack s), s)
      in s'\<lparr>free_stack := (free_stack s)\<lparr>buffer := st\<rparr>\<rparr>)"

definition in_exclude_range :: "FrameRange list \<Rightarrow> u64 \<Rightarrow> bool" where
  "in_exclude_range exclude_ranges frame \<longleftrightarrow>
     list_ex (\<lambda>r. frame \<ge> range_begin r \<and> frame < range_end r) exclude_ranges"

definition fill_free_stack ::
  "FrameRange list \<Rightarrow> 'z frame_state_scheme \<Rightarrow> 'z frame_state_scheme res" where
  "fill_free_stack exclude_ranges s0 = res_fold (\<lambda>entry s.
     if \<not> is_allocatable entry then ret s
     else let end_of_entry = entry_base entry + entry_length entry in
       for_up frameSize
         (\<lambda>frame s. if in_exclude_range exclude_ranges frame then ret s
                     else ret (free_stack_push frame s))
         (entry_base entry) end_of_entry s) (memory_map s0) s0"

definition frame_allocator_init :: "'z frame_state_scheme \<Rightarrow> 'z frame_state_scheme res" where
  "frame_allocator_init s =
     (let num_allocatable_frames = get_num_allocatable_frames (memory_map s) 0;
          frame_pointers_per_frame = ceil_div frameSize 8;
          num_free_stack_frames = ceil_div num_allocatable_frames frame_pointers_per_frame;
          free_stack_frames_begin =
            manually_reserve_contiguous_frames (memory_map s) num_free_stack_frames
      in if free_stack_frames_begin = 0
         then kernel_panic ''not enough contiguous space for the free stack frame allocator''
         else let free_stack_frames_end =
                    free_stack_frames_begin + num_free_stack_frames * frameSize;
                  opt = fst (Optional_emplace (\<lambda>_ w. w)
                    (NonOwningStack_init free_stack_frames_begin num_allocatable_frames)
                    (free_stack s, ()))
              in fill_free_stack
                   [\<lparr>range_begin = free_stack_frames_begin, range_end = free_stack_frames_end\<rparr>]
                   (s\<lparr>free_stack := opt\<rparr>))"

definition allocate_frame :: "'z frame_state_scheme \<Rightarrow> (u64 \<times> 'z frame_state_scheme) res" where
  "allocate_frame s =
     (if stack_empty (Optional_deref (free_stack s))
      then kernel_panic ''ran out of physical memory to allocate!''
      else let frame_address = stack_top (Optional_deref (free_stack s), s);
               (st, s') = stack_pop (Optional_deref (free_stack s), s)
           in ret (frame_address, s'\<lparr>free_stack := (free_stack s)\<lparr>buffer := st\<rparr>\<rparr>))"

definition available_frames :: "'z frame_state_scheme \<Rightarrow> u64" where
  "available_frames s = stack_size (Optional_deref (free_stack s))"

definition deallocate_frame :: "u64 \<Rightarrow> 'z frame_state_scheme \<Rightarrow> 'z frame_state_scheme" where
  "deallocate_frame frame s = free_stack_push frame s"

definition kernel_physical_to_virtual :: "'z machine_scheme \<Rightarrow> u64 \<Rightarrow> u64" where
  "kernel_physical_to_virtual s physical_address = physical_address + hhdm_offset s"

text \<open>The result is the final state with the count \<^verbatim>\<open>reclaimed_frames\<close> that the debug message
  reports.\<close>

definition free_limine_bootloader_memory ::
  "'z frame_state_scheme \<Rightarrow> (u64 \<times> 'z frame_state_scheme) res" where
  "free_limine_bootloader_memory s0 = res_fold (\<lambda>entry (n, s).
     if entry_type entry \<noteq> LIMINE_MEMMAP_BOOTLOADER_RECLAIMABLE then ret (n, s)
     else let end_of_entry = entry_base entry + entry_length entry in
       for_up frameSize (\<lambda>frame (n, s). ret (n + 1, deallocate_frame frame s))
         (entry_base entry) end_of_entry (n, s)) (memory_map s0) (0, s0)"

fun limine_memmap_type :: "int \<Rightarrow> string" where
  "limine_memmap_type type =
     (if type = 0 then ''USABLE''
      else if type = 1 then ''RESERVED''
      else if type = 2 then ''ACPI_RECLAIMABLE''
      else if type = 3 then ''ACPI_NVS''
      else if type = 4 then ''BAD_MEMORY''
      else if type = 5 then ''BOOTLOADER_RECLAIMABLE''
      else if type = 6 then ''KERNEL_AND_MODULES''
      else if type = 7 then ''FRAMEBUFFER''
      else ''unknown'')"

definition update_frame_ref_count ::
  "u64 \<Rightarrow> int \<Rightarrow> 'z frame_state_scheme \<Rightarrow> 'z frame_state_scheme" where
  "update_frame_ref_count frame change s =
     (if change = -1 then deallocate_frame frame s else s)"

text \<open>The RAII wrapper \<^verbatim>\<open>Frame\<close>: its constructor and its destructor.\<close>

record Frame =
  frame_address :: u64

definition Frame_init :: "'z frame_state_scheme \<Rightarrow> (Frame \<times> 'z frame_state_scheme) res" where
  "Frame_init s = res_bind (allocate_frame s) (\<lambda>(a, s'). ret (\<lparr>frame_address = a\<rparr>, s'))"

definition Frame_destroy :: "Frame \<Rightarrow> 'z frame_state_scheme \<Rightarrow> 'z frame_state_scheme" where
  "Frame_destroy f s = deallocate_frame (frame_address f) s"

definition Frame_address :: "Frame \<Rightarrow> u64" where
  "Frame_address f = frame_address f"

section \<open>The free frames\<close>

text \<open>The abstract state: the list of free frames, the next one to be handed out first.\<close>

definition free_frames :: "'z frame_state_scheme \<Rightarrow> u64 list" where
  "free_frames s = stack_contents (Optional_deref (free_stack s), s)"

definition frame_capacity :: "'z frame_state_scheme \<Rightarrow> nat" where
  "frame_capacity s = unat (m_maxSize (Optional_deref (free_stack s)))"

definition frame_inv :: "'z frame_state_scheme \<Rightarrow> bool" where
  "frame_inv s \<longleftrightarrow> stack_inv (Optional_deref (free_stack s), s)"

lemma load64_free_stack [simp]: "load64 (s\<lparr>free_stack := x\<rparr>) p = load64 s p"
  by (simp add: load64_def)

lemma stack_contents_free_stack [simp]:
  "stack_contents (st, s\<lparr>free_stack := x\<rparr>) = stack_contents (st, s)"
  by (simp add: stack_contents_def)

lemma stack_inv_free_stack [simp]:
  "stack_inv (st, s\<lparr>free_stack := x\<rparr>) = stack_inv (st, s)"
  by (simp add: stack_inv_def)

lemma allocate_frame_Cons:
  assumes "frame_inv s" and "free_frames s = f # fs"
  shows "\<exists>opt. allocate_frame s = ret (f, s\<lparr>free_stack := opt\<rparr>) \<and>
    frame_inv (s\<lparr>free_stack := opt\<rparr>) \<and> free_frames (s\<lparr>free_stack := opt\<rparr>) = fs \<and>
    m_stack (buffer opt) = m_stack (buffer (free_stack s)) \<and>
    m_maxSize (buffer opt) = m_maxSize (buffer (free_stack s))"
  using assms nos.top_contents [of "(Optional_deref (free_stack s), s)"]
    nos.is_empty_contents [of "(Optional_deref (free_stack s), s)"]
    nos.contents_pop [of "(Optional_deref (free_stack s), s)"]
    nos.invar_pop [of "(Optional_deref (free_stack s), s)"]
  by (auto simp: allocate_frame_def free_frames_def frame_inv_def stack_pop_def
      Optional_deref_def Let_def)

lemma allocate_frame_Nil:
  "frame_inv s \<Longrightarrow> free_frames s = [] \<Longrightarrow>
     allocate_frame s = kernel_panic ''ran out of physical memory to allocate!''"
  using nos.is_empty_contents [of "(Optional_deref (free_stack s), s)"]
  by (simp add: allocate_frame_def free_frames_def frame_inv_def)

lemma free_stack_push_props:
  assumes "frame_inv s"
  shows "frame_inv (free_stack_push f s)"
    and "frame_capacity (free_stack_push f s) = frame_capacity s"
    and "free_frames (free_stack_push f s) =
      (if length (free_frames s) < frame_capacity s then f # free_frames s else free_frames s)"
  using assms nos.invar_push [of "(Optional_deref (free_stack s), s)" f]
    nos.contents_push [of "(Optional_deref (free_stack s), s)" f]
    nos.capacity_push [of "(Optional_deref (free_stack s), s)" f]
  by (auto simp: free_stack_push_def frame_inv_def free_frames_def frame_capacity_def
      Optional_deref_def stack_capacity_def split: prod.splits)

lemma free_stack_push_frame [simp]:
  "memory_map (free_stack_push f s) = memory_map s"
  "hhdm_offset (free_stack_push f s) = hhdm_offset s"
  "frame_state.more (free_stack_push f s) = frame_state.more s"
  by (simp_all add: free_stack_push_def stack_push_def store64_def split: prod.splits)

text \<open>The free stack behind its global, as a bounded stack again: the contract the rest of the
  allocator's proofs use.\<close>

interpretation fs: bounded_stack free_stack_push
  "\<lambda>s. s\<lparr>free_stack := (free_stack s)\<lparr>buffer := fst (stack_pop (buffer (free_stack s), s))\<rparr>\<rparr>"
  "\<lambda>s. stack_top (buffer (free_stack s), s)" "\<lambda>s. stack_empty (buffer (free_stack s))"
  free_frames frame_capacity frame_inv
proof
  fix q :: "'a frame_state_scheme" and x :: u64
  assume inv: "frame_inv q"
  let ?st = "(buffer (free_stack q), q)"
  have i: "stack_inv ?st" using inv by (simp add: frame_inv_def Optional_deref_def)
  note defs = free_frames_def frame_inv_def frame_capacity_def Optional_deref_def
  show "free_frames (free_stack_push x q) =
      (if length (free_frames q) < frame_capacity q then x # free_frames q else free_frames q)"
    "frame_capacity (free_stack_push x q) = frame_capacity q" "frame_inv (free_stack_push x q)"
    using free_stack_push_props [OF inv] by auto
  show "stack_top ?st = hd (free_frames q)" if "free_frames q \<noteq> []"
    using nos.top_contents [OF i] that by (simp add: defs)
  show "stack_empty (buffer (free_stack q)) = (free_frames q = [])"
    using nos.is_empty_contents [OF i] by (simp add: defs)
  show "length (free_frames q) \<le> frame_capacity q"
    using nos.contents_bound [OF i] by (simp add: defs stack_capacity_def)
  let ?q = "q\<lparr>free_stack := (free_stack q)\<lparr>buffer := fst (stack_pop ?st)\<rparr>\<rparr>"
  show "free_frames ?q = tl (free_frames q)" "frame_inv ?q"
    "frame_capacity ?q = frame_capacity q"
    using nos.contents_pop [OF i] nos.invar_pop [OF i] nos.capacity_pop [OF i]
    by (auto simp: defs stack_pop_def stack_capacity_def)
qed

section \<open>Initialisation\<close>

text \<open>What Limine documents of the entries the allocator uses: they are page-aligned, and they end
  below the last page of the 64-bit address space.\<close>

definition entry_ok :: "limine_memmap_entry \<Rightarrow> bool" where
  "entry_ok e \<longleftrightarrow> unat (entry_base e) mod 4096 = 0 \<and> unat (entry_length e) mod 4096 = 0 \<and>
     unat (entry_base e) + unat (entry_length e) + 4096 \<le> 2 ^ 64"

definition frames_of :: "limine_memmap_entry \<Rightarrow> u64 list" where
  "frames_of e = count_up frameSize (entry_base e) (entry_base e + entry_length e)"

definition usable_frames :: "limine_memmap_entry list \<Rightarrow> u64 list" where
  "usable_frames mm = concat (map frames_of (filter is_allocatable mm))"

text \<open>The frames reserved for the free stack itself.\<close>

definition stack_frames :: "limine_memmap_entry list \<Rightarrow> u64" where
  "stack_frames mm = ceil_div (get_num_allocatable_frames mm 0) (ceil_div frameSize 8)"

definition stack_begin :: "limine_memmap_entry list \<Rightarrow> u64" where
  "stack_begin mm = manually_reserve_contiguous_frames mm (stack_frames mm)"

definition reserved :: "limine_memmap_entry list \<Rightarrow> u64 \<Rightarrow> bool" where
  "reserved mm f \<longleftrightarrow> stack_begin mm \<le> f \<and> f < stack_begin mm + stack_frames mm * frameSize"

lemma unat_frameSize [simp]: "unat frameSize = 4096" and frameSize_pos [simp]: "0 < frameSize"
  by (simp_all add: frameSize_def)

lemma entry_end:
  "entry_ok e \<Longrightarrow> unat (entry_base e + entry_length e) = unat (entry_base e) + unat (entry_length e)"
  by (rule unat_add_no_wrap) (simp add: entry_ok_def)

lemma length_frames_of:
  assumes "entry_ok e" shows "length (frames_of e) = unat (entry_length e) div 4096"
proof -
  have "(unat (entry_length e) + 4095) div 4096 = unat (entry_length e) div 4096"
    using assms by (auto simp: entry_ok_def mod_eq_0_iff_dvd elim!: dvdE)
  then show ?thesis by (simp add: frames_of_def entry_end [OF assms])
qed

lemma for_frames_of:
  assumes "entry_ok e"
  shows "for_up frameSize body (entry_base e) (entry_base e + entry_length e) s
    = res_fold body (frames_of e) s"
  unfolding frames_of_def
  by (rule for_up_eq_fold) (use assms entry_end [OF assms] in \<open>simp_all add: entry_ok_def\<close>)

lemma fill_free_stack_eq:
  assumes "\<And>e. e \<in> set (memory_map s) \<Longrightarrow> is_allocatable e \<Longrightarrow> entry_ok e"
  shows "fill_free_stack ex s =
    ret (fold free_stack_push (filter (\<lambda>f. \<not> in_exclude_range ex f) (usable_frames (memory_map s))) s)"
proof -
  let ?step = "\<lambda>entry s.
     if \<not> is_allocatable entry then ret s
     else let end_of_entry = entry_base entry + entry_length entry in
       for_up frameSize
         (\<lambda>frame s. if in_exclude_range ex frame then ret s else ret (free_stack_push frame s))
         (entry_base entry) end_of_entry s"
  have body: "(\<lambda>frame s. if in_exclude_range ex frame then ret s else ret (free_stack_push frame s))
      = (\<lambda>frame s. ret (if in_exclude_range ex frame then s else free_stack_push frame s))"
    by (auto simp: fun_eq_iff)
  have "res_fold ?step mm t = ret (fold free_stack_push
      (filter (\<lambda>f. \<not> in_exclude_range ex f) (usable_frames mm)) t)"
    if "\<And>e. e \<in> set mm \<Longrightarrow> is_allocatable e \<Longrightarrow> entry_ok e" for mm and t :: "'a frame_state_scheme"
    using that
  proof (induction mm arbitrary: t)
    case (Cons e mm)
    then show ?case
      by (simp add: usable_frames_def body for_frames_of res_fold_ret fold_skip Let_def)
  qed (simp add: usable_frames_def)
  then show ?thesis using assms by (simp add: fill_free_stack_def)
qed

lemma get_num_allocatable_frames_eq:
  assumes "\<And>e. e \<in> set mm \<Longrightarrow> is_allocatable e \<Longrightarrow> entry_ok e"
  shows "get_num_allocatable_frames mm n = n + of_nat (length (usable_frames mm))"
  using assms
proof (induction mm arbitrary: n)
  case (Cons e mm)
  have "entry_length e div frameSize = of_nat (length (frames_of e))" if "is_allocatable e"
    using that Cons.prems length_frames_of [of e]
    by (simp add: word_arith_nat_div [of "entry_length e"])
  then show ?case
    using Cons by (simp add: usable_frames_def)
qed (simp add: usable_frames_def)

lemma ceil_div_512: "n div 512 + (if n mod 512 = 0 then 0 else 1) = (n + 511) div (512 :: nat)"
proof (cases "n mod 512 = 0")
  case True
  then show ?thesis by (auto elim!: dvdE simp: mod_eq_0_iff_dvd)
next
  case False
  define q r where "q = n div 512" and "r = n mod 512"
  then have n: "n = 512 * q + r" and r: "0 < r" "r < 512" using False by simp_all
  have "(512 * q + r + 511) div 512 = q + 1"
    by (rule div_nat_eqI) (use r in simp_all)
  then have "(n + 511) div 512 = n div 512 + 1" by (simp only: n [symmetric] q_def [symmetric])
  then show ?thesis using False by simp
qed

lemma stack_frames_bound:
  assumes "\<And>e. e \<in> set mm \<Longrightarrow> is_allocatable e \<Longrightarrow> entry_ok e"
    and "length (usable_frames mm) < 2 ^ 52"
  shows "unat (get_num_allocatable_frames mm 0) = length (usable_frames mm)"
    and "unat (stack_frames mm) = (length (usable_frames mm) + 511) div 512"
    and "8 * length (usable_frames mm) \<le> 4096 * unat (stack_frames mm)"
proof -
  let ?n = "length (usable_frames mm)"
  show n: "unat (get_num_allocatable_frames mm 0) = ?n"
    using assms(2) by (simp add: get_num_allocatable_frames_eq assms(1) unat_of_nat_small)
  have c: "ceil_div frameSize 8 = 512" by (simp add: ceil_div_def frameSize_def)
  have "unat (stack_frames mm) = (?n div 512 + (if ?n mod 512 = 0 then 0 else 1)) mod 2 ^ 64"
    by (simp add: stack_frames_def c ceil_div_def unat_word_ariths unat_div unat_mod n
        word_unat_eq_iff mod_Suc_eq)
  also have "\<dots> = ?n div 512 + (if ?n mod 512 = 0 then 0 else 1)"
    using assms(2) by (intro mod_less) auto
  also have "\<dots> = (?n + 511) div 512" by (rule ceil_div_512)
  finally show s: "unat (stack_frames mm) = (?n + 511) div 512" .
  show "8 * ?n \<le> 4096 * unat (stack_frames mm)"
    using mult_div_mod_eq [of 512 ?n] mod_less_divisor [of 512 ?n]
    unfolding s ceil_div_512 [symmetric] by (auto split: if_splits)
qed

lemma reserve_aligned:
  assumes "\<And>e. e \<in> set mm \<Longrightarrow> is_allocatable e \<Longrightarrow> entry_ok e"
  shows "unat (manually_reserve_contiguous_frames mm n) mod 4096 = 0"
  using assms by (induction mm) (auto simp: entry_ok_def)

lemma frame_allocator_init_frames:
  assumes ok: "\<forall>e \<in> set (memory_map s). is_allocatable e \<longrightarrow> entry_ok e"
    and small: "length (usable_frames (memory_map s)) < 2 ^ 52"
    and hhdm: "hhdm_ok (hhdm_offset s)"
    and fits: "stack_begin (memory_map s) \<noteq> 0"
    and low: "unat (stack_begin (memory_map s)) + 4096 * unat (stack_frames (memory_map s)) \<le> 2 ^ 32"
  shows "\<exists>s'. frame_allocator_init s = ret s' \<and> frame_inv s' \<and>
    free_frames s' = rev (filter (\<lambda>f. \<not> reserved (memory_map s) f) (usable_frames (memory_map s))) \<and>
    frame_capacity s' = length (usable_frames (memory_map s)) \<and>
    m_stack (Optional_deref (free_stack s')) = stack_begin (memory_map s) \<and>
    memory_map s' = memory_map s \<and> hhdm_offset s' = hhdm_offset s \<and> frame_state.more s' = frame_state.more s \<and>
    (\<exists>fs opt. s' = fold free_stack_push fs (s\<lparr>free_stack := opt\<rparr>) \<and> frame_inv (s\<lparr>free_stack := opt\<rparr>))"
proof -
  let ?mm = "memory_map s" and ?b = "stack_begin (memory_map s)"
  let ?st = "NonOwningStack_init ?b (get_num_allocatable_frames ?mm 0)"
  let ?s1 = "s\<lparr>free_stack := (free_stack s)\<lparr>buffer := ?st, is_present := True\<rparr>\<rparr>"
  let ?fs = "filter (\<lambda>f. \<not> reserved ?mm f) (usable_frames ?mm)"
  have ok': "\<And>e. e \<in> set ?mm \<Longrightarrow> is_allocatable e \<Longrightarrow> entry_ok e" using ok by blast
  note b = stack_frames_bound [OF ok' small]
  have "4096 dvd unat ?b"
    using reserve_aligned [of ?mm "stack_frames ?mm"] ok' by (simp add: stack_begin_def mod_eq_0_iff_dvd)
  then have "8 dvd unat ?b" by (rule dvd_trans [rotated]) simp
  then have inv: "frame_inv ?s1"
    using hhdm low b(1,3)
    by (simp add: frame_inv_def stack_inv_def NonOwningStack_init_def Optional_deref_def
        mod_eq_0_iff_dvd)
  have abs: "free_frames ?s1 = []" "frame_capacity ?s1 = length (usable_frames ?mm)"
    by (simp_all add: free_frames_def frame_capacity_def stack_contents_def NonOwningStack_init_def
        Optional_deref_def b(1))
  have init: "frame_allocator_init s = ret (fold free_stack_push ?fs ?s1)"
    using fits fill_free_stack_eq [of ?s1] ok'
    by (simp add: frame_allocator_init_def Let_def stack_begin_def [symmetric]
        stack_frames_def [symmetric] Optional_emplace_def Optional_reset_def split_beta
        in_exclude_range_def reserved_def)
  have le: "length ?fs \<le> length (usable_frames ?mm)" by simp
  have "m_stack (Optional_deref (free_stack (fold free_stack_push xs t)))
      = m_stack (Optional_deref (free_stack t))" for xs and t :: "'a frame_state_scheme"
    by (induction xs arbitrary: t)
      (simp_all add: free_stack_push_def stack_push_def Optional_deref_def split: prod.splits)
  moreover have "memory_map (fold free_stack_push xs t) = memory_map t \<and>
      hhdm_offset (fold free_stack_push xs t) = hhdm_offset t \<and>
      frame_state.more (fold free_stack_push xs t) = frame_state.more t" for xs and t :: "'a frame_state_scheme"
    by (induction xs arbitrary: t) simp_all
  ultimately show ?thesis
    using init fs.push_all [OF inv, of ?fs] abs le inv
    by (auto simp: Optional_deref_def NonOwningStack_init_def)
qed

text \<open>C1. Initialisation builds the free stack from exactly the usable frames: with page-aligned
  entries and a first fitting segment inside the identity-mapped 4 GiB, \<^verbatim>\<open>frame_allocator_init\<close>
  returns, the free frames are the frames of the usable segments in order (last on top) without the
  frames reserved for the stack itself, and none was dropped for lack of space.\<close>

theorem frame_allocator_init_fills:
  assumes ok: "\<forall>e \<in> set (memory_map s). is_allocatable e \<longrightarrow> entry_ok e"
    and small: "length (usable_frames (memory_map s)) < 2 ^ 52"
    and hhdm: "hhdm_ok (hhdm_offset s)"
    and fits: "stack_begin (memory_map s) \<noteq> 0"
    and low: "unat (stack_begin (memory_map s)) + 4096 * unat (stack_frames (memory_map s)) \<le> 2 ^ 32"
  shows "\<exists>s'. frame_allocator_init s = ret s' \<and> frame_inv s' \<and>
    free_frames s' = rev (filter (\<lambda>f. \<not> reserved (memory_map s) f) (usable_frames (memory_map s))) \<and>
    frame_capacity s' = length (usable_frames (memory_map s)) \<and>
    m_stack (Optional_deref (free_stack s')) = stack_begin (memory_map s)"
  using frame_allocator_init_frames [OF assms] by blast

section \<open>Clients of the allocator\<close>

text \<open>A client holds a set of frames. It may allocate, and may free a frame it holds (freeing
  another frame, or a frame twice, is documented as not checked).\<close>

inductive client_step ::
  "'z frame_state_scheme \<times> u64 set \<Rightarrow> 'z frame_state_scheme \<times> u64 set \<Rightarrow> bool" where
  client_alloc: "allocate_frame s = ret (f, s') \<Longrightarrow> client_step (s, H) (s', insert f H)"
| client_free: "f \<in> H \<Longrightarrow> client_step (s, H) (deallocate_frame f s, H - {f})"

inductive client_reach ::
  "'z frame_state_scheme \<Rightarrow> 'z frame_state_scheme \<times> u64 set \<Rightarrow> bool" for s0 where
  reach_start: "client_reach s0 (s0, {})"
| reach_step: "client_reach s0 c \<Longrightarrow> client_step c c' \<Longrightarrow> client_reach s0 c'"

inductive_cases client_stepE: "client_step (s, H) c"

definition client_inv :: "u64 set \<Rightarrow> 'z frame_state_scheme \<times> u64 set \<Rightarrow> bool" where
  "client_inv F = (\<lambda>(s, H). frame_inv s \<and> distinct (free_frames s) \<and>
     set (free_frames s) \<inter> H = {} \<and> set (free_frames s) \<union> H = F \<and> finite F \<and>
     card F \<le> frame_capacity s)"

lemma client_step_inv:
  assumes "client_step c c'" and "client_inv F c"
  shows "client_inv F c'"
  using assms
proof (induction rule: client_step.induct)
  case (client_alloc s f s' H)
  then have inv: "frame_inv s" by (simp add: client_inv_def)
  from client_alloc obtain g gs where fr: "free_frames s = g # gs"
    using allocate_frame_Nil [OF inv] by (cases "free_frames s") auto
  then show ?case
    using allocate_frame_Cons [OF inv fr] client_alloc
    by (auto simp: client_inv_def frame_capacity_def Optional_deref_def)
next
  case (client_free f H s)
  then have inv: "frame_inv s" and "f \<in> F" and f: "f \<notin> set (free_frames s)"
    by (auto simp: client_inv_def)
  have "finite F" using client_free.prems by (simp add: client_inv_def)
  moreover have "set (free_frames s) \<subset> F"
    using f \<open>f \<in> F\<close> client_free.prems by (auto simp: client_inv_def)
  ultimately have "length (free_frames s) < card F"
    using client_free.prems psubset_card_mono [of F "set (free_frames s)"]
    by (simp add: client_inv_def distinct_card)
  then show ?case
    using client_free f free_stack_push_props [OF inv, of f]
    by (auto simp: client_inv_def deallocate_frame_def)
qed

text \<open>C2. No frame is handed out twice: from a state whose free frames are distinct, along every
  interleaving of allocations and of frees of frames the client holds, the frames split without
  overlap into the free ones and the held ones, nothing is lost, and an allocation never returns a
  frame that is already held.\<close>

theorem allocator_never_shares_a_frame:
  assumes "frame_inv s0" and "distinct (free_frames s0)" and "client_reach s0 (s, H)"
  shows "set (free_frames s) \<inter> H = {} \<and> set (free_frames s) \<union> H = set (free_frames s0) \<and>
    length (free_frames s) + card H = length (free_frames s0) \<and>
    (\<forall>f s'. allocate_frame s = ret (f, s') \<longrightarrow> f \<notin> H)"
proof -
  let ?F = "set (free_frames s0)"
  have "client_inv ?F (s0, {})"
    using assms(1,2) fs.contents_bound [OF assms(1)] by (simp add: client_inv_def distinct_card)
  with assms(3) have inv: "client_inv ?F (s, H)"
    by (induction "(s, H)" arbitrary: s H rule: client_reach.induct) (auto intro: client_step_inv)
  then have fin: "frame_inv s" "finite H" "distinct (free_frames s)"
    "set (free_frames s) \<inter> H = {}" "set (free_frames s) \<union> H = ?F"
    by (auto simp: client_inv_def intro: finite_subset)
  then have "card (set (free_frames s)) + card H = card ?F"
    by (metis List.finite_set card_Un_disjoint)
  then have "length (free_frames s) + card H = length (free_frames s0)"
    using fin(3) assms(2) by (simp add: distinct_card)
  moreover have "f \<notin> H" if "allocate_frame s = ret (f, s')" for f s'
    using that fin allocate_frame_Nil [of s] allocate_frame_Cons [of s]
    by (cases "free_frames s") auto
  ultimately show ?thesis using fin by blast
qed

section \<open>Reclaiming the bootloader's memory\<close>

definition reclaimable_frames :: "limine_memmap_entry list \<Rightarrow> u64 list" where
  "reclaimable_frames mm =
     concat (map frames_of (filter (\<lambda>e. entry_type e = LIMINE_MEMMAP_BOOTLOADER_RECLAIMABLE) mm))"

lemma free_limine_eq:
  assumes "\<And>e. e \<in> set (memory_map s) \<Longrightarrow>
      entry_type e = LIMINE_MEMMAP_BOOTLOADER_RECLAIMABLE \<Longrightarrow> entry_ok e"
  shows "free_limine_bootloader_memory s =
    ret (of_nat (length (reclaimable_frames (memory_map s))),
         fold free_stack_push (reclaimable_frames (memory_map s)) s)"
proof -
  let ?step = "\<lambda>entry (n, s).
     if entry_type entry \<noteq> LIMINE_MEMMAP_BOOTLOADER_RECLAIMABLE then ret (n, s)
     else let end_of_entry = entry_base entry + entry_length entry in
       for_up frameSize (\<lambda>frame (n, s). ret (n + 1, deallocate_frame frame s))
         (entry_base entry) end_of_entry (n, s)"
  have body: "(\<lambda>frame (n, s). ret (n + 1, deallocate_frame frame s))
      = (\<lambda>frame t. ret (fst t + 1, free_stack_push frame (snd t)))"
    by (auto simp: fun_eq_iff deallocate_frame_def)
  have count: "fold (\<lambda>f t. (fst t + 1, free_stack_push f (snd t))) fs (n, s)
      = (n + of_nat (length fs), fold free_stack_push fs s)"
    for fs and n :: u64 and s :: "'a frame_state_scheme"
    by (induction fs arbitrary: n s) (simp_all add: algebra_simps)
  have "res_fold ?step mm (n, t) = ret (n + of_nat (length (reclaimable_frames mm)),
      fold free_stack_push (reclaimable_frames mm) t)"
    if "\<And>e. e \<in> set mm \<Longrightarrow>
      entry_type e = LIMINE_MEMMAP_BOOTLOADER_RECLAIMABLE \<Longrightarrow> entry_ok e"
    for mm and n :: u64 and t :: "'a frame_state_scheme"
    using that
  proof (induction mm arbitrary: n t)
    case (Cons e mm)
    then show ?case
      by (simp add: reclaimable_frames_def body for_frames_of res_fold_ret count Let_def add.assoc)
  qed (simp add: reclaimable_frames_def)
  from this [of "memory_map s" 0 s] show ?thesis
    using assms by (simp add: free_limine_bootloader_memory_def)
qed

text \<open>Reclaiming loses frames: \<^verbatim>\<open>free_limine_bootloader_memory\<close> counts every reclaimable
  frame, but only as many of them enter the free stack as its capacity leaves room for, and that
  capacity was sized for the usable frames alone. The others are dropped by
  \<^verbatim>\<open>NonOwningStack::push\<close> without a report.\<close>

lemma reclaim_drops_excess:
  assumes inv: "frame_inv s"
    and ok: "\<forall>e \<in> set (memory_map s).
      entry_type e = LIMINE_MEMMAP_BOOTLOADER_RECLAIMABLE \<longrightarrow> entry_ok e"
  shows "\<exists>s'. free_limine_bootloader_memory s =
      ret (of_nat (length (reclaimable_frames (memory_map s))), s') \<and>
    free_frames s' =
      rev (take (frame_capacity s - length (free_frames s)) (reclaimable_frames (memory_map s)))
        @ free_frames s"
  using free_limine_eq [of s] ok fs.push_all [OF inv] by blast

section \<open>A small machine\<close>

text \<open>A boot state with three usable frames and two bootloader-reclaimable ones, on which the
  hypotheses of the properties above are checked.\<close>

definition example_boot :: frame_state where
  "example_boot = \<lparr>mem = (\<lambda>_. 0), hhdm_offset = 0xffff800000000000,
     memory_map = [\<lparr>entry_base = 0x1000, entry_length = 0x3000, entry_type = 0\<rparr>,
                   \<lparr>entry_base = 0x8000, entry_length = 0x2000, entry_type = 5\<rparr>],
     free_stack = Optional_init (NonOwningStack_init 0 0)\<rparr>"

text \<open>The same machine with a free stack of one slot at \<open>0x1000\<close> that holds \<open>n\<close> frames.\<close>

definition example_stack :: "u64 \<Rightarrow> frame_state" where
  "example_stack n = example_boot\<lparr>mem := write_u64 0x1000 0x5000 (\<lambda>_. 0),
     free_stack := \<lparr>buffer = \<lparr>m_stack = 0x1000, m_maxSize = 1, m_size = n\<rparr>, is_present = True\<rparr>\<rparr>"

lemma hhdm_ok_example [simp]: "hhdm_ok 0xffff800000000000"
  by (simp add: hhdm_ok_def)

lemma example_boot_simps:
  "memory_map example_boot = [\<lparr>entry_base = 0x1000, entry_length = 0x3000, entry_type = 0\<rparr>,
     \<lparr>entry_base = 0x8000, entry_length = 0x2000, entry_type = 5\<rparr>]"
  "hhdm_offset example_boot = 0xffff800000000000"
  by (simp_all add: example_boot_def)

lemma example_usable_frames: "usable_frames (memory_map example_boot) = [0x1000, 0x2000, 0x3000]"
  by (simp add: example_boot_simps usable_frames_def is_allocatable_def LIMINE_MEMMAP_USABLE_def
      frames_of_def count_up_def frameSize_def upt_rec)

lemma example_reclaimable: "reclaimable_frames (memory_map example_boot) = [0x8000, 0x9000]"
  by (simp add: example_boot_simps reclaimable_frames_def LIMINE_MEMMAP_BOOTLOADER_RECLAIMABLE_def
      frames_of_def count_up_def frameSize_def upt_rec)

lemma example_reserved:
  "stack_frames (memory_map example_boot) = 1" "stack_begin (memory_map example_boot) = 0x1000"
  by (simp_all add: stack_begin_def stack_frames_def example_boot_simps is_allocatable_def
      LIMINE_MEMMAP_USABLE_def ceil_div_def frameSize_def)

lemma example_entry_ok: "\<forall>e \<in> set (memory_map example_boot). entry_ok e"
  by (simp add: example_boot_simps entry_ok_def)

lemma example_stack_inv: "n \<le> 1 \<Longrightarrow> frame_inv (example_stack n)"
  by (simp add: frame_inv_def example_stack_def stack_inv_def Optional_deref_def example_boot_simps)

lemma example_stack_frames:
  "free_frames (example_stack 0) = []" "free_frames (example_stack 1) = [0x5000]"
  by (simp_all add: free_frames_def example_stack_def Optional_deref_def stack_contents_def slot_def
      load64_def example_boot_simps)


theorem frame_allocator_init_fills_witness:
  "\<exists>s'. frame_allocator_init example_boot = ret s' \<and> free_frames s' = [0x3000, 0x2000]"
proof -
  have h: "\<forall>e \<in> set (memory_map example_boot). is_allocatable e \<longrightarrow> entry_ok e"
    "length (usable_frames (memory_map example_boot)) < 2 ^ 52"
    "hhdm_ok (hhdm_offset example_boot)" "stack_begin (memory_map example_boot) \<noteq> 0"
    "unat (stack_begin (memory_map example_boot))
      + 4096 * unat (stack_frames (memory_map example_boot)) \<le> 2 ^ 32"
    using example_entry_ok
    by (simp_all add: example_usable_frames example_reserved example_boot_simps(2))
  have "rev (filter (\<lambda>f. \<not> reserved (memory_map example_boot) f)
      (usable_frames (memory_map example_boot))) = [0x3000, 0x2000]"
    unfolding example_usable_frames reserved_def example_reserved
    by (simp add: frameSize_def)
  then show ?thesis using frame_allocator_init_fills [OF h] by metis
qed

theorem allocator_never_shares_a_frame_witness:
  "\<exists>s. client_reach (example_stack 1) (s, {0x5000}) \<and> set (free_frames s) \<inter> {0x5000} = {}"
proof -
  have inv: "frame_inv (example_stack 1)" by (rule example_stack_inv) simp
  obtain s where "allocate_frame (example_stack 1) = ret (0x5000, s)"
    using allocate_frame_Cons [OF inv example_stack_frames(2)] by blast
  then have "client_step (example_stack 1, {}) (s, {0x5000})" by (rule client_alloc)
  with client_reach.reach_start have reach: "client_reach (example_stack 1) (s, {0x5000})"
    by (rule client_reach.reach_step)
  have "distinct (free_frames (example_stack 1))" by (simp add: example_stack_frames)
  then show ?thesis using allocator_never_shares_a_frame [OF inv _ reach] reach by blast
qed

lemma reclaim_drops_excess_example:
  "\<exists>s'. free_limine_bootloader_memory (example_stack 0) = ret (2, s') \<and> free_frames s' = [0x8000]"
proof -
  have mm: "memory_map (example_stack 0) = memory_map example_boot"
    by (simp add: example_stack_def)
  have cap: "frame_capacity (example_stack 0) = 1"
    by (simp add: frame_capacity_def example_stack_def Optional_deref_def)
  show ?thesis
    using reclaim_drops_excess [OF example_stack_inv [of 0]] example_entry_ok
    by (simp add: mm cap example_reclaimable example_stack_frames)
qed

end
