(* ===== verification/Page_Tree.thy ===== *)
theory Page_Tree
  imports Frame_Allocator
begin

text \<open>
  The four-level page tables: \<^verbatim>\<open>PageTreeNode\<close> (the 512 entries of one table, in memory) and
  \<^verbatim>\<open>PageTree\<close> (walking and extending the tree). A node is reached through the higher-half
  direct map, by the pointer \<^verbatim>\<open>kernel_physical_to_virtual(frame)\<close>; the new nodes come from the
  frame allocator.
\<close>

section \<open>Flags and nodes\<close>

type_synonym PageFlags = u64

definition PageFlags_None :: PageFlags where "PageFlags_None = 0"
definition PageFlags_Present :: PageFlags where "PageFlags_Present = 1"
definition PageFlags_Write :: PageFlags where "PageFlags_Write = push_bit 1 1"
definition PageFlags_User :: PageFlags where "PageFlags_User = push_bit 2 1"
definition PageFlags_WriteThrough :: PageFlags where "PageFlags_WriteThrough = push_bit 3 1"
definition PageFlags_CacheDisable :: PageFlags where "PageFlags_CacheDisable = push_bit 4 1"
definition PageFlags_ExecuteDisable :: PageFlags where "PageFlags_ExecuteDisable = push_bit 63 1"

definition PageFlags_or :: "PageFlags \<Rightarrow> PageFlags \<Rightarrow> PageFlags" where
  "PageFlags_or a b = a OR b"

record PageTranslation =
  physical_address :: u64
  translation_flags :: PageFlags

text \<open>The address of \<^verbatim>\<open>entries_[index]\<close> in the node at \<open>this\<close>.\<close>

definition entry_ptr :: "u64 \<Rightarrow> u16 \<Rightarrow> u64" where
  "entry_ptr this index = this + 8 * ucast index"

text \<open>\<^verbatim>\<open>new(virtual_address) PageTreeNode\<close>: 512 zeroed entries.\<close>

definition PageTreeNode_init :: "u64 \<Rightarrow> 'z machine_scheme \<Rightarrow> 'z machine_scheme" where
  "PageTreeNode_init virtual_address s = zero_object virtual_address 4096 s"

text \<open>The literal \<^verbatim>\<open>0xffffffff\<close> is an \<^verbatim>\<open>unsigned int\<close>, so both shifts below happen in 32
  bits before the value is widened.\<close>

definition get_child_address :: "'z machine_scheme \<Rightarrow> u64 \<Rightarrow> u16 \<Rightarrow> u64" where
  "get_child_address s this index =
     (let entry = load64 s (entry_ptr this index)
      in entry AND ucast (push_bit 12 (0xffffffff :: u32)))"

definition set_child_address ::
  "u64 \<Rightarrow> u16 \<Rightarrow> u64 \<Rightarrow> 'z machine_scheme \<Rightarrow> 'z machine_scheme" where
  "set_child_address this index address s =
     (let entry = load64 s (entry_ptr this index);
          entry = entry AND ucast (push_bit 12 (NOT (0xffffffff :: u32)));
          entry = entry OR address
      in store64 (entry_ptr this index) entry s)"

definition add_child_flags ::
  "u64 \<Rightarrow> u16 \<Rightarrow> PageFlags \<Rightarrow> 'z machine_scheme \<Rightarrow> 'z machine_scheme" where
  "add_child_flags this index flags s =
     (let entry = load64 s (entry_ptr this index)
      in store64 (entry_ptr this index) (entry OR PageFlags_or flags PageFlags_Present) s)"

text \<open>\<^verbatim>\<open>~(0xff)\<close> is a negative \<^verbatim>\<open>int\<close>, sign-extended to 64 bits.\<close>

definition set_child_flags ::
  "u64 \<Rightarrow> u16 \<Rightarrow> PageFlags \<Rightarrow> 'z machine_scheme \<Rightarrow> 'z machine_scheme" where
  "set_child_flags this index flags s =
     (let entry = load64 s (entry_ptr this index);
          entry = entry AND scast (NOT (0xff :: u32))
      in add_child_flags this index flags (store64 (entry_ptr this index) entry s))"

definition get_child_flags :: "'z machine_scheme \<Rightarrow> u64 \<Rightarrow> u16 \<Rightarrow> PageFlags" where
  "get_child_flags s this index = load64 s (entry_ptr this index) AND 0xff"

section \<open>The tree\<close>

record PageTree =
  root_node :: u64

definition PageTree_init ::
  "u64 \<Rightarrow> 'z machine_scheme \<Rightarrow> PageTree \<times> 'z machine_scheme" where
  "PageTree_init virtual_address s =
     (\<lparr>root_node = virtual_address\<rparr>, PageTreeNode_init virtual_address s)"

definition get_table_index :: "u64 \<Rightarrow> u8 \<Rightarrow> u16 res" where
  "get_table_index virtual_address depth =
     res_bind (if depth = 0 then ret 39
               else if depth = 1 then ret 30
               else if depth = 2 then ret 21
               else if depth = 3 then ret 12
               else kernel_panic ''unrecognized page tree depth\<newline>'')
       (\<lambda>index_start. ret (ucast (drop_bit index_start virtual_address AND 0x1ff)))"

text \<open>One iteration of the loop of \<^verbatim>\<open>map_page_to_frame\<close>: \<open>node\<close> (\<^verbatim>\<open>curr\<close>) is the node at this depth, the
  result the node at the next.\<close>

definition map_step ::
  "u64 \<Rightarrow> PageFlags \<Rightarrow> u8 \<Rightarrow> u64 \<times> 'z frame_state_scheme \<Rightarrow> (u64 \<times> 'z frame_state_scheme) res" where
  "map_step page flags depth = (\<lambda>(node, s).
     res_bind (get_table_index page depth) (\<lambda>child_index.
     let child_address = get_child_address s node child_index;
         next = kernel_physical_to_virtual s child_address
     in res_bind
          (if child_address = 0
           then res_bind (allocate_frame s) (\<lambda>(new_node_frame, s).
             let new_node_frame_virtual = kernel_physical_to_virtual s new_node_frame;
                 s = PageTreeNode_init new_node_frame_virtual s;
                 s = set_child_address node child_index new_node_frame s;
                 s = set_child_flags node child_index flags s
             in ret (new_node_frame_virtual, s))
           else ret (next, s))
          (\<lambda>(next, s). ret (next, set_child_flags node child_index flags s))))"

definition map_page_to_frame ::
  "PageTree \<Rightarrow> u64 \<Rightarrow> u64 \<Rightarrow> PageFlags \<Rightarrow> 'z frame_state_scheme \<Rightarrow> 'z frame_state_scheme res" where
  "map_page_to_frame tree page frame flags s =
     res_bind (res_fold (map_step page flags) [0, 1, 2] (root_node tree, s)) (\<lambda>(node, s).
     res_bind (get_table_index page 3) (\<lambda>child_index.
     let s = set_child_address node child_index frame s;
         s = set_child_flags node child_index flags s
     in ret s))"

fun translate_from ::
  "'z machine_scheme \<Rightarrow> u64 \<Rightarrow> u8 list \<Rightarrow> u64 \<Rightarrow> PageTranslation res" where
  "translate_from s virtual_address [] node =
     res_bind (get_table_index virtual_address 3) (\<lambda>child_index.
       let frame_address = get_child_address s node child_index;
           flags = get_child_flags s node child_index
       in ret \<lparr>physical_address = frame_address, translation_flags = flags\<rparr>)"
| "translate_from s virtual_address (depth # depths) node =
     res_bind (get_table_index virtual_address depth) (\<lambda>child_index.
       let child_address = get_child_address s node child_index;
           next = kernel_physical_to_virtual s child_address
       in if child_address = 0
          then ret \<lparr>physical_address = 0, translation_flags = PageFlags_None\<rparr>
          else translate_from s virtual_address depths next)"

definition get_translation :: "'z machine_scheme \<Rightarrow> PageTree \<Rightarrow> u64 \<Rightarrow> PageTranslation res" where
  "get_translation s tree virtual_address =
     translate_from s virtual_address [0, 1, 2] (root_node tree)"

section \<open>Entries of a node\<close>

definition child_mask :: u64 where
  "child_mask = 0xfffff000"

text \<open>A frame that can hold a node: page-aligned, not null, below 4 GiB.\<close>

definition node_frame :: "u64 \<Rightarrow> bool" where
  "node_frame n \<longleftrightarrow> unat n mod 4096 = 0 \<and> unat n < 2 ^ 32 \<and> n \<noteq> 0"

definition entry_at :: "'z machine_scheme \<Rightarrow> u64 \<Rightarrow> u16 \<Rightarrow> u64" where
  "entry_at s n i = read_u64 (mem s) (n + 8 * ucast i)"

abbreviation node_ptr :: "'z machine_scheme \<Rightarrow> u64 \<Rightarrow> u64" where
  "node_ptr s n \<equiv> n + hhdm_offset s"

lemma unat_ucast_u16: "unat (ucast (i :: u16) :: u64) = unat i"
  using unsigned_less [of i, where ?'a = nat]
  by (simp add: unsigned_ucast_eq take_bit_nat_eq_self)

lemma node_frame_multiple:
  assumes "node_frame n" obtains q where "unat n = 4096 * q" "q < 2 ^ 20"
proof
  show n: "unat n = 4096 * (unat n div 4096)"
    using assms div_mult_mod_eq [of "unat n" 4096] by (simp add: node_frame_def)
  have "unat n < 4096 * 2 ^ 20" using assms by (simp add: node_frame_def)
  then show "unat n div 4096 < 2 ^ 20" by (subst (asm) n) simp
qed

lemma unat_entry:
  assumes "node_frame n" and "i < (512 :: u16)"
  shows "unat (n + 8 * ucast i) = unat n + 8 * unat i" "8 * unat i < 4096"
proof -
  have i: "unat i < 512" using assms(2) by (simp add: word_less_nat_alt)
  then show "8 * unat i < 4096" by simp
  have "unat (8 * ucast i :: u64) = 8 * unat i"
    using i by (simp add: unat_word_ariths unat_ucast_u16)
  then show "unat (n + 8 * ucast i) = unat n + 8 * unat i"
    using assms(1) i unat_add_no_wrap [of n "8 * ucast i"] by (simp add: node_frame_def)
qed

lemma entry_in_frame:
  assumes "node_frame n" and "i < (512 :: u16)"
  shows "unat (n + 8 * ucast i) < 2 ^ 32" "unat (n + 8 * ucast i) mod 8 = 0"
    "unat n \<le> unat (n + 8 * ucast i)" "unat (n + 8 * ucast i) + 8 \<le> unat n + 4096"
proof -
  have i: "unat i < 512" using assms(2) by (simp add: word_less_nat_alt)
  obtain q where q: "unat n = 4096 * q" "q < 2 ^ 20" using node_frame_multiple [OF assms(1)] .
  then show "unat (n + 8 * ucast i) < 2 ^ 32" using unat_entry [OF assms] i by simp
  have "unat (n + 8 * ucast i) = 8 * (512 * q + unat i)" using unat_entry [OF assms] q by simp
  then show "unat (n + 8 * ucast i) mod 8 = 0" by simp
  show "unat n \<le> unat (n + 8 * ucast i)" "unat (n + 8 * ucast i) + 8 \<le> unat n + 4096"
    using unat_entry [OF assms] i by simp_all
qed

lemma entry_inj:
  assumes "node_frame n" "node_frame n'" "i < (512 :: u16)" "j < 512"
    and "n + 8 * ucast i = n' + 8 * ucast j"
  shows "n = n' \<and> i = j"
proof -
  obtain q q' where q: "unat n = 4096 * q" "unat n' = 4096 * q'"
    using node_frame_multiple [OF assms(1)] node_frame_multiple [OF assms(2)] by metis
  have "4096 * q + 8 * unat i = 4096 * q' + 8 * unat j"
    using assms(5) unat_entry(1) [OF assms(1,3)] unat_entry(1) [OF assms(2,4)] q by simp
  then have e: "512 * q + unat i = 512 * q' + unat j" by simp
  have ij: "unat i < 512" "unat j < 512" using assms(3,4) by (simp_all add: word_less_nat_alt)
  have "q = (512 * q + unat i) div 512" using ij by simp
  also have "\<dots> = q'" using ij by (simp add: e)
  finally have "q = q'" .
  then show ?thesis using e q by (simp add: word_unat_eq_iff)
qed

text \<open>The two memory updates of the tree, on the frame that holds the node.\<close>

definition set_entry :: "u64 \<Rightarrow> u16 \<Rightarrow> u64 \<Rightarrow> 'z machine_scheme \<Rightarrow> 'z machine_scheme" where
  "set_entry n i v s = s\<lparr>mem := write_u64 (n + 8 * ucast i) v (mem s)\<rparr>"

definition clear_node :: "u64 \<Rightarrow> 'z machine_scheme \<Rightarrow> 'z machine_scheme" where
  "clear_node n s = s\<lparr>mem := zero_fill n 4096 (mem s)\<rparr>"

lemma node_update_frame [simp]:
  "hhdm_offset (set_entry n i v s) = hhdm_offset s" "hhdm_offset (clear_node n s) = hhdm_offset s"
  "free_stack (set_entry n i v t) = free_stack t" "free_stack (clear_node n t) = free_stack t"
  by (simp_all add: set_entry_def clear_node_def)

lemma cell_of_entry:
  assumes "node_frame n" "i < (512 :: u16)"
  shows "cell_of off (entry_ptr (n + off) i) = n + 8 * ucast i"
  using cell_of_direct [OF entry_in_frame(1) [OF assms], of off]
  by (simp add: entry_ptr_def algebra_simps)

lemma load64_entry:
  "node_frame n \<Longrightarrow> i < (512 :: u16) \<Longrightarrow> load64 s (entry_ptr (node_ptr s n) i) = entry_at s n i"
  by (simp add: load64_def cell_of_entry entry_at_def)

lemma store64_entry:
  "node_frame n \<Longrightarrow> i < (512 :: u16) \<Longrightarrow>
     store64 (entry_ptr (node_ptr s n) i) v s = set_entry n i v s"
  by (simp add: store64_def cell_of_entry set_entry_def)

lemma PageTreeNode_init_frame:
  assumes "node_frame n" shows "PageTreeNode_init (node_ptr s n) s = clear_node n s"
  using assms cell_of_direct [of n "hhdm_offset s"]
  by (simp add: PageTreeNode_init_def zero_object_def clear_node_def node_frame_def add.commute)

lemma set_entry_twice [simp]: "set_entry n i v (set_entry n i w s) = set_entry n i v s"
  by (simp add: set_entry_def write_u64_def fun_eq_iff put_le_apply)

lemma entry_at_set_entry:
  assumes "node_frame n" "node_frame n'" "i < 512" "j < 512"
  shows "entry_at (set_entry n i v s) n' j = (if n' = n \<and> j = i then v else entry_at s n' j)"
proof (cases "n' = n \<and> j = i")
  case False
  then have "n' + 8 * ucast j \<noteq> n + 8 * ucast i" using entry_inj [OF assms(2,1,4,3)] by auto
  then have "sep8 (n' + 8 * ucast j) (n + 8 * ucast i)"
    using entry_in_frame(2) [OF assms(1,3)] entry_in_frame(2) [OF assms(2,4)]
    by (intro sep8_aligned)
  then have "entry_at (set_entry n i v s) n' j = entry_at s n' j"
    by (simp add: entry_at_def set_entry_def)
  then show ?thesis using False by auto
qed (auto simp: entry_at_def set_entry_def)

lemma outsideI:
  assumes "unat b + 8 \<le> unat a \<or> unat a + n \<le> unat b"
    and "unat b + 8 \<le> 2 ^ 64" and "unat a + n \<le> 2 ^ 64"
  shows "outside a n b"
  using assms unat_less_2p [of a] by (auto simp: outside_def unat_sub_if')

lemma node_frames_apart:
  assumes "node_frame n" "node_frame n'" "n \<noteq> n'"
  shows "unat n + 4096 \<le> unat n' \<or> unat n' + 4096 \<le> unat n"
proof -
  obtain q q' where q: "unat n = 4096 * q" "unat n' = 4096 * q'"
    using node_frame_multiple [OF assms(1)] node_frame_multiple [OF assms(2)] by metis
  have "unat n \<noteq> unat n'" using assms(3) by (simp only: word_unat_eq_iff not_False_eq_True)
  then have "q < q' \<or> q' < q" using q by auto
  then show ?thesis using q by auto
qed

lemma entry_at_clear_node:
  assumes "node_frame n" "node_frame n'" "j < 512"
  shows "entry_at (clear_node n s) n' j = (if n' = n then 0 else entry_at s n' j)"
proof (cases "n' = n")
  case True
  have "unat (8 * ucast j :: u64) = 8 * unat j" "8 * unat j + 8 \<le> 4096"
    using assms(3) by (simp_all add: unat_word_ariths unat_ucast_u16 word_less_nat_alt)
  then have "unat (n + 8 * ucast j - n) + 8 \<le> 4096" by simp
  then show ?thesis using True by (simp add: entry_at_def clear_node_def)
next
  case False
  have "outside n 4096 (n' + 8 * ucast j)"
    using node_frames_apart [OF assms(1,2)] False entry_in_frame [OF assms(2,3)] assms(1)
    by (intro outsideI) (auto simp: node_frame_def)
  then show ?thesis using False by (simp add: entry_at_def clear_node_def)
qed

text \<open>The bytes of a frame, and that the updates stay in it.\<close>

definition in_frame :: "u64 \<Rightarrow> u64 \<Rightarrow> bool" where
  "in_frame n a \<longleftrightarrow> unat n \<le> unat a \<and> unat a < unat n + 4096"

lemma write_u64_in_frame:
  assumes "node_frame n" "unat n \<le> unat b" "unat b + 8 \<le> unat n + 4096" "\<not> in_frame n a"
  shows "write_u64 b v m a = m a"
proof -
  have "\<not> unat (a - b) < 8"
    using assms unat_less_2p [of a] by (auto simp: unat_sub_if' node_frame_def in_frame_def)
  then show ?thesis by (simp add: write_u64_def put_le_apply)
qed

lemma node_updates_in_frame:
  assumes "node_frame n" "\<not> in_frame n a"
  shows "i < 512 \<Longrightarrow> mem (set_entry n i v s) a = mem s a" "mem (clear_node n s) a = mem s a"
proof -
  show "mem (set_entry n i v s) a = mem s a" if "i < 512"
    using entry_in_frame [OF assms(1) that] write_u64_in_frame [OF assms(1) _ _ assms(2)] by (simp add: set_entry_def)
  have "\<not> unat (a - n) < 4096"
    using assms unat_less_2p [of a] by (auto simp: unat_sub_if' node_frame_def in_frame_def)
  then show "mem (clear_node n s) a = mem s a" by (simp add: clear_node_def zero_fill_def)
qed

section \<open>The tree the entries describe\<close>

lemma child_mask_eq:
  "ucast (push_bit 12 (0xffffffff :: u32)) = child_mask"
  "ucast (push_bit 12 (NOT (0xffffffff :: u32))) = (0 :: u64)"
  "scast (NOT (0xff :: u32)) = (NOT 0xff :: u64)"
  by (simp_all add: child_mask_def)

lemma child_mask_bits: "child_mask = push_bit 12 (mask 20)"
  by (simp add: child_mask_def mask_eq_exp_minus_1)

lemma masked_eq: "e AND child_mask = push_bit 12 (take_bit 20 (drop_bit 12 e))"
  by (rule bit_eqI) (auto simp: child_mask_bits bit_simps)

lemma masked_node_frame:
  assumes "e AND child_mask \<noteq> 0" shows "node_frame (e AND child_mask)"
proof -
  let ?x = "take_bit 20 (drop_bit 12 e)"
  have x: "unat ?x < 2 ^ 20"
    using take_bit_nat_less_exp [of 20 "unat (drop_bit 12 e)"] by (simp add: unsigned_take_bit_eq)
  have "unat (push_bit 12 ?x) = 4096 * unat ?x"
    using x by (simp add: push_bit_eq_mult unat_word_ariths)
  then show ?thesis using assms x by (simp add: node_frame_def masked_eq)
qed

lemma node_frame_masked:
  assumes "node_frame n" shows "n AND child_mask = n"
proof (rule bit_eqI)
  fix k
  obtain q where q: "unat n = 4096 * q" "q < 2 ^ 20" using node_frame_multiple [OF assms] .
  have "take_bit 20 q = q" using q(2) by (rule take_bit_nat_eq_self)
  then have "unat n = push_bit 12 (take_bit 20 q)" using q(1) by (simp add: push_bit_eq_mult)
  then have "bit (unat n) k \<longrightarrow> 12 \<le> k \<and> k < 32" by (auto simp: bit_simps)
  then show "bit (n AND child_mask) k = bit n k"
    by (auto simp: child_mask_bits bit_simps bit_unsigned_iff dest: bit_imp_le_length)
qed

definition entry_node :: "u64 \<Rightarrow> u64 option" where
  "entry_node e = (if e AND child_mask = 0 then None else Some (e AND child_mask))"

text \<open>The node reached from \<open>n\<close> by a path of indices.\<close>

fun node_at :: "'z machine_scheme \<Rightarrow> u64 \<Rightarrow> u16 list \<Rightarrow> u64 option" where
  "node_at s n [] = Some n"
| "node_at s n (i # is) = Option.bind (entry_node (entry_at s n i)) (\<lambda>c. node_at s c is)"

definition tree_entry :: "'z machine_scheme \<Rightarrow> u64 \<Rightarrow> u16 list \<Rightarrow> u16 \<Rightarrow> u64" where
  "tree_entry s r p i = (case node_at s r p of None \<Rightarrow> 0 | Some n \<Rightarrow> entry_at s n i)"

lemma node_at_append:
  "node_at s n (p @ q) = Option.bind (node_at s n p) (\<lambda>m. node_at s m q)"
  by (induction p arbitrary: n) (simp_all split: bind_split)

lemma node_at_snoc: "node_at s r (p @ [i]) = entry_node (tree_entry s r p i)"
  by (auto simp: node_at_append tree_entry_def entry_node_def split: bind_splits option.splits)

lemma node_at_frame: "node_frame r \<Longrightarrow> node_at s r p = Some n \<Longrightarrow> node_frame n"
proof (induction p arbitrary: n rule: rev_induct)
  case (snoc i p)
  then show ?case
    using masked_node_frame by (auto simp: node_at_snoc entry_node_def split: if_splits)
qed simp


text \<open>A frame apart from the array of the free stack.\<close>

definition off_stack :: "'z frame_state_scheme \<Rightarrow> u64 \<Rightarrow> bool" where
  "off_stack s n \<longleftrightarrow> unat n + 4096 \<le> unat (m_stack (buffer (free_stack s))) \<or>
     unat (m_stack (buffer (free_stack s))) + 8 * unat (m_maxSize (buffer (free_stack s))) \<le> unat n"

abbreviation indices :: "u16 list \<Rightarrow> bool" where
  "indices p \<equiv> length p \<le> 3 \<and> (\<forall>i \<in> set p. i < 512)"

text \<open>The invariant of the tree rooted at the frame \<open>r\<close>: no node has two parents, and the nodes,
  the free frames and the free stack's own array lie apart, so that no write to one can change
  another.\<close>

definition tree_inv :: "'z frame_state_scheme \<Rightarrow> u64 \<Rightarrow> bool" where
  "tree_inv s r \<longleftrightarrow> frame_inv s \<and> node_frame r \<and>
     distinct (free_frames s) \<and> (\<forall>f \<in> set (free_frames s). node_frame f \<and> off_stack s f) \<and>
     (\<forall>p n. indices p \<longrightarrow> node_at s r p = Some n \<longrightarrow> n \<notin> set (free_frames s) \<and> off_stack s n) \<and>
     (\<forall>p q n. indices p \<longrightarrow> indices q \<longrightarrow> node_at s r p = Some n \<longrightarrow> node_at s r q = Some n \<longrightarrow> p = q)"

lemma tree_invD:
  assumes "tree_inv s r"
  shows "frame_inv s" "node_frame r" "distinct (free_frames s)"
    "\<And>f. f \<in> set (free_frames s) \<Longrightarrow> node_frame f \<and> off_stack s f"
    "\<And>p n. indices p \<Longrightarrow> node_at s r p = Some n \<Longrightarrow> n \<notin> set (free_frames s)"
    "\<And>p n. indices p \<Longrightarrow> node_at s r p = Some n \<Longrightarrow> off_stack s n"
    "\<And>p q n. indices p \<Longrightarrow> indices q \<Longrightarrow> node_at s r p = Some n \<Longrightarrow> node_at s r q = Some n \<Longrightarrow> p = q"
  using assms unfolding tree_inv_def by blast+

text \<open>Memory updates that stay off the stack's array keep the free frames.\<close>

lemma free_frames_mem_update:
  assumes "frame_inv s"
    and "\<And>a. unat a mod 8 = 0 \<Longrightarrow> unat (m_stack (buffer (free_stack s))) \<le> unat a \<Longrightarrow>
      unat a + 8 \<le> unat (m_stack (buffer (free_stack s))) + 8 * unat (m_maxSize (buffer (free_stack s))) \<Longrightarrow>
      read_u64 m a = read_u64 (mem s) a"
  shows "free_frames (s\<lparr>mem := m\<rparr>) = free_frames s" "frame_inv (s\<lparr>mem := m\<rparr>)"
proof -
  let ?st = "buffer (free_stack s)"
  have inv: "stack_inv (?st, s)" using assms(1) by (simp add: frame_inv_def Optional_deref_def)
  show "frame_inv (s\<lparr>mem := m\<rparr>)"
    using assms(1) by (simp add: frame_inv_def stack_inv_def Optional_deref_def)
  have "load64 (s\<lparr>mem := m\<rparr>) (slot ?st (of_nat i)) = load64 s (slot ?st (of_nat i))"
    if "i < unat (m_size ?st)" for i
  proof -
    have i: "i < unat (m_maxSize ?st)"
      using that inv by (simp add: stack_inv_def word_le_nat_alt)
    have u: "unat (slot ?st (of_nat i)) = unat (m_stack ?st) + 8 * i"
      using unat_slot [OF inv, of i] i by simp
    have "unat (slot ?st (of_nat i)) mod 8 = 0"
      using u inv by (simp add: stack_inv_def mod_eq_0_iff_dvd)
    then have "read_u64 m (slot ?st (of_nat i)) = read_u64 (mem s) (slot ?st (of_nat i))"
      using assms(2) [of "slot ?st (of_nat i)"] u i by simp
    then show ?thesis using slot_cell [OF inv, of i] i by (simp add: load64_def)
  qed
  then show "free_frames (s\<lparr>mem := m\<rparr>) = free_frames s"
    by (simp add: free_frames_def Optional_deref_def stack_contents_def)
qed

lemma free_frames_node_update:
  assumes inv: "frame_inv s" and n: "node_frame n" "off_stack s n"
  shows "free_frames (clear_node n s) = free_frames s" "frame_inv (clear_node n s)"
    and "i < 512 \<Longrightarrow> free_frames (set_entry n i v s) = free_frames s"
    and "i < 512 \<Longrightarrow> frame_inv (set_entry n i v s)"
proof -
  let ?st = "buffer (free_stack s)"
  have lim: "unat (m_stack ?st) + 8 * unat (m_maxSize ?st) \<le> 2 ^ 32"
    using inv by (simp add: frame_inv_def stack_inv_def Optional_deref_def)
  have "outside n 4096 a" if "unat (m_stack ?st) \<le> unat a"
    "unat a + 8 \<le> unat (m_stack ?st) + 8 * unat (m_maxSize ?st)" for a
    using that n lim by (intro outsideI) (auto simp: off_stack_def node_frame_def)
  then show "free_frames (clear_node n s) = free_frames s" "frame_inv (clear_node n s)"
    unfolding clear_node_def by (auto intro!: free_frames_mem_update [OF inv])
  assume i: "i < 512"
  have "sep8 a (n + 8 * ucast i)" if "unat a mod 8 = 0" "unat (m_stack ?st) \<le> unat a"
    "unat a + 8 \<le> unat (m_stack ?st) + 8 * unat (m_maxSize ?st)" for a
    using that n entry_in_frame [OF n(1) i]
    by (intro sep8_aligned) (auto simp: off_stack_def)
  then show "free_frames (set_entry n i v s) = free_frames s" "frame_inv (set_entry n i v s)"
    unfolding set_entry_def by (auto intro!: free_frames_mem_update [OF inv])
qed


text \<open>The effect of one store on the tree: the entry at \<open>(p, i)\<close> becomes \<open>v\<close>, which names the
  same child as before or a new node without children. Every other entry stays.\<close>

definition links :: "'z machine_scheme \<Rightarrow> u64 \<Rightarrow> u64 \<Rightarrow> bool" where
  "links s e v \<longleftrightarrow> entry_node v = entry_node e \<or>
     (entry_node e = None \<and> (\<forall>f. entry_node v = Some f \<longrightarrow> (\<forall>j < 512. entry_at s f j = 0)))"

lemma entry_node_0 [simp]: "entry_node 0 = None"
  by (simp add: entry_node_def)

lemma links_cases [consumes 1, case_names same none new]:
  assumes "links s e v"
  obtains c where "entry_node v = Some c" "entry_node e = Some c"
  | "entry_node v = None" "entry_node e = None"
  | f where "entry_node v = Some f" "entry_node e = None" "\<And>j. j < 512 \<Longrightarrow> entry_at s f j = 0"
  using assms unfolding links_def by (metis not_None_eq)

lemma node_at_update:
  assumes inv: "tree_inv s r" and p: "indices p" "node_at s r p = Some n"
    and entries: "\<And>q m j. indices q \<Longrightarrow> node_at s r q = Some m \<Longrightarrow> j < 512 \<Longrightarrow>
      entry_at s' m j = (if m = n \<and> j = i then v else entry_at s m j)"
    and links: "length p < 3 \<Longrightarrow> links s' (entry_at s n i) v"
    and q: "indices q"
  shows "node_at s' r q = (if q = p @ [i] then entry_node v else node_at s r q)"
  using q
proof (induction q rule: rev_induct)
  case (snoc j q)
  have q: "indices q" "length q < 3" "j < 512" using snoc.prems by auto
  show ?case
  proof (cases "q = p @ [i]")
    case True
    have e: "node_at s r (p @ [i] @ [j]) = Option.bind (entry_node (entry_at s n i)) (\<lambda>c. entry_node (entry_at s c j))"
      using p by (simp add: node_at_append split: bind_split)
    have e': "node_at s' r (p @ [i] @ [j]) = Option.bind (entry_node v) (\<lambda>c. entry_node (entry_at s' c j))"
      using snoc.IH True q by (auto simp: node_at_append [of s' r "p @ [i]" "[j]", simplified] split: bind_split)
    have nd: "entry_node (entry_at s' c j) = entry_node (entry_at s c j)"
      if "entry_node (entry_at s n i) = Some c" for c
    proof -
      have c: "node_at s r q = Some c" using that p True by (simp add: node_at_append)
      then have "c \<noteq> n" using tree_invD(7) [OF inv q(1) p(1) _ p(2)] True by auto
      then show ?thesis using entries [OF q(1) c q(3)] by simp
    qed
    from links q True have "links s' (entry_at s n i) v" by simp
    then have "node_at s' r (p @ [i] @ [j]) = node_at s r (p @ [i] @ [j])"
      unfolding e e' using nd q(3) by (cases rule: links_cases) auto
    then show ?thesis using True by simp
  next
    case False
    note IH = snoc.IH [OF q(1)]
    show ?thesis
    proof (cases "node_at s r q")
      case None
      then show ?thesis using IH False p by (auto simp: node_at_append)
    next
      case (Some m)
      have "m = n \<longleftrightarrow> q = p" using tree_invD(7) [OF inv q(1) p(1) Some] p Some by auto
      then show ?thesis
        using IH False Some entries [OF q(1) Some q(3)] p by (auto simp: node_at_append)
    qed
  qed
qed simp

lemma tree_entry_update:
  assumes inv: "tree_inv s r" and p: "indices p" "node_at s r p = Some n"
    and entries: "\<And>q m j. indices q \<Longrightarrow> node_at s r q = Some m \<Longrightarrow> j < 512 \<Longrightarrow>
      entry_at s' m j = (if m = n \<and> j = i then v else entry_at s m j)"
    and links: "length p < 3 \<Longrightarrow> links s' (entry_at s n i) v"
    and q: "indices q" "j < 512"
  shows "tree_entry s' r q j = (if q = p \<and> j = i then v else tree_entry s r q j)"
proof -
  have upd: "node_at s' r q = (if q = p @ [i] then entry_node v else node_at s r q)"
    by (rule node_at_update [OF inv p entries links q(1)])
  show ?thesis
  proof (cases "q = p @ [i]")
    case True
    then have l: "links s' (entry_at s n i) v" using q links by simp
    have nd: "entry_at s' c j = entry_at s c j"
      if "entry_node (entry_at s n i) = Some c" for c
    proof -
      have c: "node_at s r q = Some c" using that p True by (simp add: node_at_append)
      then have "c \<noteq> n" using tree_invD(7) [OF inv q(1) p(1) _ p(2)] True by auto
      then show ?thesis using entries [OF q(1) c q(2)] by simp
    qed
    have "node_at s r q = entry_node (entry_at s n i)" using p True by (simp add: node_at_append)
    with l have "tree_entry s' r q j = tree_entry s r q j"
      unfolding tree_entry_def upd using nd q(2) True by (cases rule: links_cases) auto
    then show ?thesis using True by simp
  next
    case False
    show ?thesis
    proof (cases "node_at s r q")
      case None
      then show ?thesis using upd False p by (auto simp: tree_entry_def)
    next
      case (Some m)
      have "m = n \<longleftrightarrow> q = p" using tree_invD(7) [OF inv q(1) p(1) Some] p Some by auto
      then show ?thesis
        using upd False Some entries [OF q(1) Some q(2)] by (auto simp: tree_entry_def)
    qed
  qed
qed


text \<open>The invariant after such a store, when the child is kept.\<close>

lemma tree_inv_same_nodes:
  assumes inv: "tree_inv s r" and "frame_inv s'" and "free_frames s' = free_frames s"
    and "m_stack (buffer (free_stack s')) = m_stack (buffer (free_stack s))"
    and "m_maxSize (buffer (free_stack s')) = m_maxSize (buffer (free_stack s))"
    and nodes: "\<And>q. indices q \<Longrightarrow> node_at s' r q = node_at s r q"
  shows "tree_inv s' r"
proof -
  have "off_stack s' = off_stack s" using assms by (simp add: off_stack_def fun_eq_iff)
  then show ?thesis using inv assms(2,3) nodes unfolding tree_inv_def by simp
qed

lemma set_entry_tree:
  fixes s :: "'z frame_state_scheme"
  assumes inv: "tree_inv s r" and p: "indices p" "node_at s r p = Some n" and i: "i < 512"
    and v: "length p < 3 \<Longrightarrow> entry_node v = entry_node (entry_at s n i)"
  defines "s' \<equiv> set_entry n i v s"
  shows "tree_inv s' r" "free_frames s' = free_frames s"
    "\<And>q. indices q \<Longrightarrow> node_at s' r q = node_at s r q"
    "\<And>q j. indices q \<Longrightarrow> j < 512 \<Longrightarrow>
      tree_entry s' r q j = (if q = p \<and> j = i then v else tree_entry s r q j)"
proof -
  have n: "node_frame n" "off_stack s n"
    using node_at_frame [OF tree_invD(2) [OF inv] p(2)] tree_invD(6) [OF inv p] by auto
  have entries: "entry_at s' m j = (if m = n \<and> j = i then v else entry_at s m j)"
    if "indices q" "node_at s r q = Some m" "j < 512" for q m j
    unfolding s'_def using that n i node_at_frame [OF tree_invD(2) [OF inv] that(2)]
    by (intro entry_at_set_entry) auto
  have links: "links s' (entry_at s n i) v" if "length p < 3"
    using v [OF that] by (simp add: links_def)
  show nodes: "node_at s' r q = node_at s r q" if q: "indices q" for q
  proof -
    have "node_at s' r q = (if q = p @ [i] then entry_node v else node_at s r q)"
      by (rule node_at_update [OF inv p entries links q])
    moreover have "entry_node v = node_at s r q" if "q = p @ [i]"
      using that v p q by (simp add: node_at_append)
    ultimately show ?thesis by simp
  qed
  show "tree_entry s' r q j = (if q = p \<and> j = i then v else tree_entry s r q j)"
    if q: "indices q" "j < 512" for q j
    by (rule tree_entry_update [OF inv p entries links q])
  note ff = free_frames_node_update [OF tree_invD(1) [OF inv] n]
  show "free_frames s' = free_frames s" unfolding s'_def by (rule ff(3) [OF i])
  then show "tree_inv s' r"
    by (intro tree_inv_same_nodes [OF inv _ _ _ _ nodes])
      (simp_all add: s'_def ff(4) [OF i])
qed

text \<open>The invariant after the free frame \<open>f\<close> has become the child at \<open>(p, i)\<close>.\<close>

lemma link_node_tree:
  fixes s :: "'z frame_state_scheme"
  assumes inv: "tree_inv s r" and p: "indices p" "node_at s r p = Some n" "length p < 3"
    and i: "i < 512" and free: "free_frames s = f # fs"
    and v: "entry_node v = Some f" "entry_node (entry_at s n i) = None"
    and opt: "frame_inv (s\<lparr>free_stack := opt\<rparr>)" "free_frames (s\<lparr>free_stack := opt\<rparr>) = fs"
      "m_stack (buffer opt) = m_stack (buffer (free_stack s))"
      "m_maxSize (buffer opt) = m_maxSize (buffer (free_stack s))"
  defines "s' \<equiv> set_entry n i v (clear_node f (s\<lparr>free_stack := opt\<rparr>))"
  shows "tree_inv s' r" "free_frames s' = fs"
    "\<And>q. indices q \<Longrightarrow> node_at s' r q = (if q = p @ [i] then Some f else node_at s r q)"
    "\<And>q j. indices q \<Longrightarrow> j < 512 \<Longrightarrow>
      tree_entry s' r q j = (if q = p \<and> j = i then v else tree_entry s r q j)"
proof -
  let ?t = "s\<lparr>free_stack := opt\<rparr>"
  have n: "node_frame n" "off_stack s n" "n \<noteq> f"
    using node_at_frame [OF tree_invD(2) [OF inv] p(2)] tree_invD(5,6) [OF inv p(1,2)] free by auto
  have f: "node_frame f" "off_stack s f" using tree_invD(4) [OF inv, of f] free by auto
  have off: "off_stack ?t = off_stack s" "off_stack s' = off_stack s"
    using opt by (simp_all add: off_stack_def fun_eq_iff s'_def)
  have at: "entry_at ?t m j = entry_at s m j" for m j by (simp add: entry_at_def)
  have entries: "entry_at s' m j = (if m = n \<and> j = i then v else entry_at s m j)"
    if "indices q" "node_at s r q = Some m" "j < 512" for q m j
  proof -
    have m: "node_frame m" "m \<noteq> f"
      using node_at_frame [OF tree_invD(2) [OF inv] that(2)] tree_invD(5) [OF inv that(1,2)] free
      by auto
    then show ?thesis
      unfolding s'_def using n f i that(3)
      by (simp add: entry_at_set_entry entry_at_clear_node at)
  qed
  have "entry_at s' f j = 0" if "j < 512" for j
    unfolding s'_def using n f i that by (simp add: entry_at_set_entry entry_at_clear_node)
  then have links: "links s' (entry_at s n i) v" using v by (simp add: links_def)
  show nodes: "node_at s' r q = (if q = p @ [i] then Some f else node_at s r q)" if q: "indices q" for q
    unfolding v(1) [symmetric] by (rule node_at_update [OF inv p(1,2) entries links q])
  show "tree_entry s' r q j = (if q = p \<and> j = i then v else tree_entry s r q j)"
    if q: "indices q" "j < 512" for q j
    by (rule tree_entry_update [OF inv p(1,2) entries links q])
  have "frame_inv (clear_node f ?t)" "free_frames (clear_node f ?t) = fs"
    using free_frames_node_update(1,2) [OF opt(1) f(1)] off f opt(2) by auto
  moreover have "off_stack (clear_node f ?t) n" using n opt by (simp add: off_stack_def)
  ultimately have fr: "free_frames s' = fs" "frame_inv s'"
    unfolding s'_def using free_frames_node_update(3,4) [of "clear_node f ?t" n i v] n(1) i by auto
  show "free_frames s' = fs" by fact
  have new: "node_at s r q \<noteq> Some f" if "indices q" for q
    using tree_invD(5) [OF inv that] free by auto
  have fs: "f \<notin> set fs" using tree_invD(3) [OF inv] free by simp
  show "tree_inv s' r"
    unfolding tree_inv_def
  proof (intro conjI allI impI ballI)
    show "frame_inv s'" "node_frame r" "distinct (free_frames s')"
      using fr tree_invD(2,3) [OF inv] free by auto
    show "node_frame g" "off_stack s' g" if "g \<in> set (free_frames s')" for g
      using tree_invD(4) [OF inv, of g] that fr free off by auto
    fix q m assume q: "indices q" "node_at s' r q = Some m"
    show "m \<notin> set (free_frames s')" "off_stack s' m"
      using nodes [OF q(1)] q fs fr f off tree_invD(5,6) [OF inv q(1), of m] free
      by (auto split: if_splits)
    fix q' assume q': "indices q'" "node_at s' r q' = Some m"
    show "q = q'"
      using nodes [OF q(1)] nodes [OF q'(1)] q(2) q'(2) new [OF q(1)] new [OF q'(1)]
        tree_invD(7) [OF inv q(1) q'(1), of m] by (auto split: if_splits)
  qed
qed


section \<open>Translation\<close>

definition table_index :: "nat \<Rightarrow> u64 \<Rightarrow> u16" where
  "table_index start va = ucast (drop_bit start va AND 0x1ff)"

text \<open>The path of an address to its page table, and the entry of its page there (0 when a node on
  the path is missing).\<close>

definition page_path :: "u64 \<Rightarrow> u16 list" where
  "page_path va = [table_index 39 va, table_index 30 va, table_index 21 va]"

definition page_entry :: "'z machine_scheme \<Rightarrow> u64 \<Rightarrow> u64 \<Rightarrow> u64" where
  "page_entry s r va = tree_entry s r (page_path va) (table_index 12 va)"

lemma get_table_index_simps [simp]:
  "get_table_index va 0 = ret (table_index 39 va)"
  "get_table_index va 1 = ret (table_index 30 va)"
  "get_table_index va 2 = ret (table_index 21 va)"
  "get_table_index va 3 = ret (table_index 12 va)"
  by (simp_all add: get_table_index_def table_index_def)

lemma table_index_bits: "bit (table_index k va) j \<longleftrightarrow> j < 9 \<and> bit va (k + j)"
proof -
  have m: "(0x1ff :: u64) = mask 9" by (simp add: mask_eq_exp_minus_1)
  show ?thesis unfolding table_index_def m by (auto simp: bit_simps)
qed

lemma table_index_less [simp]: "table_index k va < 512"
proof -
  have "take_bit 9 (table_index k va) = table_index k va"
    by (rule bit_eqI) (auto simp: bit_simps table_index_bits)
  then have "unat (table_index k va) = take_bit 9 (unat (table_index k va))"
    by (metis unsigned_take_bit_eq)
  then have "unat (table_index k va) < 2 ^ 9" by (metis take_bit_nat_less_exp)
  then show ?thesis by (simp add: word_less_nat_alt)
qed

lemma indices_page_path [simp]: "\<forall>i \<in> set (page_path va). i < 512" "length (page_path va) = 3"
  by (simp_all add: page_path_def)

text \<open>Two addresses in the same page, in the 48 bits the tree translates.\<close>

definition same_page :: "u64 \<Rightarrow> u64 \<Rightarrow> bool" where
  "same_page a b \<longleftrightarrow> drop_bit 12 (take_bit 48 a) = drop_bit 12 (take_bit 48 b)"

lemma table_index_eq:
  "table_index k a = table_index k b \<longleftrightarrow> (\<forall>j. k \<le> j \<and> j < k + 9 \<longrightarrow> bit a j = bit b j)"
proof (rule iffI, intro allI impI)
  fix j assume eq: "table_index k a = table_index k b" and j: "k \<le> j \<and> j < k + 9"
  have "bit (table_index k a) (j - k) = bit (table_index k b) (j - k)" using eq by simp
  then show "bit a j = bit b j" using j by (auto simp: table_index_bits)
next
  assume r: "\<forall>j. k \<le> j \<and> j < k + 9 \<longrightarrow> bit a j = bit b j"
  show "table_index k a = table_index k b"
  proof (rule bit_eqI)
    fix j show "bit (table_index k a) j = bit (table_index k b) j"
      using r [rule_format, of "k + j"] by (auto simp: table_index_bits)
  qed
qed

lemma same_page_bits: "same_page a b \<longleftrightarrow> (\<forall>j. 12 \<le> j \<and> j < 48 \<longrightarrow> bit a j = bit b j)"
proof (rule iffI, intro allI impI)
  fix j :: nat assume eq: "same_page a b" and j: "12 \<le> j \<and> j < 48"
  have "bit (drop_bit 12 (take_bit 48 a)) (j - 12) = bit (drop_bit 12 (take_bit 48 b)) (j - 12)"
    using eq by (simp add: same_page_def)
  then show "bit a j = bit b j" using j by (auto simp: bit_simps)
next
  assume r: "\<forall>j. 12 \<le> j \<and> j < 48 \<longrightarrow> bit a j = bit b j"
  show "same_page a b"
    unfolding same_page_def
  proof (rule bit_eqI)
    fix j show "bit (drop_bit 12 (take_bit 48 a)) j = bit (drop_bit 12 (take_bit 48 b)) j"
      using r [rule_format, of "12 + j"] by (auto simp: bit_simps)
  qed
qed

lemma all_cover:
  "(\<And>j. A j \<longleftrightarrow> B j \<or> C j \<or> D j \<or> E j) \<Longrightarrow>
    (\<forall>j. A j \<longrightarrow> P j) \<longleftrightarrow>
    (\<forall>j. B j \<longrightarrow> P j) \<and> (\<forall>j. C j \<longrightarrow> P j) \<and> (\<forall>j. D j \<longrightarrow> P j) \<and> (\<forall>j. E j \<longrightarrow> P j)"
  by blast

lemma same_page_iff:
  "same_page a b \<longleftrightarrow> page_path a = page_path b \<and> table_index 12 a = table_index 12 b"
proof -
  have "same_page a b \<longleftrightarrow> table_index 39 a = table_index 39 b \<and> table_index 30 a = table_index 30 b \<and>
      table_index 21 a = table_index 21 b \<and> table_index 12 a = table_index 12 b"
    unfolding same_page_bits table_index_eq by (rule all_cover) auto
  then show ?thesis by (simp add: page_path_def)
qed

lemma get_child_address_node:
  "node_frame n \<Longrightarrow> i < 512 \<Longrightarrow> get_child_address s (node_ptr s n) i = entry_at s n i AND child_mask"
  unfolding get_child_address_def child_mask_eq by (simp add: load64_entry)

lemma get_child_flags_node:
  "node_frame n \<Longrightarrow> i < 512 \<Longrightarrow> get_child_flags s (node_ptr s n) i = entry_at s n i AND 0xff"
  by (simp add: get_child_flags_def load64_entry)

lemma translate_from_node:
  assumes "node_frame n"
    and "list_all2 (\<lambda>d i. get_table_index va d = ret i \<and> i < 512) ds is"
  shows "translate_from s va ds (node_ptr s n) =
    (let e = tree_entry s n is (table_index 12 va)
     in ret \<lparr>physical_address = e AND child_mask, translation_flags = e AND 0xff\<rparr>)"
  using assms(2,1)
proof (induction ds "is" arbitrary: n rule: list_all2_induct)
  case Nil
  then show ?case
    by (simp add: get_child_address_node get_child_flags_node tree_entry_def Let_def)
next
  case (Cons d ds i "is")
  then show ?case
    using masked_node_frame [of "entry_at s n i"] Cons.IH [of "entry_at s n i AND child_mask"]
    by (simp add: get_child_address_node kernel_physical_to_virtual_def tree_entry_def
        entry_node_def PageFlags_None_def Let_def)
qed

lemma get_translation_entry:
  assumes "node_frame r"
  shows "get_translation s \<lparr>root_node = kernel_physical_to_virtual s r\<rparr> va =
    ret \<lparr>physical_address = page_entry s r va AND child_mask,
         translation_flags = page_entry s r va AND 0xff\<rparr>"
  using translate_from_node [OF assms, of va "[0, 1, 2]" "page_path va" s]
  by (simp add: get_translation_def kernel_physical_to_virtual_def page_entry_def page_path_def Let_def)

section \<open>Mapping a page\<close>

text \<open>The entry that \<^verbatim>\<open>set_child_flags\<close> leaves.\<close>

definition flagged :: "u64 \<Rightarrow> PageFlags \<Rightarrow> u64" where
  "flagged e flags = (e AND NOT 0xff) OR (flags OR PageFlags_Present)"

lemma flagged_twice [simp]: "flagged (flagged e flags) flags = flagged e flags"
  by (rule bit_eqI) (auto simp: flagged_def bit_simps)

lemma low_mask: "(0xff :: u64) = mask 8"
  by (simp add: mask_eq_exp_minus_1)

lemma flagged_child:
  assumes "flags AND child_mask = 0" shows "flagged e flags AND child_mask = e AND child_mask"
proof (rule bit_eqI)
  fix k assume "possible_bit TYPE(u64) k"
  have "\<not> (bit flags k \<and> bit child_mask k)" using assms by (metis bit_0_eq bit_and_iff bot_apply bot_bool_def)
  then show "bit (flagged e flags AND child_mask) k = bit (e AND child_mask) k"
    by (auto simp: flagged_def bit_simps low_mask child_mask_bits PageFlags_Present_def)
qed

lemma flagged_flags: "flagged e flags AND 0xff = (flags OR PageFlags_Present) AND 0xff"
  by (rule bit_eqI) (auto simp: flagged_def bit_simps)

lemma set_child_flags_node:
  assumes "node_frame n" "i < 512"
  shows "set_child_flags (node_ptr s n) i flags s = set_entry n i (flagged (entry_at s n i) flags) s"
proof -
  let ?t = "set_entry n i (entry_at s n i AND NOT 0xff) s"
  have "entry_at ?t n i = entry_at s n i AND NOT 0xff"
    using assms by (simp add: entry_at_set_entry)
  then show ?thesis
    using assms load64_entry [OF assms, of ?t] store64_entry [OF assms, of ?t]
    unfolding set_child_flags_def add_child_flags_def child_mask_eq
    by (simp add: load64_entry store64_entry flagged_def PageFlags_or_def Let_def)
qed

lemma set_child_address_node:
  "node_frame n \<Longrightarrow> i < 512 \<Longrightarrow> set_child_address (node_ptr s n) i a s = set_entry n i a s"
  unfolding set_child_address_def child_mask_eq by (simp add: load64_entry store64_entry)


text \<open>Only the memory and the free stack change, no other global.\<close>

definition same_globals :: "'z frame_state_scheme \<Rightarrow> 'z frame_state_scheme \<Rightarrow> bool" where
  "same_globals s s' \<longleftrightarrow> s' = s\<lparr>mem := mem s', free_stack := free_stack s'\<rparr>"

lemma same_globals_simps:
  assumes "same_globals s s'"
  shows "hhdm_offset s' = hhdm_offset s" "memory_map s' = memory_map s"
    "frame_state.more s' = frame_state.more s"
proof -
  have s': "s' = s\<lparr>mem := mem s', free_stack := free_stack s'\<rparr>"
    using assms by (simp add: same_globals_def)
  show "hhdm_offset s' = hhdm_offset s" by (subst s') simp
  show "memory_map s' = memory_map s" by (subst s') simp
  show "frame_state.more s' = frame_state.more s" by (subst s') simp
qed

lemma same_globalsI:
  "hhdm_offset s' = hhdm_offset s \<Longrightarrow> memory_map s' = memory_map s \<Longrightarrow>
    frame_state.more s' = frame_state.more s \<Longrightarrow> same_globals s s'"
  by (simp add: same_globals_def)

lemma same_globals_refl [simp]: "same_globals s s"
  by (simp add: same_globals_def)

lemma same_globals_trans: "same_globals s t \<Longrightarrow> same_globals t u \<Longrightarrow> same_globals s u"
  by (rule same_globalsI) (simp_all add: same_globals_simps)

lemma same_globals_updates [simp]:
  "same_globals s (set_entry n i v s)"
  "same_globals s (set_entry n i v (clear_node f (s\<lparr>free_stack := st\<rparr>)))"
  by (simp_all add: same_globals_def set_entry_def clear_node_def)

lemma entry_node_None [simp]: "entry_node e = None \<longleftrightarrow> e AND child_mask = 0"
  by (simp add: entry_node_def)

text \<open>The frames that hold the nodes.\<close>

definition tree_nodes :: "'z machine_scheme \<Rightarrow> u64 \<Rightarrow> u64 set" where
  "tree_nodes s r = {n. \<exists>p. indices p \<and> node_at s r p = Some n}"

lemma tree_nodes_step:
  assumes "\<forall>q. indices q \<longrightarrow> node_at s' r q = (if q = p then Some c else node_at s r q)"
  shows "tree_nodes s' r \<subseteq> insert c (tree_nodes s r)"
proof
  fix n assume "n \<in> tree_nodes s' r"
  then obtain q where q: "indices q" "node_at s' r q = Some n" unfolding tree_nodes_def by blast
  then have "node_at s r q = Some n \<or> n = c" using assms [rule_format, OF q(1)] by (simp split: if_splits)
  then show "n \<in> insert c (tree_nodes s r)" using q(1) unfolding tree_nodes_def by blast
qed

text \<open>New nodes come from the free frames, the free stack's array stays where it is, and only bytes of
  nodes and free frames change.\<close>

definition tree_grows :: "'z frame_state_scheme \<Rightarrow> 'z frame_state_scheme \<Rightarrow> u64 \<Rightarrow> bool" where
  "tree_grows s s' r \<longleftrightarrow> tree_nodes s' r \<subseteq> tree_nodes s r \<union> set (free_frames s) \<and> off_stack s' = off_stack s \<and>
     (\<forall>a. mem s' a \<noteq> mem s a \<longrightarrow> (\<exists>n \<in> tree_nodes s r \<union> set (free_frames s). in_frame n a))"

lemma tree_grows_refl [simp]: "tree_grows s s r"
  by (simp add: tree_grows_def)

lemma tree_grows_trans:
  "tree_grows s s1 r \<Longrightarrow> set (free_frames s1) \<subseteq> set (free_frames s) \<Longrightarrow> tree_grows s1 s' r \<Longrightarrow> tree_grows s s' r"
proof -
  assume a: "tree_grows s s1 r" "set (free_frames s1) \<subseteq> set (free_frames s)" "tree_grows s1 s' r"
  have sub: "tree_nodes s1 r \<union> set (free_frames s1) \<subseteq> tree_nodes s r \<union> set (free_frames s)"
    using a(1,2) unfolding tree_grows_def by blast
  have "\<exists>n \<in> tree_nodes s r \<union> set (free_frames s). in_frame n b" if "mem s' b \<noteq> mem s b" for b
  proof (cases "mem s1 b = mem s b")
    case True
    then have "mem s' b \<noteq> mem s1 b" using that by simp
    then show ?thesis using a(3) sub unfolding tree_grows_def by blast
  next
    case False
    then show ?thesis using a(1) unfolding tree_grows_def by blast
  qed
  then show "tree_grows s s' r" using a sub unfolding tree_grows_def by auto
qed

lemma node_in_tree: "indices p \<Longrightarrow> node_at s r p = Some n \<Longrightarrow> n \<in> tree_nodes s r"
  unfolding tree_nodes_def by blast

lemma off_stack_set_entry [simp]: "off_stack (set_entry n i v s) = off_stack s"
  by (simp add: off_stack_def fun_eq_iff)

text \<open>One iteration of the loop, when the node exists or a frame is free: exactly one entry of the
  tree changes, and the child exists afterwards.\<close>

lemma map_step_tree:
  fixes s :: "'z frame_state_scheme"
  assumes inv: "tree_inv s r" and p: "indices p" "node_at s r p = Some n" "length p < 3"
    and i: "get_table_index page d = ret i" "i < 512" and flags: "flags AND child_mask = 0"
    and free: "node_at s r (p @ [i]) = None \<Longrightarrow> free_frames s \<noteq> []"
  shows "\<exists>c v s'. map_step page flags d (node_ptr s n, s) = ret (node_ptr s' c, s') \<and>
    tree_inv s' r \<and> same_globals s s' \<and>
    v AND 0xff = (flags OR PageFlags_Present) AND 0xff \<and>
    free_frames s' = drop (of_bool (node_at s r (p @ [i]) = None)) (free_frames s) \<and>
    (\<forall>q. indices q \<longrightarrow> node_at s' r q = (if q = p @ [i] then Some c else node_at s r q)) \<and>
    tree_grows s s' r \<and>
    (\<forall>q j. indices q \<longrightarrow> j < 512 \<longrightarrow>
      tree_entry s' r q j = (if q = p \<and> j = i then v else tree_entry s r q j))"
proof (cases "entry_at s n i AND child_mask = 0")
  have n: "node_frame n" "off_stack s n"
    using node_at_frame [OF tree_invD(2) [OF inv] p(2)] tree_invD(6) [OF inv p(1,2)] by auto
  have nd: "node_at s r (p @ [i]) = entry_node (entry_at s n i)" using p by (simp add: node_at_append)
  {
    case False
    let ?v = "flagged (entry_at s n i) flags"
    let ?s = "set_entry n i ?v s"
    let ?c = "entry_at s n i AND child_mask"
    have v: "entry_node ?v = entry_node (entry_at s n i)"
      using flagged_child [OF flags] by (simp add: entry_node_def)
    note upd = set_entry_tree [OF inv p(1,2) i(2) v]
    have "map_step page flags d (node_ptr s n, s) = ret (node_ptr ?s ?c, ?s)"
      using False n i
      by (simp add: map_step_def get_child_address_node set_child_flags_node
          kernel_physical_to_virtual_def)
    moreover have "node_at s r (p @ [i]) = Some ?c" using nd False by (simp add: entry_node_def)
    moreover have "mem ?s a = mem s a" if "\<not> in_frame n a" for a
      by (rule node_updates_in_frame(1) [OF n(1) that i(2)])
    then have "tree_grows s ?s r"
      using upd(3) node_in_tree [OF p(1,2)] by (auto simp: tree_grows_def tree_nodes_def)
    ultimately show ?thesis
      using upd flagged_flags [of "entry_at s n i" flags]
      by (intro exI [of _ ?c] exI [of _ ?v] exI [of _ ?s]) simp
  next
    case True
    then have "free_frames s \<noteq> []" using free nd by simp
    then obtain f fs where fs: "free_frames s = f # fs" by (cases "free_frames s") auto
    obtain opt where opt: "allocate_frame s = ret (f, s\<lparr>free_stack := opt\<rparr>)"
      "frame_inv (s\<lparr>free_stack := opt\<rparr>)" "free_frames (s\<lparr>free_stack := opt\<rparr>) = fs"
      "m_stack (buffer opt) = m_stack (buffer (free_stack s))"
      "m_maxSize (buffer opt) = m_maxSize (buffer (free_stack s))"
      using allocate_frame_Cons [OF tree_invD(1) [OF inv] fs] by auto
    let ?t = "clear_node f (s\<lparr>free_stack := opt\<rparr>)"
    let ?v = "flagged f flags"
    let ?s = "set_entry n i ?v ?t"
    have f: "node_frame f" "f \<noteq> n"
      using tree_invD(4) [OF inv, of f] tree_invD(5) [OF inv p(1,2)] fs by auto
    have v: "entry_node ?v = Some f"
      using flagged_child [OF flags, of f] f node_frame_masked [OF f(1)] by (simp add: entry_node_def node_frame_def)
    note upd = link_node_tree [OF inv p(1,2,3) i(2) fs v _ opt(2-)]
    have frame: "mem ?s a = mem s a" if "\<not> in_frame n a" "\<not> in_frame f a" for a
      using i(2) by (simp add: node_updates_in_frame [OF n(1) that(1)] node_updates_in_frame [OF f(1) that(2)])
    have "map_step page flags d (node_ptr s n, s) = ret (node_ptr ?s f, ?s)"
      using True n i opt(1) f set_child_address_node [OF n(1) i(2), of ?t f]
        set_child_flags_node [OF n(1) i(2), of "set_entry n i f ?t" flags]
        set_child_flags_node [OF n(1) i(2), of ?s flags]
        PageTreeNode_init_frame [OF f(1), of "s\<lparr>free_stack := opt\<rparr>"]
      by (simp add: map_step_def get_child_address_node entry_at_set_entry
          kernel_physical_to_virtual_def)
    moreover have "tree_nodes ?s r \<subseteq> insert f (tree_nodes s r)" "off_stack ?s = off_stack s"
      using upd(3) True opt(4,5) by (auto intro!: tree_nodes_step simp: off_stack_def fun_eq_iff)
    then have "tree_grows s ?s r" using fs frame node_in_tree [OF p(1,2)] by (auto simp: tree_grows_def)
    ultimately show ?thesis
      using upd True nd fs flagged_flags [of f flags]
      by (intro exI [of _ f] exI [of _ ?v] exI [of _ ?s]) auto
  }
qed


lemma map_step_panics:
  fixes s :: "'z frame_state_scheme"
  assumes inv: "tree_inv s r" and p: "indices p" "node_at s r p = Some n"
    and i: "get_table_index page d = ret i" "i < 512"
    and none: "node_at s r (p @ [i]) = None" "free_frames s = []"
  shows "map_step page flags d (node_ptr s n, s)
    = kernel_panic ''ran out of physical memory to allocate!''"
proof -
  have n: "node_frame n" by (rule node_at_frame [OF tree_invD(2) [OF inv] p(2)])
  have "entry_at s n i AND child_mask = 0" using none(1) p by (simp add: node_at_append)
  then show ?thesis
    using n i allocate_frame_Nil [OF tree_invD(1) [OF inv] none(2)]
    by (simp add: map_step_def get_child_address_node)
qed

text \<open>The nodes on the path \<open>is\<close> below \<open>p\<close> that do not exist yet, and the entries on that path.\<close>

fun missing_from :: "'z machine_scheme \<Rightarrow> u64 \<Rightarrow> u16 list \<Rightarrow> u16 list \<Rightarrow> nat" where
  "missing_from s r p [] = 0"
| "missing_from s r p (i # is) = of_bool (node_at s r (p @ [i]) = None) + missing_from s r (p @ [i]) is"

fun on_path :: "u16 list \<Rightarrow> u16 list \<Rightarrow> u16 list \<Rightarrow> u16 \<Rightarrow> bool" where
  "on_path p [] q j \<longleftrightarrow> False"
| "on_path p (i # is) q j \<longleftrightarrow> q = p \<and> j = i \<or> on_path (p @ [i]) is q j"

lemma on_path_length: "on_path p is q j \<Longrightarrow> length p \<le> length q \<and> length q < length p + length is"
  by (induction p "is" q j rule: on_path.induct) auto

lemma missing_from_cong:
  "(\<And>q. q \<noteq> [] \<Longrightarrow> set q \<subseteq> set is \<Longrightarrow> length q \<le> length is \<Longrightarrow>
      node_at s' r (p @ q) = node_at s r (p @ q)) \<Longrightarrow>
    missing_from s' r p is = missing_from s r p is"
proof (induction "is" arbitrary: p)
  case (Cons i "is")
  have "missing_from s' r (p @ [i]) is = missing_from s r (p @ [i]) is"
  proof (rule Cons.IH)
    fix q assume "q \<noteq> []" "set q \<subseteq> set is" "length q \<le> length is"
    then show "node_at s' r ((p @ [i]) @ q) = node_at s r ((p @ [i]) @ q)"
      using Cons.prems [of "i # q"] by auto
  qed
  then show ?case using Cons.prems [of "[i]"] by simp
qed simp

lemma missing_from_step:
  assumes "indices (p @ i # is)"
    and "\<forall>q. indices q \<longrightarrow> node_at s1 r q = (if q = p @ [i] then Some c else node_at s r q)"
  shows "missing_from s1 r (p @ [i]) is = missing_from s r (p @ [i]) is"
proof (rule missing_from_cong)
  fix q assume q: "q \<noteq> []" "set q \<subseteq> set is" "length q \<le> length is"
  then have "indices (p @ i # q)" using assms(1) by auto
  then show "node_at s1 r ((p @ [i]) @ q) = node_at s r ((p @ [i]) @ q)"
    using assms(2) q(1) by simp
qed

text \<open>The walk: with a free frame for each missing node, the nodes of the path exist afterwards,
  only the entries on the path have changed, and those carry the flags of the call.\<close>

lemma map_walk:
  fixes s :: "'z frame_state_scheme"
  assumes "list_all2 (\<lambda>d i. get_table_index page d = ret i \<and> i < 512) ds is"
    and "tree_inv s r" and "indices (p @ is)" and "node_at s r p = Some n"
    and flags: "flags AND child_mask = 0"
    and "missing_from s r p is \<le> length (free_frames s)"
  shows "\<exists>n' s'. res_fold (map_step page flags) ds (node_ptr s n, s) = ret (node_ptr s' n', s') \<and>
    tree_inv s' r \<and> same_globals s s' \<and> node_at s' r (p @ is) = Some n' \<and>
    free_frames s' = drop (missing_from s r p is) (free_frames s) \<and>
    tree_grows s s' r \<and>
    (\<forall>q j. indices q \<longrightarrow> j < 512 \<longrightarrow>
      (if on_path p is q j
       then tree_entry s' r q j AND 0xff = (flags OR PageFlags_Present) AND 0xff
       else tree_entry s' r q j = tree_entry s r q j))"
  using assms(1,2,3,4,6)
proof (induction ds "is" arbitrary: p n s rule: list_all2_induct)
  case (Cons d ds i "is")
  let ?val = "\<lambda>v :: u64. v AND 0xff = (flags OR PageFlags_Present) AND 0xff"
  have p: "indices p" "length p < 3" and i: "get_table_index page d = ret i" "i < 512"
    using Cons.prems Cons.hyps by auto
  have "node_at s r (p @ [i]) = None \<Longrightarrow> free_frames s \<noteq> []" using Cons.prems(4) by auto
  from map_step_tree [OF Cons.prems(1) p(1) Cons.prems(3) p(2) i flags this]
  obtain c v s1 where step: "map_step page flags d (node_ptr s n, s) = ret (node_ptr s1 c, s1)"
    "tree_inv s1 r" "same_globals s s1" "?val v"
    "free_frames s1 = drop (of_bool (node_at s r (p @ [i]) = None)) (free_frames s)"
    and nodes: "\<forall>q. indices q \<longrightarrow> node_at s1 r q = (if q = p @ [i] then Some c else node_at s r q)"
    and grows: "tree_grows s s1 r"
    and tree: "\<forall>q j. indices q \<longrightarrow> j < 512 \<longrightarrow>
      tree_entry s1 r q j = (if q = p \<and> j = i then v else tree_entry s r q j)"
    by blast
  note miss = missing_from_step [OF Cons.prems(2) nodes]
  have ip: "indices ((p @ [i]) @ is)" using Cons.prems(2) by simp
  have c: "node_at s1 r (p @ [i]) = Some c" using nodes p i by auto
  have "missing_from s1 r (p @ [i]) is \<le> length (free_frames s1)"
    using Cons.prems(4) step(5) miss by simp
  from Cons.IH [OF step(2) ip c this]
  obtain n' s' where rest:
    "res_fold (map_step page flags) ds (node_ptr s1 c, s1) = ret (node_ptr s' n', s')"
    "tree_inv s' r" "same_globals s1 s'" "node_at s' r ((p @ [i]) @ is) = Some n'"
    "free_frames s' = drop (missing_from s r (p @ [i]) is) (free_frames s1)"
    "tree_grows s1 s' r"
    and tree': "\<forall>q j. indices q \<longrightarrow> j < 512 \<longrightarrow> (if on_path (p @ [i]) is q j then ?val (tree_entry s' r q j)
      else tree_entry s' r q j = tree_entry s1 r q j)"
    unfolding miss by blast
  have "if on_path p (i # is) q j then ?val (tree_entry s' r q j)
      else tree_entry s' r q j = tree_entry s r q j" if "indices q" "j < 512" for q j
    using tree [rule_format, OF that] tree' [rule_format, OF that] step(4) by (auto split: if_splits)
  moreover have "same_globals s s'" by (rule same_globals_trans [OF step(3) rest(3)])
  moreover have "tree_grows s s' r"
    by (rule tree_grows_trans [OF grows _ rest(6)]) (unfold step(5), rule set_drop_subset)
  ultimately show ?case
    using step(1,5) rest by (intro exI [of _ n'] exI [of _ s']) (simp add: add.commute)
qed (simp add: tree_inv_def)

lemma map_walk_panics:
  fixes s :: "'z frame_state_scheme"
  assumes "list_all2 (\<lambda>d i. get_table_index page d = ret i \<and> i < 512) ds is"
    and "tree_inv s r" and "indices (p @ is)" and "node_at s r p = Some n"
    and flags: "flags AND child_mask = 0"
    and "length (free_frames s) < missing_from s r p is"
  shows "res_fold (map_step page flags) ds (node_ptr s n, s)
    = kernel_panic ''ran out of physical memory to allocate!''"
  using assms(1,2,3,4,6)
proof (induction ds "is" arbitrary: p n s rule: list_all2_induct)
  case (Cons d ds i "is")
  have p: "indices p" "length p < 3" and i: "get_table_index page d = ret i" "i < 512"
    using Cons.prems Cons.hyps by auto
  show ?case
  proof (cases "node_at s r (p @ [i]) = None \<and> free_frames s = []")
    case True
    then show ?thesis
      using map_step_panics [OF Cons.prems(1) p(1) Cons.prems(3) i] by simp
  next
    case False
    then have "node_at s r (p @ [i]) = None \<Longrightarrow> free_frames s \<noteq> []" by simp
    from map_step_tree [OF Cons.prems(1) p(1) Cons.prems(3) p(2) i flags this]
    obtain c s1 where step: "map_step page flags d (node_ptr s n, s) = ret (node_ptr s1 c, s1)"
      "tree_inv s1 r"
      "free_frames s1 = drop (of_bool (node_at s r (p @ [i]) = None)) (free_frames s)"
      and nodes: "\<forall>q. indices q \<longrightarrow> node_at s1 r q = (if q = p @ [i] then Some c else node_at s r q)"
      by blast
    have ip: "indices ((p @ [i]) @ is)" using Cons.prems(2) by simp
    have c: "node_at s1 r (p @ [i]) = Some c" using nodes p i by auto
    have "length (free_frames s1) < missing_from s1 r (p @ [i]) is"
      using Cons.prems(4) step(3) missing_from_step [OF Cons.prems(2) nodes] False
      by (cases "free_frames s") auto
    then show ?thesis using Cons.IH [OF step(2) ip c] step(1) by simp
  qed
qed simp

section \<open>What mapping a page does\<close>

definition missing_nodes :: "'z machine_scheme \<Rightarrow> u64 \<Rightarrow> u64 \<Rightarrow> nat" where
  "missing_nodes s r page = missing_from s r [] (page_path page)"

lemma page_path_depths:
  "list_all2 (\<lambda>d i. get_table_index page d = ret i \<and> i < 512) [0, 1, 2] (page_path page)"
  by (simp add: page_path_def)

text \<open>The entries after the call: the page's own entry is new, those above it carry the flags.\<close>

definition entries_after ::
  "u64 \<Rightarrow> u64 \<Rightarrow> u64 \<Rightarrow> PageFlags \<Rightarrow> 'z machine_scheme \<Rightarrow> 'z machine_scheme \<Rightarrow> bool" where
  "entries_after r page frame flags s s' \<longleftrightarrow> (\<forall>q j. indices q \<longrightarrow> j < 512 \<longrightarrow>
      (if q = page_path page \<and> j = table_index 12 page then tree_entry s' r q j = flagged frame flags
       else if on_path [] (page_path page) q j
       then tree_entry s' r q j AND 0xff = (flags OR PageFlags_Present) AND 0xff
       else tree_entry s' r q j = tree_entry s r q j))"

lemma entries_after_page:
  assumes "entries_after r page frame flags s s'"
  shows "page_entry s' r va = (if same_page va page then flagged frame flags else page_entry s r va)"
  using assms [unfolded entries_after_def, rule_format, of "page_path va" "table_index 12 va"]
    on_path_length [of "[]" "page_path page" "page_path va" "table_index 12 va"]
  by (auto simp: page_entry_def same_page_iff split: if_splits)

lemma map_page_to_frame_tree:
  fixes s :: "'z frame_state_scheme"
  assumes inv: "tree_inv s r" and flags: "flags AND child_mask = 0"
    and free: "missing_nodes s r page \<le> length (free_frames s)"
  shows "\<exists>s'. map_page_to_frame \<lparr>root_node = kernel_physical_to_virtual s r\<rparr> page frame flags s = ret s' \<and>
    tree_inv s' r \<and> same_globals s s' \<and> node_at s' r (page_path page) \<noteq> None \<and>
    free_frames s' = drop (missing_nodes s r page) (free_frames s) \<and>
    tree_grows s s' r \<and>
    entries_after r page frame flags s s'"
proof -
  have ip: "indices ([] @ page_path page)" by simp
  have free': "missing_from s r [] (page_path page) \<le> length (free_frames s)"
    using free by (simp add: missing_nodes_def)
  from map_walk [OF page_path_depths inv ip node_at.simps(1) flags free']
  obtain n s1 where walk:
    "res_fold (map_step page flags) [0, 1, 2] (node_ptr s r, s) = ret (node_ptr s1 n, s1)"
    "tree_inv s1 r" "same_globals s s1" "node_at s1 r (page_path page) = Some n"
    "free_frames s1 = drop (missing_nodes s r page) (free_frames s)"
    "tree_grows s s1 r"
    and tree: "\<forall>q j. indices q \<longrightarrow> j < 512 \<longrightarrow> (if on_path [] (page_path page) q j
       then tree_entry s1 r q j AND 0xff = (flags OR PageFlags_Present) AND 0xff
       else tree_entry s1 r q j = tree_entry s r q j)"
    unfolding missing_nodes_def append_Nil by blast
  let ?i = "table_index 12 page" and ?v = "flagged frame flags"
  let ?s = "set_entry n ?i ?v s1"
  have n: "node_frame n" by (rule node_at_frame [OF tree_invD(2) [OF inv] walk(4)])
  have upd: "tree_inv ?s r" "free_frames ?s = free_frames s1" "node_at ?s r (page_path page) = Some n"
    "\<And>q j. indices q \<Longrightarrow> j < 512 \<Longrightarrow>
      tree_entry ?s r q j = (if q = page_path page \<and> j = ?i then ?v else tree_entry s1 r q j)"
    using set_entry_tree [OF walk(2) _ walk(4), of ?i ?v] walk(4) by auto
  have "tree_nodes ?s r = tree_nodes s1 r"
    using set_entry_tree(3) [OF walk(2) _ walk(4), of ?i ?v] by (auto simp: tree_nodes_def)
  have "map_page_to_frame \<lparr>root_node = kernel_physical_to_virtual s r\<rparr> page frame flags s = ret ?s"
    using walk(1) n set_child_flags_node [OF n, of ?i "set_entry n ?i frame s1" flags]
    by (simp add: map_page_to_frame_def kernel_physical_to_virtual_def set_child_address_node
        entry_at_set_entry)
  moreover have "tree_grows s1 ?s r"
    using \<open>tree_nodes ?s r = _\<close> node_in_tree [OF _ walk(4)] node_updates_in_frame(1) [OF n, of _ ?i ?v s1]
    by (auto simp: tree_grows_def)
  then have "tree_grows s ?s r"
    by (rule tree_grows_trans [OF walk(6), rotated]) (unfold walk(5), rule set_drop_subset)
  moreover have "same_globals s ?s" by (rule same_globals_trans [OF walk(3)]) simp
  ultimately show ?thesis using walk(5) upd tree by (intro exI [of _ ?s]) (simp add: entries_after_def)
qed

lemma map_page_to_frame_panics:
  fixes s :: "'z frame_state_scheme"
  assumes inv: "tree_inv s r" and flags: "flags AND child_mask = 0"
    and free: "length (free_frames s) < missing_nodes s r page"
  shows "map_page_to_frame \<lparr>root_node = kernel_physical_to_virtual s r\<rparr> page frame flags s
    = kernel_panic ''ran out of physical memory to allocate!''"
  using map_walk_panics [where page = page and p = "[]" and n = r, OF page_path_depths inv _ _ flags] free
  by (simp add: map_page_to_frame_def kernel_physical_to_virtual_def missing_nodes_def)

text \<open>C3. Mapping a page changes the translation of that page and of no other. With a free frame for
  every missing node of the path, \<^verbatim>\<open>map_page_to_frame\<close> returns, takes exactly that many frames
  and keeps the tree well formed; afterwards \<^verbatim>\<open>get_translation\<close> gives the frame (its bits 12 to
  31) with the requested flags for every address of the page, and what it gave before for every
  address of another page. With fewer free frames it panics.\<close>

theorem map_page_to_frame_maps_one_page:
  fixes s :: "'z frame_state_scheme"
  assumes inv: "tree_inv s r" and flags: "flags AND child_mask = 0"
  defines "tree \<equiv> \<lparr>root_node = kernel_physical_to_virtual s r\<rparr>"
  shows "if length (free_frames s) < missing_nodes s r page
    then map_page_to_frame tree page frame flags s
      = kernel_panic ''ran out of physical memory to allocate!''
    else \<exists>s'. map_page_to_frame tree page frame flags s = ret s' \<and> tree_inv s' r \<and>
      free_frames s' = drop (missing_nodes s r page) (free_frames s) \<and>
      (\<forall>va. get_translation s' tree va =
        (if same_page va page
         then ret \<lparr>physical_address = frame AND child_mask,
           translation_flags = (flags OR PageFlags_Present) AND 0xff\<rparr>
         else get_translation s tree va))"
proof (cases "length (free_frames s) < missing_nodes s r page")
  case True
  then show ?thesis using map_page_to_frame_panics [OF inv flags] by (simp add: tree_def)
next
  case False
  then obtain s' where s': "map_page_to_frame tree page frame flags s = ret s'" "tree_inv s' r"
    "same_globals s s'" "free_frames s' = drop (missing_nodes s r page) (free_frames s)"
    and entries: "entries_after r page frame flags s s'"
    using map_page_to_frame_tree [OF inv flags, of page frame] unfolding tree_def by auto
  note entries_after_page [OF entries]
  then have "get_translation s' tree va =
      (if same_page va page
       then ret \<lparr>physical_address = frame AND child_mask,
         translation_flags = (flags OR PageFlags_Present) AND 0xff\<rparr>
       else get_translation s tree va)" for va
    using get_translation_entry [OF tree_invD(2) [OF inv], of s' va]
      get_translation_entry [OF tree_invD(2) [OF inv], of s va] same_globals_simps(1) [OF s'(3)]
    by (simp add: tree_def kernel_physical_to_virtual_def flagged_child [OF flags] flagged_flags)
  then show ?thesis using False s' by auto
qed


section \<open>A new tree\<close>

text \<open>The constructor gives an empty tree, when the root's frame and the free frames lie apart.\<close>

definition frames_apart :: "'z frame_state_scheme \<Rightarrow> u64 \<Rightarrow> bool" where
  "frames_apart s r \<longleftrightarrow> frame_inv s \<and> distinct (r # free_frames s) \<and>
     list_all (\<lambda>f. node_frame f \<and> off_stack s f) (r # free_frames s)"

lemma PageTree_init_tree:
  fixes s :: "'z frame_state_scheme"
  assumes "frames_apart s r"
  defines "s' \<equiv> snd (PageTree_init (kernel_physical_to_virtual s r) s)"
  shows "tree_inv s' r" "free_frames s' = free_frames s" "hhdm_offset s' = hhdm_offset s"
    "\<And>p. indices p \<Longrightarrow> node_at s' r p = (if p = [] then Some r else None)"
    "\<And>p i. indices p \<Longrightarrow> i < 512 \<Longrightarrow> tree_entry s' r p i = 0"
proof -
  have r: "node_frame r" "off_stack s r" "frame_inv s" "r \<notin> set (free_frames s)"
    "distinct (free_frames s)" "\<forall>f \<in> set (free_frames s). node_frame f \<and> off_stack s f"
    using assms by (auto simp: frames_apart_def list_all_iff)
  have s': "s' = clear_node r s"
    using PageTreeNode_init_frame [OF r(1)]
    by (simp add: s'_def PageTree_init_def kernel_physical_to_virtual_def)
  have z: "entry_at s' r i = 0" if "i < 512" for i
    using entry_at_clear_node [OF r(1) r(1) that] by (simp add: s')
  show nodes: "node_at s' r p = (if p = [] then Some r else None)" if "indices p" for p
    using that z by (cases p) auto
  show "tree_entry s' r p i = 0" if "indices p" "i < 512" for p i
    using nodes [OF that(1)] z [OF that(2)] by (simp add: tree_entry_def)
  note ff = free_frames_node_update(1,2) [OF r(3,1,2), folded s']
  show "free_frames s' = free_frames s" "hhdm_offset s' = hhdm_offset s" using ff by (simp_all add: s')
  moreover have "off_stack s' = off_stack s" by (simp add: off_stack_def fun_eq_iff s')
  ultimately show "tree_inv s' r"
    unfolding tree_inv_def using r ff nodes by (auto split: if_splits)
qed

section \<open>Effective permissions\<close>

text \<open>The entries the processor reads on its way to a page. It allows a write only where every one
  of them has the \<^verbatim>\<open>Write\<close> bit.\<close>

definition walk_entries :: "'z machine_scheme \<Rightarrow> u64 \<Rightarrow> u64 \<Rightarrow> u64 list" where
  "walk_entries s r va = map (\<lambda>k. tree_entry s r (take k (page_path va))
     ((page_path va @ [table_index 12 va]) ! k)) [0, 1, 2, 3]"

definition hw_writable :: "'z machine_scheme \<Rightarrow> u64 \<Rightarrow> u64 \<Rightarrow> bool" where
  "hw_writable s r va \<longleftrightarrow> list_all (\<lambda>e. e AND PageFlags_Write \<noteq> 0) (walk_entries s r va)"

definition hw_mapped :: "'z machine_scheme \<Rightarrow> u64 \<Rightarrow> u64 \<Rightarrow> bool" where
  "hw_mapped s r va \<longleftrightarrow> list_all (\<lambda>e. e AND PageFlags_Present \<noteq> 0) (walk_entries s r va)"

lemma low_flag:
  assumes "e AND 0xff = (flags OR PageFlags_Present) AND 0xff"
  shows "e AND PageFlags_Present \<noteq> 0" "flags AND PageFlags_Write \<noteq> 0 \<Longrightarrow> e AND PageFlags_Write \<noteq> 0"
proof -
  have *: "x AND PageFlags_Write = (x AND 0xff) AND PageFlags_Write" "x AND PageFlags_Present = (x AND 0xff) AND PageFlags_Present" for x
    by (simp_all add: PageFlags_Write_def PageFlags_Present_def and.assoc)
  show "e AND PageFlags_Present \<noteq> 0"
    unfolding *(2) [of e] assms by (simp add: PageFlags_Present_def bit.conj_disj_distrib2)
  show "e AND PageFlags_Write \<noteq> 0" if "flags AND PageFlags_Write \<noteq> 0"
    using that unfolding *(1) [of e] assms *(1) [symmetric]
    by (simp add: PageFlags_Present_def PageFlags_Write_def bit.conj_disj_distrib2)
qed

lemma walk_entries_after:
  assumes "entries_after r page frame flags s s'"
  shows "list_all2 (\<lambda>e' e. e' AND 0xff = (flags OR PageFlags_Present) AND 0xff \<or> e' = e \<and> \<not> same_page va page)
    (walk_entries s' r va) (walk_entries s r va)"
proof -
  have step: "tree_entry s' r (take k (page_path va)) ((page_path va @ [table_index 12 va]) ! k) AND 0xff = (flags OR PageFlags_Present) AND 0xff \<or>
      tree_entry s' r (take k (page_path va)) ((page_path va @ [table_index 12 va]) ! k)
        = tree_entry s r (take k (page_path va)) ((page_path va @ [table_index 12 va]) ! k) \<and> \<not> same_page va page"
    if "k \<in> {0, 1, 2, 3}" for k
    using assms [unfolded entries_after_def, rule_format, of "take k (page_path va)" "(page_path va @ [table_index 12 va]) ! k"] that
      flagged_flags [of frame flags]
    by (auto simp: page_path_def same_page_iff numeral_2_eq_2 numeral_3_eq_3 split: if_splits)
  show ?thesis using step [of 0] step [of 1] step [of 2] step [of 3] by (simp add: walk_entries_def)
qed

text \<open>Mapping one page without the \<^verbatim>\<open>Write\<close> flag takes the processor's write permission
  from every page that shares its entry of the root table, the \<open>2 ^ 27\<close> pages of a 512 GiB
  region: the loop calls \<^verbatim>\<open>set_child_flags\<close>, which clears the flags of the upper entries, where
  the comment above the call says that they are appended to.\<close>

lemma readonly_mapping_protects_neighbours:
  fixes s :: "'z frame_state_scheme"
  assumes inv: "tree_inv s r" and flags: "flags AND child_mask = 0"
    and ro: "flags AND PageFlags_Write = 0"
    and free: "missing_nodes s r page \<le> length (free_frames s)"
  shows "\<exists>s'. map_page_to_frame \<lparr>root_node = kernel_physical_to_virtual s r\<rparr> page frame flags s = ret s' \<and>
    (\<forall>va. table_index 39 va = table_index 39 page \<longrightarrow> \<not> hw_writable s' r va)"
proof -
  from map_page_to_frame_tree [OF inv flags free, of frame]
  obtain s' where s': "map_page_to_frame \<lparr>root_node = kernel_physical_to_virtual s r\<rparr> page frame flags s = ret s'"
    and e: "entries_after r page frame flags s s'"
    by blast
  let ?e = "tree_entry s' r [] (table_index 39 page)"
  have "?e AND 0xff = (flags OR PageFlags_Present) AND 0xff"
    using e [unfolded entries_after_def, rule_format, of "[]" "table_index 39 page"]
    by (simp add: page_path_def)
  moreover have "x AND PageFlags_Write = (x AND 0xff) AND PageFlags_Write" for x
    by (simp add: PageFlags_Write_def and.assoc)
  ultimately have "?e AND PageFlags_Write = (flags OR PageFlags_Present) AND PageFlags_Write"
    by metis
  also have "\<dots> = 0"
    using ro by (simp add: bit.conj_disj_distrib2 PageFlags_Write_def PageFlags_Present_def)
  finally have "\<not> hw_writable s' r va" if "table_index 39 va = table_index 39 page" for va
    using that by (simp add: hw_writable_def walk_entries_def page_path_def)
  then show ?thesis using s' by blast
qed

section \<open>An example\<close>

text \<open>Three free frames, and an empty tree at frame \<open>0x5000\<close>.\<close>

definition example_frames :: frame_state where
  "example_frames = example_boot\<lparr>
     mem := write_u64 0x1000 0x2000 (write_u64 0x1008 0x3000 (write_u64 0x1010 0x4000 (\<lambda>_. 0))),
     free_stack := \<lparr>buffer = \<lparr>m_stack = 0x1000, m_maxSize = 3, m_size = 3\<rparr>, is_present = True\<rparr>\<rparr>"

definition example_tree :: frame_state where
  "example_tree = snd (PageTree_init (kernel_physical_to_virtual example_frames 0x5000) example_frames)"

lemma example_free_frames: "free_frames example_frames = [0x4000, 0x3000, 0x2000]"
  by (simp add: free_frames_def example_frames_def Optional_deref_def stack_contents_def slot_def
      load64_def example_boot_simps upt_rec sep8_def)

lemma example_apart: "frames_apart example_frames 0x5000"
  unfolding frames_apart_def example_free_frames
  by (simp add: frame_inv_def stack_inv_def Optional_deref_def example_frames_def
      example_boot_simps node_frame_def off_stack_def)

lemmas example_tree_facts = PageTree_init_tree [OF example_apart, folded example_tree_def]

lemma example_missing: "missing_nodes example_tree 0x5000 va = 3"
  using example_tree_facts(4) by (simp add: missing_nodes_def page_path_def del: node_at.simps(2))

abbreviation example_root :: PageTree where
  "example_root \<equiv> \<lparr>root_node = kernel_physical_to_virtual example_tree 0x5000\<rparr>"

lemma example_same_page: "same_page 0x7123 0x7000" "\<not> same_page 0x8000 0x7000"
  by (simp_all add: same_page_def)

lemma example_untranslated:
  "get_translation example_tree example_root va = ret \<lparr>physical_address = 0, translation_flags = 0\<rparr>"
  using get_translation_entry [OF tree_invD(2) [OF example_tree_facts(1)], of example_tree va]
  by (simp add: page_entry_def example_tree_facts(5))

theorem map_page_to_frame_maps_one_page_witness:
  "\<exists>s'. map_page_to_frame example_root 0x7000 0x9000 PageFlags_Write example_tree = ret s' \<and>
     get_translation s' example_root 0x7123 = ret \<lparr>physical_address = 0x9000, translation_flags = 3\<rparr> \<and>
     get_translation s' example_root 0x8000 = ret \<lparr>physical_address = 0, translation_flags = 0\<rparr>"
proof -
  have flags: "PageFlags_Write AND child_mask = 0" by (simp add: PageFlags_Write_def child_mask_def)
  have m: "\<not> length (free_frames example_tree) < missing_nodes example_tree 0x5000 0x7000"
    by (simp add: example_missing example_tree_facts(2) example_free_frames)
  obtain s' where s': "map_page_to_frame example_root 0x7000 0x9000 PageFlags_Write example_tree = ret s'"
    "\<And>va. get_translation s' example_root va =
        (if same_page va 0x7000
         then ret \<lparr>physical_address = 0x9000 AND child_mask,
           translation_flags = (PageFlags_Write OR PageFlags_Present) AND 0xff\<rparr>
         else get_translation example_tree example_root va)"
    using map_page_to_frame_maps_one_page [where page = "0x7000" and frame = "0x9000", OF example_tree_facts(1) flags] m
    by auto
  show ?thesis
    using s'(1) s'(2) [of "0x7123"] s'(2) [of "0x8000"] example_same_page
    by (simp add: example_untranslated child_mask_def PageFlags_Write_def PageFlags_Present_def)
qed

lemma readonly_mapping_protects_neighbours_example:
  "\<exists>s'. map_page_to_frame example_root 0x7000 0x9000 PageFlags_None example_tree = ret s' \<and>
     \<not> hw_writable s' 0x5000 0x8000"
proof -
  have h: "PageFlags_None AND child_mask = 0" "PageFlags_None AND PageFlags_Write = 0"
    "missing_nodes example_tree 0x5000 0x7000 \<le> length (free_frames example_tree)"
    by (simp_all add: PageFlags_None_def example_missing example_tree_facts(2) example_free_frames)
  show ?thesis
    using readonly_mapping_protects_neighbours [where frame = "0x9000", OF example_tree_facts(1) h]
    by (auto simp: table_index_def)
qed

end
