(* ===== verification/Paging.thy ===== *)
theory Paging
  imports Page_Tree
begin

text \<open>
  The paging module (\<^verbatim>\<open>paging.cpp\<close>): page arithmetic, runs of mappings in the page tree, the
  boot mappings and the regions of virtual memory that are left for the allocator.
\<close>


section \<open>Data\<close>

record MemoryRegion =
  region_base :: u64
  region_size :: u64

record PageRange =
  first_page :: u64
  last_page :: u64

record Mapping =
  from_virtual :: MemoryRegion
  to_physical :: u64
  mapping_flags :: PageFlags

text \<open>The globals of the paging module: the static \<^verbatim>\<open>page_tree\<close>, the addresses the linker and
  the bootloader give, and the page-table base register that \<^verbatim>\<open>load_ptbr\<close> sets.\<close>

record paging_state = frame_state +
  page_tree :: "PageTree Optional"
  ptbr :: u64
  kernel_physical_base :: u64
  kernel_readonly_start :: u64
  kernel_readonly_end :: u64
  kernel_rw_start :: u64
  kernel_rw_end :: u64

section \<open>Operations\<close>

definition initial_mappings :: "'z paging_state_scheme \<Rightarrow> Mapping list" where
  "initial_mappings s =
     [\<lparr>from_virtual = \<lparr>region_base = 0x1000, region_size = 0x100000000\<rparr>,
       to_physical = 0x1000, mapping_flags = PageFlags_Write\<rparr>,
      \<lparr>from_virtual = \<lparr>region_base = hhdm_offset s, region_size = 0x100000000\<rparr>,
       to_physical = 0, mapping_flags = PageFlags_Write\<rparr>,
      \<lparr>from_virtual = \<lparr>region_base = kernel_readonly_start s,
         region_size = kernel_readonly_end s - kernel_readonly_start s\<rparr>,
       to_physical = kernel_physical_base s, mapping_flags = PageFlags_None\<rparr>,
      \<lparr>from_virtual = \<lparr>region_base = kernel_rw_start s,
         region_size = kernel_rw_end s - kernel_rw_start s\<rparr>,
       to_physical = kernel_physical_base s + (kernel_readonly_end s - kernel_readonly_start s),
       mapping_flags = PageFlags_Write\<rparr>]"

definition unavailable_virtual_memory_ranges :: "'z paging_state_scheme \<Rightarrow> MemoryRegion list" where
  "unavailable_virtual_memory_ranges s =
     [from_virtual (initial_mappings s ! 0),
      \<lparr>region_base = 0x800000000000, region_size = 0xffff000000000000\<rparr>,
      from_virtual (initial_mappings s ! 1),
      from_virtual (initial_mappings s ! 2),
      from_virtual (initial_mappings s ! 3)]"

definition page_floor :: "u64 \<Rightarrow> u64" where
  "page_floor address = address - address mod pageSize"

definition UINT64_MAX :: u64 where
  "UINT64_MAX = 0xffffffffffffffff"

definition page_ceil :: "u64 \<Rightarrow> u64" where
  "page_ceil address =
     (if address mod pageSize = 0 then address
      else if UINT64_MAX - pageSize < address then address
      else page_floor (address + pageSize))"

definition get_page_range :: "u64 \<Rightarrow> u64 \<Rightarrow> PageRange" where
  "get_page_range virtual_base len =
     \<lparr>first_page = page_floor virtual_base,
      last_page = (if page_floor UINT64_MAX - len < virtual_base then page_floor UINT64_MAX
                   else page_ceil (virtual_base + len))\<rparr>"

definition paging_add_mapping ::
  "u64 \<Rightarrow> u64 \<Rightarrow> u64 \<Rightarrow> PageFlags \<Rightarrow> 'z paging_state_scheme \<Rightarrow> 'z paging_state_scheme res" where
  "paging_add_mapping virtual_base physical_base len flags s =
     (let range = get_page_range virtual_base len;
          first_frame = page_floor physical_base
      in res_bind
           (for_up pageSize
             (\<lambda>page (frame, s).
                res_bind (map_page_to_frame (Optional_deref (page_tree s)) page frame flags s)
                  (\<lambda>s. ret (frame + frameSize, s)))
             (first_page range) (last_page range) (first_frame, s))
           (\<lambda>(frame, s). ret s))"

text \<open>The loop of \<^verbatim>\<open>paging_allocate_and_map\<close>, whose test is \<^verbatim>\<open>page != last_page\<close>.\<close>

partial_function (option) allocate_and_map_from ::
  "PageFlags \<Rightarrow> u64 \<Rightarrow> u64 \<Rightarrow> 'z paging_state_scheme \<Rightarrow> 'z paging_state_scheme res" where
  "allocate_and_map_from flags page stop s =
     (if page = stop then ret s
      else res_bind (allocate_frame s) (\<lambda>fs.
           res_bind (paging_add_mapping page (fst fs) pageSize flags (snd fs)) (\<lambda>s.
           allocate_and_map_from flags (page + pageSize) stop s)))"

definition paging_allocate_and_map ::
  "u64 \<Rightarrow> u64 \<Rightarrow> PageFlags \<Rightarrow> 'z paging_state_scheme \<Rightarrow> 'z paging_state_scheme res" where
  "paging_allocate_and_map virtual_base len flags s =
     (let range = get_page_range virtual_base len
      in allocate_and_map_from flags (first_page range) (last_page range) s)"

definition add_initial_mappings :: "'z paging_state_scheme \<Rightarrow> 'z paging_state_scheme res" where
  "add_initial_mappings s0 = res_fold (\<lambda>m s.
     paging_add_mapping (region_base (from_virtual m)) (to_physical m)
       (region_size (from_virtual m)) (mapping_flags m) s) (initial_mappings s0) s0"

text \<open>\<^verbatim>\<open>load_ptbr\<close> is an assembly routine: it writes the register.\<close>

definition paging_init :: "'z paging_state_scheme \<Rightarrow> 'z paging_state_scheme res" where
  "paging_init s =
     res_bind (allocate_frame s) (\<lambda>(pml4_table_frame, s).
     let virtual_pml4_table_frame = kernel_physical_to_virtual s pml4_table_frame;
         (tree, s) = PageTree_init virtual_pml4_table_frame s;
         s = s\<lparr>page_tree := fst (Optional_emplace (\<lambda>_ w. w) tree (page_tree s, ()))\<rparr>
     in res_bind (add_initial_mappings s) (\<lambda>s.
        let s = s\<lparr>ptbr := pml4_table_frame\<rparr>
        in res_bind (free_limine_bootloader_memory s) (\<lambda>(reclaimed_frames, s). ret s)))"

definition paging_num_free_memory_regions :: nat where
  "paging_num_free_memory_regions = 16"

definition kpp_max :: "u64 \<Rightarrow> u64 \<Rightarrow> u64" where
  "kpp_max a b = (if a < b then b else a)"

text \<open>One iteration over the unavailable ranges, on the base of the next free region, the number of
  regions found and the array of 16. The guard is \<^verbatim>\<open>i > size\<close>; a write at index 16, which it lets
  pass, is outside the array and is no update here. There are five ranges, so the index stays
  below 6.\<close>

definition free_region_step ::
  "MemoryRegion \<Rightarrow> u64 \<times> nat \<times> MemoryRegion list \<Rightarrow> (u64 \<times> nat \<times> MemoryRegion list) res" where
  "free_region_step unavailable = (\<lambda>(base, i, free_regions).
     let unavailable_base = region_base unavailable;
         unavailable_end = unavailable_base + region_size unavailable
     in if base \<ge> unavailable_base then ret (kpp_max base unavailable_end, i, free_regions)
        else if i > length free_regions
        then kernel_panic ''exceeded number of supported free regions (16)\<newline>''
        else ret (unavailable_end, i + 1,
          free_regions[i := \<lparr>region_base = base, region_size = unavailable_base - base\<rparr>]))"

definition paging_get_initial_free_regions :: "'z paging_state_scheme \<Rightarrow> MemoryRegion list res" where
  "paging_get_initial_free_regions s =
     (let free_regions = replicate paging_num_free_memory_regions \<lparr>region_base = 0, region_size = 0\<rparr>
      in res_bind
           (res_fold free_region_step (unavailable_virtual_memory_ranges s) (0x1000, 0, free_regions))
           (\<lambda>(base, i, free_regions). ret free_regions))"

definition paging_get_translation :: "'z paging_state_scheme \<Rightarrow> u64 \<Rightarrow> PageTranslation res" where
  "paging_get_translation s virtual_address =
     get_translation s (Optional_deref (page_tree s)) virtual_address"


section \<open>Rounding\<close>

lemma unat_pageSize [simp]: "unat pageSize = 4096" and pageSize_pos [simp]: "0 < pageSize"
  by (simp_all add: pageSize_def)

lemma unat_page_floor: "unat (page_floor a) = 4096 * (unat a div 4096)"
proof -
  have "unat (a mod pageSize) = unat a mod 4096" by (simp add: unat_mod)
  moreover have "a mod pageSize \<le> a" by (simp add: word_le_nat_alt unat_mod)
  ultimately have "unat (a - a mod pageSize) = unat a - unat a mod 4096" by (metis unat_sub)
  then show ?thesis by (simp only: page_floor_def minus_mod_eq_mult_div)
qed

lemma unat_UINT64_MAX: "unat UINT64_MAX = 2 ^ 64 - 1"
  by (simp add: UINT64_MAX_def)

lemma page_floor_max: "page_floor UINT64_MAX = 0xfffffffffffff000"
  by (simp add: word_unat_eq_iff unat_page_floor unat_UINT64_MAX)

lemma ceil_multiple:
  fixes x :: nat assumes "x mod 4096 \<noteq> 0"
  shows "4096 * ((x + 4096) div 4096) = 4096 * ((x + 4095) div 4096)"
proof -
  define q m where "q = x div 4096" and "m = x mod 4096"
  then have x: "x = m + 4096 * q" by simp
  have m: "0 < m" "m < 4096" using assms by (simp_all add: m_def)
  then obtain m' where m': "m = Suc m'" using gr0_implies_Suc by blast
  have e: "x + 4095 = m' + 4096 * Suc q" "x + 4096 = m + 4096 * Suc q" using x m' by simp_all
  have "(x + 4095) div 4096 = Suc q" unfolding e(1) using m m' by (subst div_mult_self2) simp_all
  moreover have "(x + 4096) div 4096 = Suc q" unfolding e(2) using m by (subst div_mult_self2) simp_all
  ultimately show ?thesis by simp
qed

lemma unat_page_ceil:
  "unat (page_ceil a) =
    (if unat a \<le> 2 ^ 64 - 4096 then 4096 * ((unat a + 4095) div 4096) else unat a)"
proof -
  have mod: "a mod pageSize = 0 \<longleftrightarrow> unat a mod 4096 = 0"
    by (metis unat_mod unat_pageSize unat_eq_0)
  consider (aligned) "unat a mod 4096 = 0" | (top) "unat a mod 4096 \<noteq> 0" "2 ^ 64 - 4097 < unat a"
    | (up) "unat a mod 4096 \<noteq> 0" "unat a \<le> 2 ^ 64 - 4097" by linarith
  then show ?thesis
  proof cases
    case aligned
    then obtain q where q: "unat a = 4096 * q" by auto
    have "(4096 * q + 4095) div 4096 = q" by simp
    then show ?thesis using aligned mod q by (simp add: page_ceil_def)
  next
    case top
    have "unat a \<noteq> 2 ^ 64 - 4096" using top(1) by auto
    moreover have "UINT64_MAX - pageSize < a"
      using top(2) by (simp add: word_less_nat_alt UINT64_MAX_def pageSize_def)
    ultimately show ?thesis using top mod by (simp add: page_ceil_def)
  next
    case up
    have "\<not> UINT64_MAX - pageSize < a"
      using up(2) by (simp add: word_less_nat_alt UINT64_MAX_def pageSize_def)
    moreover have "unat (a + pageSize) = unat a + 4096"
      using up(2) unat_add_no_wrap [of a pageSize] by simp
    ultimately show ?thesis
      using up mod ceil_multiple [OF up(1)] by (simp add: page_ceil_def unat_page_floor)
  qed
qed

lemma get_page_range_bounds:
  assumes "unat len \<le> 2 ^ 64 - 4096"
  shows "unat (first_page (get_page_range base len)) = 4096 * (unat base div 4096)"
    and "unat (last_page (get_page_range base len)) =
      (if unat base + unat len \<le> 2 ^ 64 - 4096 then 4096 * ((unat base + unat len + 4095) div 4096)
       else 2 ^ 64 - 4096)"
proof -
  show "unat (first_page (get_page_range base len)) = 4096 * (unat base div 4096)"
    by (simp add: get_page_range_def unat_page_floor)
  have "unat (page_floor UINT64_MAX - len) = 2 ^ 64 - 4096 - unat len"
    using assms by (simp add: page_floor_max unat_sub word_le_nat_alt)
  then have c: "page_floor UINT64_MAX - len < base \<longleftrightarrow> \<not> unat base + unat len \<le> 2 ^ 64 - 4096"
    using assms by (auto simp: word_less_nat_alt)
  show "unat (last_page (get_page_range base len)) =
      (if unat base + unat len \<le> 2 ^ 64 - 4096 then 4096 * ((unat base + unat len + 4095) div 4096)
       else 2 ^ 64 - 4096)"
  proof (cases "unat base + unat len \<le> 2 ^ 64 - 4096")
    case True
    then have "unat (base + len) = unat base + unat len" by (intro unat_add_no_wrap) simp
    then show ?thesis using True c by (simp add: get_page_range_def unat_page_ceil)
  next
    case False
    then show ?thesis using c by (simp add: get_page_range_def page_floor_max)
  qed
qed


lemma round_up_bounds:
  fixes x :: nat shows "x \<le> 4096 * ((x + 4095) div 4096)" "4096 * ((x + 4095) div 4096) < x + 4096"
  using div_mult_mod_eq [of "x + 4095" 4096] mod_less_divisor [of 4096 "x + 4095"] by linarith+



section \<open>Nodes that a run of mappings needs\<close>

definition page_nodes :: "u64 \<Rightarrow> u16 list list" where
  "page_nodes page = map (\<lambda>k. take k (page_path page)) [1, 2, 3]"

text \<open>The nodes that lead to a page and do not exist.\<close>

definition missing_paths :: "'z machine_scheme \<Rightarrow> u64 \<Rightarrow> u64 \<Rightarrow> u16 list set" where
  "missing_paths s r page = set (filter (\<lambda>q. node_at s r q = None) (page_nodes page))"

lemma page_nodes_path:
  "page_nodes page = [[table_index 39 page], [table_index 39 page, table_index 30 page], page_path page]"
  by (simp add: page_nodes_def page_path_def numeral_2_eq_2 numeral_3_eq_3)

lemma missing_nodes_card: "missing_nodes s r page = card (missing_paths s r page)"
proof -
  have "distinct (page_nodes page)" by (simp add: page_nodes_path page_path_def)
  then have "card (missing_paths s r page) = length (filter (\<lambda>q. node_at s r q = None) (page_nodes page))"
    unfolding missing_paths_def by (intro distinct_card distinct_filter)
  also have "\<dots> = missing_nodes s r page"
    by (simp add: page_nodes_path missing_nodes_def page_path_def del: node_at.simps)
  finally show ?thesis by simp
qed

lemma on_path_page_nodes:
  "on_path [] (page_path page) q j \<longleftrightarrow> q @ [j] \<in> set (page_nodes page)"
  by (auto simp: page_nodes_path page_path_def append_eq_Cons_conv)

lemma node_at_prefix: "node_at s r (p @ q) \<noteq> None \<Longrightarrow> node_at s r p \<noteq> None"
  by (cases "node_at s r p") (simp_all add: node_at_append)

lemma page_nodes_exist:
  assumes "node_at s r (page_path page) \<noteq> None" and "q \<in> set (page_nodes page)"
  shows "node_at s r q \<noteq> None"
proof -
  obtain k where "q = take k (page_path page)" using assms(2) unfolding page_nodes_def set_map by blast
  then show ?thesis using assms(1) node_at_prefix [of s r q "drop k (page_path page)"] by simp
qed


section \<open>A run of mappings\<close>

text \<open>The state of the module once the tree exists: its root node is the frame \<open>r\<close>.\<close>

definition paging_inv :: "'z paging_state_scheme \<Rightarrow> u64 \<Rightarrow> bool" where
  "paging_inv s r \<longleftrightarrow> tree_inv s r \<and>
     page_tree s = \<lparr>buffer = \<lparr>root_node = kernel_physical_to_virtual s r\<rparr>, is_present = True\<rparr>"

lemma same_globals_paging:
  assumes "same_globals s (s' :: 'z paging_state_scheme)"
  shows "page_tree s' = page_tree s" "ptbr s' = ptbr s"
proof -
  have s': "s' = s\<lparr>mem := mem s', free_stack := free_stack s'\<rparr>"
    using assms by (simp add: same_globals_def)
  show "page_tree s' = page_tree s" by (subst s') simp
  show "ptbr s' = ptbr s" by (subst s') simp
qed

lemma paging_inv_globals:
  assumes "paging_inv s r" and "same_globals s s'" and "tree_inv s' r" shows "paging_inv s' r"
  using assms
  by (simp add: paging_inv_def same_globals_paging same_globals_simps kernel_physical_to_virtual_def)

definition map_page ::
  "u64 \<times> u64 \<times> PageFlags \<Rightarrow> 'z paging_state_scheme \<Rightarrow> 'z paging_state_scheme res" where
  "map_page = (\<lambda>(page, frame, flags) s.
     map_page_to_frame (Optional_deref (page_tree s)) page frame flags s)"

text \<open>The abstract effect of a run of calls \<open>(page, frame, flags)\<close>: an address takes the entry of
  the last mapping of its page.\<close>

fun last_entry :: "u64 \<Rightarrow> (u64 \<times> u64 \<times> PageFlags) list \<Rightarrow> u64 option" where
  "last_entry va [] = None"
| "last_entry va ((page, frame, flags) # run) =
     (case last_entry va run of Some e \<Rightarrow> Some e
      | None \<Rightarrow> if same_page va page then Some (flagged frame flags) else None)"

definition flags_ok :: "(u64 \<times> u64 \<times> PageFlags) list \<Rightarrow> bool" where
  "flags_ok run \<longleftrightarrow> list_all (\<lambda>(page, frame, flags). flags AND child_mask = 0) run"

definition needed :: "'z machine_scheme \<Rightarrow> u64 \<Rightarrow> u64 list \<Rightarrow> nat" where
  "needed s r pages = card (\<Union>page \<in> set pages. missing_paths s r page)"

text \<open>A frame whose contents are data: no node, not free and apart from the free stack's array.\<close>

definition data_frame :: "'z frame_state_scheme \<Rightarrow> u64 \<Rightarrow> u64 \<Rightarrow> bool" where
  "data_frame s r f \<longleftrightarrow> node_frame f \<and> off_stack s f \<and> f \<notin> set (free_frames s) \<and> f \<notin> tree_nodes s r"

lemma data_frame_grows:
  assumes "data_frame s r f" "tree_grows s s' r" "set (free_frames s') \<subseteq> set (free_frames s)"
  shows "data_frame s' r f"
  using assms unfolding data_frame_def tree_grows_def by auto

lemma data_frame_bytes:
  assumes inv: "tree_inv s r" and f: "data_frame s r f" and "tree_grows s s' r" "in_frame f a"
  shows "mem s' a = mem s a"
proof (rule ccontr)
  assume "mem s' a \<noteq> mem s a"
  then obtain n where n: "n \<in> tree_nodes s r \<union> set (free_frames s)" "in_frame n a"
    using assms(3) unfolding tree_grows_def by blast
  have "node_frame n"
    using n(1) inv node_at_frame [OF tree_invD(2) [OF inv]] unfolding tree_nodes_def tree_inv_def by blast
  moreover have "n \<noteq> f" using n(1) f unfolding data_frame_def by blast
  ultimately show False
    using node_frames_apart [of n f] f n(2) assms(4) by (auto simp: data_frame_def in_frame_def)
qed

text \<open>The processor can read and write the page.\<close>

definition hw_usable :: "'z machine_scheme \<Rightarrow> u64 \<Rightarrow> u64 \<Rightarrow> bool" where
  "hw_usable s r va \<longleftrightarrow> hw_mapped s r va \<and> hw_writable s r va"

lemma hw_usable_after:
  assumes "entries_after r page frame flags s s'" "flags AND PageFlags_Write \<noteq> 0" "same_page va page \<or> hw_usable s r va"
  shows "hw_usable s' r va"
proof -
  have "list_all2 (\<lambda>e' e. (e' AND PageFlags_Present \<noteq> 0 \<and> e' AND PageFlags_Write \<noteq> 0) \<or> e' = e \<and> \<not> same_page va page)
      (walk_entries s' r va) (walk_entries s r va)"
    using walk_entries_after [OF assms(1), of va] low_flag assms(2) by (elim list_all2_mono) blast
  then show ?thesis
    using assms(3) by (auto simp: hw_usable_def hw_mapped_def hw_writable_def list_all2_conv_all_nth list_all_length)
qed

lemma map_page_ok:
  fixes s :: "'z paging_state_scheme"
  assumes inv: "paging_inv s r" and flags: "flags AND child_mask = 0"
    and free: "card (missing_paths s r page) \<le> length (free_frames s)"
  shows "\<exists>s'. map_page (page, frame, flags) s = ret s' \<and> paging_inv s' r \<and> same_globals s s' \<and>
    free_frames s' = drop (card (missing_paths s r page)) (free_frames s) \<and>
    (\<forall>p. missing_paths s' r p = missing_paths s r p - set (page_nodes page)) \<and>
    (\<forall>va. page_entry s' r va =
      (if same_page va page then flagged frame flags else page_entry s r va)) \<and>
    tree_grows s s' r \<and> entries_after r page frame flags s s'"
proof -
  have inv': "tree_inv s r" using inv by (simp add: paging_inv_def)
  obtain s' where s': "map_page (page, frame, flags) s = ret s'" "tree_inv s' r" "same_globals s s'"
    "node_at s' r (page_path page) \<noteq> None"
    "free_frames s' = drop (card (missing_paths s r page)) (free_frames s)" "tree_grows s s' r"
    and e: "entries_after r page frame flags s s'"
    using map_page_to_frame_tree [OF inv' flags, of page frame] free inv
    by (auto simp: missing_nodes_card map_page_def paging_inv_def Optional_deref_def)
  have nodes: "node_at s' r q = None \<longleftrightarrow> node_at s r q = None \<and> q \<notin> set (page_nodes page)"
    if q: "q \<in> set (page_nodes p)" for p q
  proof -
    obtain q' j where qj: "q = q' @ [j]" "indices q'" "length q' < 3" "j < 512"
      using q by (auto simp: page_nodes_path page_path_def intro: that)
    have ne: "q' \<noteq> page_path page" using qj(3) by auto
    have "node_at s' r q = node_at s r q" if "q \<notin> set (page_nodes page)"
      using e [unfolded entries_after_def, rule_format, OF qj(2,4)] that qj(1) ne
      by (simp add: node_at_snoc on_path_page_nodes)
    then show ?thesis using page_nodes_exist [OF s'(4), of q] by (cases "q \<in> set (page_nodes page)") auto
  qed
  then have "missing_paths s' r p = missing_paths s r p - set (page_nodes page)" for p
    by (auto simp: missing_paths_def)
  then show ?thesis using s' e paging_inv_globals [OF inv s'(3,2)] entries_after_page [OF e] by blast
qed


lemma needed_Cons:
  fixes s s' :: "'z machine_scheme"
  assumes "\<forall>p. missing_paths s' r p = missing_paths s r p - set (page_nodes page)"
  shows "needed s r (page # pages) = card (missing_paths s r page) + needed s' r pages"
proof -
  let ?A = "missing_paths s r page" and ?B = "\<Union>p \<in> set pages. missing_paths s r p"
  have "?B - ?A = (\<Union>p \<in> set pages. missing_paths s' r p)"
    using assms by (auto simp: missing_paths_def)
  moreover have "card (?A \<union> ?B) = card ?A + card (?B - ?A)"
    by (subst card_Un_disjoint [symmetric]) (auto simp: missing_paths_def)
  ultimately show ?thesis by (simp add: needed_def)
qed

text \<open>A run of mappings needs exactly the nodes its pages miss; with fewer free frames it panics,
  with enough it returns, and every address takes the entry of the last mapping of its page.\<close>

definition run_result ::
  "u64 \<Rightarrow> (u64 \<times> u64 \<times> PageFlags) list \<Rightarrow> 'z paging_state_scheme \<Rightarrow> 'z paging_state_scheme res \<Rightarrow> bool" where
  "run_result r run s result \<longleftrightarrow>
     (if length (free_frames s) < needed s r (map fst run)
      then result = kernel_panic ''ran out of physical memory to allocate!''
      else \<exists>s'. result = ret s' \<and> paging_inv s' r \<and> same_globals s s' \<and>
        free_frames s' = drop (needed s r (map fst run)) (free_frames s) \<and>
        (\<forall>va. page_entry s' r va =
          (case last_entry va run of Some e \<Rightarrow> e | None \<Rightarrow> page_entry s r va)))"

lemma run_result_Cons:
  fixes s s1 :: "'z paging_state_scheme"
  assumes "map_page (page, frame, flags) s = ret s1" "same_globals s s1"
    "free_frames s1 = drop (card (missing_paths s r page)) (free_frames s)"
    "card (missing_paths s r page) \<le> length (free_frames s)"
    "\<forall>p. missing_paths s1 r p = missing_paths s r p - set (page_nodes page)"
    "\<forall>va. page_entry s1 r va = (if same_page va page then flagged frame flags else page_entry s r va)"
    and rest: "run_result r run s1 (res_fold map_page run s1)"
  shows "run_result r ((page, frame, flags) # run) s
    (res_fold map_page ((page, frame, flags) # run) s)"
proof -
  have n: "needed s r (map fst ((page, frame, flags) # run))
      = card (missing_paths s r page) + needed s1 r (map fst run)"
    using needed_Cons [OF assms(5)] by simp
  then have less: "length (free_frames s) < needed s r (map fst ((page, frame, flags) # run)) \<longleftrightarrow>
      length (free_frames s1) < needed s1 r (map fst run)"
    using assms(3,4) by auto
  show ?thesis
  proof (cases "length (free_frames s1) < needed s1 r (map fst run)")
    case True
    then show ?thesis using rest less assms(1) by (simp add: run_result_def)
  next
    case False
    then obtain s' where s': "res_fold map_page run s1 = ret s'" "paging_inv s' r" "same_globals s1 s'"
      "free_frames s' = drop (needed s1 r (map fst run)) (free_frames s1)"
      "\<forall>va. page_entry s' r va = (case last_entry va run of Some e \<Rightarrow> e | None \<Rightarrow> page_entry s1 r va)"
      using rest by (auto simp: run_result_def)
    have "page_entry s' r va = (case last_entry va ((page, frame, flags) # run) of
        Some e \<Rightarrow> e | None \<Rightarrow> page_entry s r va)" for va
      using s'(5) assms(6) by (simp split: option.splits)
    moreover have "same_globals s s'" by (rule same_globals_trans [OF assms(2) s'(3)])
    ultimately show ?thesis
      using False less s' assms(1,3) n by (auto simp: run_result_def add.commute)
  qed
qed

lemma map_pages:
  fixes s :: "'z paging_state_scheme"
  assumes "paging_inv s r" and "flags_ok run"
  shows "run_result r run s (res_fold map_page run s)"
  using assms
proof (induction run arbitrary: s)
  case Nil
  then show ?case by (simp add: run_result_def needed_def)
next
  case (Cons m run)
  obtain page frame flags where m: "m = (page, frame, flags)" by (cases m)
  have flags: "flags AND child_mask = 0" and ok: "flags_ok run"
    using Cons.prems(2) by (simp_all add: m flags_ok_def)
  show ?case
  proof (cases "length (free_frames s) < card (missing_paths s r page)")
    case True
    have "card (missing_paths s r page) \<le> needed s r (map fst (m # run))"
      unfolding needed_def by (rule card_mono) (auto simp: missing_paths_def m)
    moreover have "map_page m s = kernel_panic ''ran out of physical memory to allocate!''"
      using map_page_to_frame_panics [OF _ flags, of s r page frame] Cons.prems(1) True
      by (simp add: m map_page_def paging_inv_def Optional_deref_def missing_nodes_card)
    ultimately show ?thesis using True by (simp add: run_result_def)
  next
    case False
    then have le: "card (missing_paths s r page) \<le> length (free_frames s)" by simp
    show ?thesis
      using map_page_ok [OF Cons.prems(1) flags le, of frame] Cons.IH [OF _ ok] le
      unfolding m by (metis run_result_Cons)
  qed
qed


section \<open>Adding a mapping\<close>

text \<open>The calls that \<^verbatim>\<open>paging_add_mapping\<close> makes.\<close>

definition region_run :: "u64 \<Rightarrow> u64 \<Rightarrow> u64 \<Rightarrow> PageFlags \<Rightarrow> (u64 \<times> u64 \<times> PageFlags) list" where
  "region_run base phys len flags =
     (let range = get_page_range base len
      in map (\<lambda>k. (first_page range + of_nat k * pageSize, page_floor phys + of_nat k * frameSize, flags))
           [0..<(unat (last_page range) - unat (first_page range)) div 4096])"

lemma fold_with_frames:
  "res_fold (\<lambda>page (frame, s). res_bind (map_page (page, frame, flags) s) (\<lambda>s. ret (frame + step, s)))
      (map g [m..<n]) (frame + of_nat m * step, s)
    = res_bind (res_fold map_page (map (\<lambda>k. (g k, frame + of_nat k * step, flags)) [m..<n]) s)
        (\<lambda>s. ret (frame + of_nat (max m n) * step, s))"
proof (induction "n - m" arbitrary: m s)
  case 0
  then show ?case by (simp add: max_def)
next
  case (Suc d)
  then have lt: "m < n" by simp
  then have "[m..<n] = m # [Suc m..<n]" "max m n = max (Suc m) n" by (simp_all add: upt_conv_Cons)
  moreover have "d = n - Suc m" using Suc.hyps(2) by simp
  moreover have "frame + of_nat m * step + step = frame + of_nat (Suc m) * step"
    by (simp add: algebra_simps)
  ultimately show ?case
    using Suc.hyps(1) [of "Suc m"]
    by (cases "map_page (g m, frame + of_nat m * step, flags) s" rule: res_cases) (simp_all add: add.assoc)
qed

lemma region_pages:
  assumes "unat len \<le> 2 ^ 64 - 4096"
  shows "count_up pageSize (first_page (get_page_range base len)) (last_page (get_page_range base len))
    = map (\<lambda>k. first_page (get_page_range base len) + of_nat k * pageSize)
        [0..<(unat (last_page (get_page_range base len))
          - unat (first_page (get_page_range base len))) div 4096]"
proof -
  let ?l = "unat (last_page (get_page_range base len))" and ?f = "unat (first_page (get_page_range base len))"
  have "4096 dvd ?l" "4096 dvd ?f"
    using get_page_range_bounds [OF assms, of base] by (auto split: if_splits)
  then obtain d where "?l - ?f = 4096 * d" by (meson dvd_diff_nat dvdE)
  then have "(?l - ?f + 4095) div 4096 = (?l - ?f) div 4096" by simp
  then show ?thesis by (simp add: count_up_def add.commute)
qed

lemma last_page_bound:
  assumes "unat len \<le> 2 ^ 64 - 4096"
  shows "unat (last_page (get_page_range base len)) + unat pageSize \<le> 2 ^ 64"
proof -
  have "4096 * ((x + 4095) div 4096) \<le> 2 ^ 64 - 4096" if "x \<le> 2 ^ 64 - 4096" for x :: nat
  proof -
    have "(x + 4095) div 4096 \<le> (2 ^ 64 - 4096 + 4095) div 4096" using that by (intro div_le_mono) simp
    then show ?thesis by simp
  qed
  then show ?thesis using get_page_range_bounds(2) [OF assms, of base] by auto
qed

lemma paging_add_mapping_run:
  assumes "unat len \<le> 2 ^ 64 - 4096"
  shows "paging_add_mapping base phys len flags s = res_fold map_page (region_run base phys len flags) s"
proof -
  have body: "(\<lambda>page (frame, s). res_bind (map_page_to_frame (Optional_deref (page_tree s)) page frame flags s)
        (\<lambda>s. ret (frame + frameSize, s)))
      = (\<lambda>page (frame, s). res_bind (map_page (page, frame, flags) s) (\<lambda>s. ret (frame + frameSize, s)))"
    by (simp add: map_page_def)
  show ?thesis
    unfolding paging_add_mapping_def Let_def body for_up_eq_fold [OF pageSize_pos last_page_bound [OF assms]]
      region_pages [OF assms] region_run_def
    using fold_with_frames [of flags frameSize _ 0 _ "page_floor phys" s]
    by (simp add: res_bind_assoc)
qed

section \<open>Pages as numbers\<close>

lemma same_page_number:
  "same_page a b \<longleftrightarrow> unat a div 4096 mod 2 ^ 36 = unat b div 4096 mod 2 ^ 36"
proof -
  have *: "unat (drop_bit 12 (take_bit 48 x)) = unat x div 4096 mod 2 ^ 36" for x :: u64
  proof -
    have "unat x mod (4096 * 2 ^ 36) = 4096 * (unat x div 4096 mod 2 ^ 36) + unat x mod 4096"
      by (rule mod_mult2_eq)
    then have "unat x mod 2 ^ 48 div 4096 = unat x div 4096 mod 2 ^ 36" by simp
    then show ?thesis
      unfolding unat_drop_bit_eq unsigned_take_bit_eq by (simp add: take_bit_eq_mod drop_bit_eq_div)
  qed
  show ?thesis by (simp only: same_page_def word_unat_eq_iff *)
qed

lemma last_entry_None_iff:
  "last_entry va run = None \<longleftrightarrow> (\<forall>(p, f, fl) \<in> set run. \<not> same_page va p)"
  by (induction va run rule: last_entry.induct) (auto split: option.splits)

lemma last_entry_in:
  "last_entry va run = Some e \<Longrightarrow> \<exists>p f fl. (p, f, fl) \<in> set run \<and> same_page va p \<and> e = flagged f fl"
  by (induction va run rule: last_entry.induct) (auto split: option.splits if_splits)

lemma last_entry_Some:
  assumes "(p, f, fl) \<in> set run" "same_page va p"
    and "\<And>p' f' fl'. (p', f', fl') \<in> set run \<Longrightarrow> same_page va p' \<Longrightarrow> f' = f \<and> fl' = fl"
  shows "last_entry va run = Some (flagged f fl)"
proof -
  obtain e where e: "last_entry va run = Some e"
    using last_entry_None_iff [of va run] assms(1,2) by fastforce
  then show ?thesis using last_entry_in [OF e] assms(3) by auto
qed

lemma add_mod_inject:
  fixes a j k m :: nat
  assumes "(a + j) mod m = (a + k) mod m" "j < m" "k < m" shows "j = k"
proof -
  have *: "x = y" if "(a + y) mod m = (a + x) mod m" "y < m" "x \<le> y" for x y
  proof -
    have "m dvd y - x" using that mod_eq_dvd_iff_nat [of "a + x" "a + y" m] by simp
    then show "x = y" using that(2,3) by (auto dest: dvd_imp_le)
  qed
  show ?thesis using * [of j k] * [of k j] assms by (metis nat_le_linear)
qed

text \<open>The pages of a region of at most \<open>2 ^ 48\<close> bytes are all different.\<close>

lemma region_run_entry:
  assumes len: "unat len \<le> 2 ^ 64 - 4096"
    and short: "unat (last_page (get_page_range base len))
      \<le> unat (first_page (get_page_range base len)) + 2 ^ 48"
  defines "first \<equiv> first_page (get_page_range base len)"
    and "last' \<equiv> last_page (get_page_range base len)"
  shows "first \<le> va \<Longrightarrow> va < last' \<Longrightarrow> last_entry va (region_run base phys len flags)
      = Some (flagged (page_floor phys + (page_floor va - first)) flags)"
    and "(\<And>p. first \<le> p \<Longrightarrow> p < last' \<Longrightarrow> \<not> same_page va p) \<Longrightarrow>
      last_entry va (region_run base phys len flags) = None"
proof -
  let ?run = "region_run base phys len flags"
  define F n where "F = unat first div 4096" and "n = (unat last' - unat first) div 4096"
  have al: "4096 dvd unat first" "4096 dvd unat last'"
    using get_page_range_bounds [OF len, of base] by (auto simp: first_def last'_def split: if_splits)
  then have F: "unat first = 4096 * F" by (simp add: F_def)
  have n: "unat last' - unat first = 4096 * n" using al by (simp add: n_def dvd_diff_nat)
  have bound: "unat last' + 4096 \<le> 2 ^ 64"
    using last_page_bound [OF len, of base] by (simp add: last'_def)
  have page: "unat (first + of_nat k * pageSize) = 4096 * (F + k)" if "k < n" for k
  proof -
    have "4096 * k < 2 ^ 64" "4096 * F + 4096 * k < 2 ^ 64" using that n F bound by auto
    then show ?thesis
      using unat_add_no_wrap [of first "of_nat (4096 * k)"] unat_of_nat_small [of "4096 * k"] F
      by (simp add: pageSize_def mult.commute)
  qed
  have run: "?run = map (\<lambda>k. (first + of_nat k * pageSize, page_floor phys + of_nat k * frameSize, flags)) [0..<n]"
    by (simp add: region_run_def first_def last'_def n_def Let_def)
  have n48: "n \<le> 2 ^ 36" using short n F by (simp add: first_def last'_def)
  {
    assume "first \<le> va" "va < last'"
    then have va: "unat first \<le> unat va" "unat va < unat last'"
      by (simp_all add: word_le_nat_alt word_less_nat_alt)
    define k where "k = unat va div 4096 - F"
    have vF: "F \<le> unat va div 4096" using va(1) by (simp add: F_def div_le_mono)
    have "unat va div 4096 < F + n"
      using va n F by (intro less_mult_imp_div_less) auto
    then have k: "k < n" "unat va div 4096 = F + k" using vF by (auto simp: k_def)
    have "page_floor va = first + of_nat k * pageSize"
      by (simp add: word_unat_eq_iff unat_page_floor k(2) page [OF k(1)])
    then have fr: "page_floor va - first = of_nat k * frameSize" by (simp add: pageSize_def frameSize_def)
    show "last_entry va ?run = Some (flagged (page_floor phys + (page_floor va - first)) flags)"
      unfolding fr
    proof (rule last_entry_Some)
      show "(first + of_nat k * pageSize, page_floor phys + of_nat k * frameSize, flags) \<in> set ?run"
        using k(1) by (auto simp: run)
      show "same_page va (first + of_nat k * pageSize)"
        by (simp add: same_page_number page [OF k(1)] k(2))
      fix p f fl assume "(p, f, fl) \<in> set ?run" and same: "same_page va p"
      then obtain j where j: "j < n" "p = first + of_nat j * pageSize"
        "f = page_floor phys + of_nat j * frameSize" "fl = flags" by (auto simp: run)
      have "(F + k) mod 2 ^ 36 = (F + j) mod 2 ^ 36"
        using same by (simp add: same_page_number j(2) page [OF j(1)] k(2))
      then have "k = j" by (rule add_mod_inject) (use k(1) j(1) n48 in linarith)+
      then show "f = page_floor phys + of_nat k * frameSize \<and> fl = flags" using j by simp
    qed
  next
    assume none: "\<And>p. first \<le> p \<Longrightarrow> p < last' \<Longrightarrow> \<not> same_page va p"
    have "\<not> same_page va (first + of_nat k * pageSize)" if "k < n" for k
      using none page [OF that] that n F by (auto simp: word_le_nat_alt word_less_nat_alt)
    then show "last_entry va ?run = None" unfolding last_entry_None_iff run by auto
  }
qed


lemma range_length:
  assumes "unat len \<le> 2 ^ 64 - 4096"
  shows "unat (last_page (get_page_range base len))
    \<le> unat (first_page (get_page_range base len)) + unat len + 8190"
proof -
  have "unat base div 4096 * 4096 + unat base mod 4096 = unat base" by (rule div_mult_mod_eq)
  moreover have "unat base mod 4096 < 4096" by simp
  ultimately have "unat base \<le> 4096 * (unat base div 4096) + 4095" by linarith
  then show ?thesis
    using get_page_range_bounds [OF assms, of base] round_up_bounds(2) [of "unat base + unat len"]
    by (auto split: if_splits)
qed

lemma paging_get_translation_entry:
  assumes "paging_inv s r"
  shows "paging_get_translation s va =
    ret \<lparr>physical_address = page_entry s r va AND child_mask,
         translation_flags = page_entry s r va AND 0xff\<rparr>"
  using assms get_translation_entry [of r s va]
  by (simp add: paging_get_translation_def paging_inv_def Optional_deref_def tree_inv_def)

text \<open>C4. \<^verbatim>\<open>paging_add_mapping\<close> maps a region of virtual memory to consecutive frames. It needs
  exactly one free frame for each node that the region's pages miss, and panics with fewer.
  Afterwards every address of the covering page range translates to the frame at its distance from
  the first page, with the requested flags, and every address whose page is not in the range
  translates as before.\<close>

theorem paging_add_mapping_maps_region:
  fixes s :: "'z paging_state_scheme" and base phys len flags :: u64
  assumes inv: "paging_inv s r" and flags: "flags AND child_mask = 0"
    and len: "unat len \<le> 2 ^ 48 - 8192"
  defines "first \<equiv> first_page (get_page_range base len)"
    and "last' \<equiv> last_page (get_page_range base len)"
    and "result \<equiv> paging_add_mapping base phys len flags s"
    and "nodes \<equiv> needed s r (map fst (region_run base phys len flags))"
  shows "if length (free_frames s) < nodes
    then result = kernel_panic ''ran out of physical memory to allocate!''
    else \<exists>s'. result = ret s' \<and> paging_inv s' r \<and> free_frames s' = drop nodes (free_frames s) \<and>
      (\<forall>va. first \<le> va \<and> va < last' \<longrightarrow> paging_get_translation s' va =
        ret \<lparr>physical_address = (page_floor phys + (page_floor va - first)) AND child_mask,
             translation_flags = (flags OR PageFlags_Present) AND 0xff\<rparr>) \<and>
      (\<forall>va. (\<forall>p. first \<le> p \<and> p < last' \<longrightarrow> \<not> same_page va p) \<longrightarrow>
        paging_get_translation s' va = paging_get_translation s va)"
proof -
  have len': "unat len \<le> 2 ^ 64 - 4096" using len by simp
  have ok: "flags_ok (region_run base phys len flags)"
    using flags by (simp add: flags_ok_def region_run_def Let_def list_all_iff)
  have short: "unat last' \<le> unat first + 2 ^ 48"
    using range_length [OF len', of base] len by (simp add: first_def last'_def)
  note entry = region_run_entry [OF len' short [unfolded first_def last'_def], folded first_def last'_def]
  have res: "run_result r (region_run base phys len flags) s result"
    using map_pages [OF inv ok] by (simp add: result_def paging_add_mapping_run [OF len'])
  show ?thesis
  proof (cases "length (free_frames s) < nodes")
    case True
    then show ?thesis using res by (simp add: run_result_def nodes_def)
  next
    case False
    then obtain s' where s': "result = ret s'" "paging_inv s' r" "free_frames s' = drop nodes (free_frames s)"
      "\<And>va. page_entry s' r va = (case last_entry va (region_run base phys len flags) of
          Some e \<Rightarrow> e | None \<Rightarrow> page_entry s r va)"
      using res by (auto simp: run_result_def nodes_def)
    show ?thesis
      using False s'
      by (auto simp: paging_get_translation_entry [OF s'(2)] paging_get_translation_entry [OF inv]
          s'(4) entry flagged_child [OF flags] flagged_flags)
  qed
qed

section \<open>Reclaiming frames keeps the tree\<close>

lemma node_at_cong:
  assumes "\<And>q n j. indices q \<Longrightarrow> node_at s r q = Some n \<Longrightarrow> j < 512 \<Longrightarrow> entry_at s' n j = entry_at s n j"
    and "indices q"
  shows "node_at s' r q = node_at s r q"
  using assms(2)
proof (induction q rule: rev_induct)
  case (snoc j q)
  then have q: "indices q" "j < 512" by auto
  then show ?case
    using snoc.IH assms(1) [OF q(1) _ q(2)] by (simp add: node_at_append split: bind_split)
qed simp

definition nodes_off :: "'z frame_state_scheme \<Rightarrow> u64 \<Rightarrow> bool" where
  "nodes_off s r \<longleftrightarrow> frame_inv s \<and> node_frame r \<and>
     (\<forall>p n. indices p \<longrightarrow> node_at s r p = Some n \<longrightarrow> off_stack s n)"

lemma off_stack_push [simp]: "off_stack (free_stack_push f s) n = off_stack s n"
  by (simp add: off_stack_def free_stack_push_def stack_push_def Optional_deref_def)

lemma entry_at_push:
  fixes s :: "'z frame_state_scheme"
  assumes "frame_inv s" "node_frame n" "off_stack s n" "i < 512"
  shows "entry_at (free_stack_push f s) n i = entry_at s n i"
proof (cases "stack_full (buffer (free_stack s))")
  case True
  then show ?thesis by (simp add: free_stack_push_def stack_push_def Optional_deref_def entry_at_def)
next
  case False
  let ?st = "buffer (free_stack s)" and ?k = "unat (m_size (buffer (free_stack s)))"
  have inv: "stack_inv (?st, s)" using assms(1) by (simp add: frame_inv_def Optional_deref_def)
  have k: "?k < unat (m_maxSize ?st)" by (rule not_full_less [OF inv False])
  have u: "unat (slot ?st (m_size ?st)) = unat (m_stack ?st) + 8 * ?k"
    and c: "cell_of (hhdm_offset s) (slot ?st (m_size ?st)) = slot ?st (m_size ?st)"
    using unat_slot [OF inv, of ?k] slot_cell [OF inv, of ?k] k by simp_all
  have "sep8 (n + 8 * ucast i) (slot ?st (m_size ?st))"
  proof (rule sep8_aligned)
    show "unat (slot ?st (m_size ?st)) mod 8 = 0"
      using u inv by (simp add: stack_inv_def mod_eq_0_iff_dvd)
    show "n + 8 * ucast i \<noteq> slot ?st (m_size ?st)"
      using u k assms(3) entry_in_frame [OF assms(2,4)] by (auto simp: off_stack_def)
  qed (rule entry_in_frame(2) [OF assms(2,4)])
  then show ?thesis
    using False by (simp add: free_stack_push_def stack_push_def Optional_deref_def entry_at_def store64_def c)
qed

lemma push_keeps_tree:
  fixes s :: "'z frame_state_scheme"
  assumes "nodes_off s r"
  shows "nodes_off (free_stack_push f s) r"
    and "page_entry (free_stack_push f s) r va = page_entry s r va"
proof -
  have inv: "frame_inv s" "node_frame r" using assms by (simp_all add: nodes_off_def)
  have e: "entry_at (free_stack_push f s) n j = entry_at s n j"
    if "indices q" "node_at s r q = Some n" "j < 512" for q n j
    using that assms node_at_frame [OF inv(2) that(2)]
    by (intro entry_at_push) (auto simp: nodes_off_def)
  have nodes: "node_at (free_stack_push f s) r q = node_at s r q" if "indices q" for q
    by (rule node_at_cong [OF e that])
  then show "nodes_off (free_stack_push f s) r"
    using assms free_stack_push_props(1) [OF inv(1)] by (simp add: nodes_off_def)
  show "page_entry (free_stack_push f s) r va = page_entry s r va"
    using nodes [of "page_path va"] e [of "page_path va"]
    by (simp add: page_entry_def tree_entry_def split: option.splits)
qed

lemma reclaim_keeps_tree:
  fixes s :: "'z frame_state_scheme"
  assumes "nodes_off s r"
  shows "nodes_off (fold free_stack_push fs s) r"
    and "page_entry (fold free_stack_push fs s) r va = page_entry s r va"
  using assms by (induction fs arbitrary: s) (simp_all add: push_keeps_tree)

lemma fold_push_globals:
  "frame_state.more (fold free_stack_push fs s) = frame_state.more s"
  "hhdm_offset (fold free_stack_push fs s) = hhdm_offset s"
  "memory_map (fold free_stack_push fs s) = memory_map s"
  by (induction fs arbitrary: s) simp_all

section \<open>The boot mappings\<close>

definition initial_run :: "'z paging_state_scheme \<Rightarrow> (u64 \<times> u64 \<times> PageFlags) list" where
  "initial_run s = concat (map (\<lambda>m. region_run (region_base (from_virtual m)) (to_physical m)
     (region_size (from_virtual m)) (mapping_flags m)) (initial_mappings s))"

lemma add_initial_mappings_run:
  assumes "unat (kernel_readonly_end s - kernel_readonly_start s) \<le> 2 ^ 64 - 4096"
    and "unat (kernel_rw_end s - kernel_rw_start s) \<le> 2 ^ 64 - 4096"
  shows "add_initial_mappings s = res_fold map_page (initial_run s) s"
  unfolding add_initial_mappings_def initial_run_def
proof (rule res_fold_concat)
  fix m assume "m \<in> set (initial_mappings s)"
  then have "unat (region_size (from_virtual m)) \<le> 2 ^ 64 - 4096"
    using assms by (auto simp: initial_mappings_def)
  then show "(\<lambda>t. paging_add_mapping (region_base (from_virtual m)) (to_physical m)
       (region_size (from_virtual m)) (mapping_flags m) t)
     = res_fold map_page (region_run (region_base (from_virtual m)) (to_physical m)
         (region_size (from_virtual m)) (mapping_flags m))"
    by (simp add: fun_eq_iff paging_add_mapping_run)
qed

lemma flags_ok_region: "flags AND child_mask = 0 \<Longrightarrow> flags_ok (region_run base phys len flags)"
  by (simp add: flags_ok_def region_run_def Let_def list_all_iff)

lemma flags_ok_initial: "flags_ok (initial_run s)"
proof -
  have "flags_ok (a @ b) \<longleftrightarrow> flags_ok a \<and> flags_ok b" for a b by (simp add: flags_ok_def)
  moreover have "PageFlags_Write AND child_mask = 0" "PageFlags_None AND child_mask = 0"
    by (simp_all add: PageFlags_Write_def PageFlags_None_def child_mask_def)
  ultimately show ?thesis
    by (simp add: initial_run_def initial_mappings_def flags_ok_region)
qed

lemma frame_inv_paging [simp]:
  "frame_inv (s\<lparr>page_tree := x\<rparr>) = frame_inv s" "frame_inv (s\<lparr>ptbr := y\<rparr>) = frame_inv s"
  by (simp_all add: frame_inv_def stack_inv_def Optional_deref_def)

lemma free_frames_paging [simp]:
  "free_frames (s\<lparr>page_tree := x\<rparr>) = free_frames s" "free_frames (s\<lparr>ptbr := y\<rparr>) = free_frames s"
  by (simp_all add: free_frames_def stack_contents_def Optional_deref_def load64_def)

lemma node_at_paging [simp]:
  "node_at (s\<lparr>page_tree := x\<rparr>) r p = node_at s r p" "node_at (s\<lparr>ptbr := y\<rparr>) r p = node_at s r p"
  by (induction p arbitrary: r) (simp_all add: entry_at_def split: bind_split)

lemma tree_entry_paging [simp]:
  "tree_entry (s\<lparr>page_tree := x\<rparr>) r p i = tree_entry s r p i"
  "tree_entry (s\<lparr>ptbr := y\<rparr>) r p i = tree_entry s r p i"
  by (simp_all add: tree_entry_def entry_at_def split: option.split)

lemma off_stack_paging [simp]:
  "off_stack (s\<lparr>page_tree := x\<rparr>) n = off_stack s n" "off_stack (s\<lparr>ptbr := y\<rparr>) n = off_stack s n"
  by (simp_all add: off_stack_def)

lemma tree_inv_paging [simp]:
  "tree_inv (s\<lparr>page_tree := x\<rparr>) r = tree_inv s r" "tree_inv (s\<lparr>ptbr := y\<rparr>) r = tree_inv s r"
  by (simp_all add: tree_inv_def)

lemma nodes_off_ptbr [simp]: "nodes_off (s\<lparr>ptbr := y\<rparr>) r = nodes_off s r"
  by (simp add: nodes_off_def)

lemma page_entry_paging [simp]:
  "page_entry (s\<lparr>page_tree := x\<rparr>) r va = page_entry s r va"
  "page_entry (s\<lparr>ptbr := y\<rparr>) r va = page_entry s r va"
  by (simp_all add: page_entry_def)

text \<open>The boot state that \<^verbatim>\<open>paging_init\<close> starts from: the free frames are different, can hold a node
  and lie apart from the free stack's array.\<close>

definition boot_frames_ok :: "'z frame_state_scheme \<Rightarrow> bool" where
  "boot_frames_ok s \<longleftrightarrow> frame_inv s \<and> distinct (free_frames s) \<and>
     list_all (\<lambda>f. node_frame f \<and> off_stack s f) (free_frames s)"

text \<open>The nodes below the root that the boot mappings need.\<close>

definition boot_nodes :: "'z paging_state_scheme \<Rightarrow> nat" where
  "boot_nodes s = card (\<Union>page \<in> set (map fst (initial_run s)). set (page_nodes page))"

text \<open>The state when the root has been constructed.\<close>

lemma paging_root:
  fixes s :: "'z paging_state_scheme"
  assumes ok: "boot_frames_ok s" and free: "free_frames s = f # fs"
  shows "\<exists>opt s1. allocate_frame s = ret (f, s\<lparr>free_stack := opt\<rparr>) \<and>
    s1 = snd (PageTree_init (kernel_physical_to_virtual s f) (s\<lparr>free_stack := opt\<rparr>)) \<and>
    tree_inv s1 f \<and> same_globals s s1 \<and> free_frames s1 = fs \<and> frame_capacity s1 = frame_capacity s \<and>
    (\<forall>va. page_entry s1 f va = 0) \<and> (\<forall>page. missing_paths s1 f page = set (page_nodes page))"
proof -
  have inv: "frame_inv s" using ok by (simp add: boot_frames_ok_def)
  obtain opt where opt: "allocate_frame s = ret (f, s\<lparr>free_stack := opt\<rparr>)"
    "frame_inv (s\<lparr>free_stack := opt\<rparr>)" "free_frames (s\<lparr>free_stack := opt\<rparr>) = fs"
    "m_stack (buffer opt) = m_stack (buffer (free_stack s))"
    "m_maxSize (buffer opt) = m_maxSize (buffer (free_stack s))"
    using allocate_frame_Cons [OF inv free] by blast
  let ?t = "s\<lparr>free_stack := opt\<rparr>"
  let ?s = "snd (PageTree_init (kernel_physical_to_virtual ?t f) ?t)"
  have "off_stack ?t = off_stack s" using opt(4,5) by (simp add: off_stack_def fun_eq_iff)
  then have apart: "frames_apart ?t f"
    using ok opt(2,3) free by (simp add: frames_apart_def boot_frames_ok_def)
  note tree = PageTree_init_tree [OF apart]
  have k: "kernel_physical_to_virtual ?t f = kernel_physical_to_virtual s f"
    by (simp add: kernel_physical_to_virtual_def)
  have "missing_paths ?s f page = set (page_nodes page)" for page
    using tree(4) by (auto simp: missing_paths_def page_nodes_path page_path_def simp del: node_at.simps)
  moreover have "page_entry ?s f va = 0" for va by (simp add: page_entry_def tree(5))
  moreover have "same_globals s ?s" "frame_capacity ?s = frame_capacity s"
    using opt(5) by (simp_all add: same_globals_def PageTree_init_def PageTreeNode_init_def zero_object_def
        frame_capacity_def Optional_deref_def)
  ultimately show ?thesis
    using opt(1,3) tree(1,2) k by (intro exI [of _ opt] exI [of _ ?s]) simp
qed


lemma same_globals_initial:
  assumes "same_globals s (s' :: 'z paging_state_scheme)"
  shows "initial_run s' = initial_run s" "initial_mappings s' = initial_mappings s"
    "kernel_readonly_end s' = kernel_readonly_end s" "kernel_readonly_start s' = kernel_readonly_start s"
    "kernel_rw_end s' = kernel_rw_end s" "kernel_rw_start s' = kernel_rw_start s"
proof -
  obtain m st where s': "s' = s\<lparr>mem := m, free_stack := st\<rparr>"
    using assms unfolding same_globals_def by blast
  show "initial_run s' = initial_run s" "initial_mappings s' = initial_mappings s"
    "kernel_readonly_end s' = kernel_readonly_end s" "kernel_readonly_start s' = kernel_readonly_start s"
    "kernel_rw_end s' = kernel_rw_end s" "kernel_rw_start s' = kernel_rw_start s"
    unfolding s' by (simp_all add: initial_run_def initial_mappings_def)
qed

text \<open>The tail of \<^verbatim>\<open>paging_init\<close>: the register is loaded and the bootloader's frames are reclaimed.\<close>

lemma paging_finish:
  fixes s :: "'z paging_state_scheme"
  assumes inv: "paging_inv s r"
    and ok: "\<forall>e \<in> set (memory_map s). entry_type e = LIMINE_MEMMAP_BOOTLOADER_RECLAIMABLE \<longrightarrow> entry_ok e"
  shows "\<exists>n s'. free_limine_bootloader_memory (s\<lparr>ptbr := r\<rparr>) = ret (n, s') \<and> ptbr s' = r \<and>
    free_frames s' = rev (take (frame_capacity s - length (free_frames s))
      (reclaimable_frames (memory_map s))) @ free_frames s \<and>
    (\<forall>va. paging_get_translation s' va = paging_get_translation s va)"
proof -
  let ?fs = "reclaimable_frames (memory_map s)"
  let ?s = "fold free_stack_push ?fs (s\<lparr>ptbr := r\<rparr>)"
  have off: "nodes_off (s\<lparr>ptbr := r\<rparr>) r"
    using inv by (simp add: paging_inv_def tree_inv_def nodes_off_def)
  have more: "frame_state.more ?s = frame_state.more (s\<lparr>ptbr := r\<rparr>)" by (rule fold_push_globals)
  have "ptbr ?s = r" "page_tree ?s = page_tree s"
    using more by (cases ?s, cases s, simp)+
  moreover have "paging_get_translation ?s va = paging_get_translation s va" for va
  proof -
    have "page_tree ?s = page_tree s" by fact
    moreover have "node_frame r" using off by (simp add: nodes_off_def)
    ultimately show ?thesis
      using inv get_translation_entry [of r ?s va] get_translation_entry [of r s va]
        reclaim_keeps_tree(2) [OF off] fold_push_globals(2) [of ?fs "s\<lparr>ptbr := r\<rparr>"]
      by (simp add: paging_get_translation_def paging_inv_def Optional_deref_def
          kernel_physical_to_virtual_def)
  qed
  moreover have "free_frames ?s = rev (take (frame_capacity s - length (free_frames s)) ?fs) @ free_frames s"
    using fs.push_all [of "s\<lparr>ptbr := r\<rparr>" ?fs] off
    by (simp add: nodes_off_def frame_capacity_def)
  ultimately show ?thesis
    using free_limine_eq [of "s\<lparr>ptbr := r\<rparr>"] ok by simp
qed

lemma paging_init_maps:
  fixes s :: "'z paging_state_scheme"
  assumes ok: "boot_frames_ok s" and free: "free_frames s = f # fs"
    and sizes: "unat (kernel_readonly_end s - kernel_readonly_start s) \<le> 2 ^ 64 - 4096"
      "unat (kernel_rw_end s - kernel_rw_start s) \<le> 2 ^ 64 - 4096"
    and entries: "\<forall>e \<in> set (memory_map s).
      entry_type e = LIMINE_MEMMAP_BOOTLOADER_RECLAIMABLE \<longrightarrow> entry_ok e"
  shows "if length fs < boot_nodes s
    then paging_init s = kernel_panic ''ran out of physical memory to allocate!''
    else \<exists>s'. paging_init s = ret s' \<and> ptbr s' = f \<and>
      (\<forall>va. paging_get_translation s' va =
        (let e = case last_entry va (initial_run s) of Some e \<Rightarrow> e | None \<Rightarrow> 0
         in ret \<lparr>physical_address = e AND child_mask, translation_flags = e AND 0xff\<rparr>))"
proof -
  obtain opt s1 where alloc: "allocate_frame s = ret (f, s\<lparr>free_stack := opt\<rparr>)"
    and s1: "s1 = snd (PageTree_init (kernel_physical_to_virtual s f) (s\<lparr>free_stack := opt\<rparr>))"
      "tree_inv s1 f" "same_globals s s1" "free_frames s1 = fs"
      "\<And>va. page_entry s1 f va = 0" "\<And>page. missing_paths s1 f page = set (page_nodes page)"
    using paging_root [OF ok free] by blast
  define s2 where "s2 = s1\<lparr>page_tree :=
    \<lparr>buffer = \<lparr>root_node = kernel_physical_to_virtual s f\<rparr>, is_present = True\<rparr>\<rparr>"
  have inv: "paging_inv s2 f"
    using s1(2) same_globals_simps(1) [OF s1(3)]
    by (simp add: paging_inv_def s2_def kernel_physical_to_virtual_def)
  have run: "initial_run s2 = initial_run s"
    using same_globals_initial(1) [OF s1(3)]
    by (simp add: s2_def initial_run_def initial_mappings_def)
  have init: "paging_init s = res_bind (res_fold map_page (initial_run s) s2)
      (\<lambda>s. res_bind (free_limine_bootloader_memory (s\<lparr>ptbr := f\<rparr>)) (\<lambda>(n, s). ret s))"
  proof -
    have "add_initial_mappings s2 = res_fold map_page (initial_run s) s2"
      using add_initial_mappings_run [of s2] sizes same_globals_initial(3-) [OF s1(3)]
      by (simp add: run, simp add: s2_def)
    moreover have "s2 = (snd (PageTree_init (kernel_physical_to_virtual s f) (s\<lparr>free_stack := opt\<rparr>)))\<lparr>page_tree :=
        \<lparr>buffer = \<lparr>root_node = kernel_physical_to_virtual s f\<rparr>, is_present = True\<rparr>\<rparr>"
      by (simp add: s2_def s1(1))
    ultimately show ?thesis
      by (simp add: paging_init_def alloc PageTree_init_def fst_Optional_emplace Let_def
          kernel_physical_to_virtual_def)
  qed
  have "missing_paths s2 f page = set (page_nodes page)" for page
    using s1(6) [of page] by (simp add: missing_paths_def s2_def)
  then have needed: "needed s2 f (map fst (initial_run s)) = boot_nodes s"
    by (simp add: needed_def boot_nodes_def)
  have res: "run_result f (initial_run s) s2 (res_fold map_page (initial_run s) s2)"
    by (rule map_pages [OF inv flags_ok_initial])
  have free2: "free_frames s2 = fs" and zero: "\<And>va. page_entry s2 f va = 0"
    by (simp_all add: s2_def s1(4,5))
  show ?thesis
  proof (cases "length fs < boot_nodes s")
    case True
    then show ?thesis using res by (simp add: run_result_def needed free2 init)
  next
    case False
    then obtain s3 where s3: "res_fold map_page (initial_run s) s2 = ret s3" "paging_inv s3 f"
      "same_globals s2 s3"
      and "\<forall>va. page_entry s3 f va =
        (case last_entry va (initial_run s) of Some e \<Rightarrow> e | None \<Rightarrow> page_entry s2 f va)"
      using res by (auto simp: run_result_def needed free2)
    then have entry: "page_entry s3 f va = (case last_entry va (initial_run s) of Some e \<Rightarrow> e | None \<Rightarrow> 0)" for va
      by (simp add: zero split: option.splits)
    have "memory_map s3 = memory_map s"
      using same_globals_simps(2) [OF s3(3)] same_globals_simps(2) [OF s1(3)] by (simp add: s2_def)
    then obtain n s' where "free_limine_bootloader_memory (s3\<lparr>ptbr := f\<rparr>) = ret (n, s')" "ptbr s' = f"
      "\<And>va. paging_get_translation s' va = paging_get_translation s3 va"
      using paging_finish [OF s3(2)] entries by auto
    then show ?thesis
      using False init s3(1) paging_get_translation_entry [OF s3(2)] by (simp add: entry Let_def)
  qed
qed

text \<open>C8. \<^verbatim>\<open>paging_init\<close> builds the boot address space. With a free frame for the root and one for
  every node that the pages of the boot mappings need, it returns with the root in the page-table
  base register, and every address translates as the last boot mapping of its page says; an
  address that no boot mapping covers has no translation. The reclaiming of the bootloader's
  frames at the end does not disturb the tree. With fewer frames it panics.\<close>

theorem paging_init_boot_mappings:
  fixes s :: "'z paging_state_scheme"
  assumes ok: "boot_frames_ok s" and free: "free_frames s = f # fs"
    and sizes: "unat (kernel_readonly_end s - kernel_readonly_start s) \<le> 2 ^ 64 - 4096"
      "unat (kernel_rw_end s - kernel_rw_start s) \<le> 2 ^ 64 - 4096"
    and entries: "\<forall>e \<in> set (memory_map s).
      entry_type e = LIMINE_MEMMAP_BOOTLOADER_RECLAIMABLE \<longrightarrow> entry_ok e"
  shows "if length fs < boot_nodes s
    then paging_init s = kernel_panic ''ran out of physical memory to allocate!''
    else \<exists>s'. paging_init s = ret s' \<and> ptbr s' = f \<and>
      (\<forall>va. paging_get_translation s' va =
        (let e = case last_entry va (initial_run s) of Some e \<Rightarrow> e | None \<Rightarrow> 0
         in ret \<lparr>physical_address = e AND child_mask, translation_flags = e AND 0xff\<rparr>))"
  by (rule paging_init_maps [OF assms])


section \<open>Allocating and mapping\<close>

fun pages_from :: "u64 \<Rightarrow> nat \<Rightarrow> u64 list" where
  "pages_from page 0 = []"
| "pages_from page (Suc n) = page # pages_from (page + pageSize) n"

lemma paging_add_one_page:
  assumes "unat page mod 4096 = 0" "unat page + 8192 \<le> 2 ^ 64" "unat frame mod 4096 = 0"
  shows "paging_add_mapping page frame pageSize flags s = map_page (page, frame, flags) s"
proof -
  obtain q where q: "unat page = 4096 * q" using assms(1) by auto
  obtain g where g: "unat frame = 4096 * g" using assms(3) by auto
  have sum: "unat (page + pageSize) = unat page + 4096"
    using assms(2) unat_add_no_wrap [of page pageSize] by simp
  have "(4096 * q + 4096 + 4095) div 4096 = q + 1" by simp
  then have l: "unat (last_page (get_page_range page pageSize)) = unat (page + pageSize)"
    using get_page_range_bounds(2) [of pageSize page] assms(2) q sum by simp
  have f: "unat (first_page (get_page_range page pageSize)) = unat page"
    using get_page_range_bounds(1) [of pageSize page] q by simp
  have "get_page_range page pageSize = \<lparr>first_page = page, last_page = page + pageSize\<rparr>"
    using l [folded word_unat_eq_iff] f [folded word_unat_eq_iff]
    by (cases "get_page_range page pageSize") simp
  moreover have "page_floor frame = frame"
    using g by (simp only: word_unat_eq_iff unat_page_floor) simp
  ultimately have "region_run page frame pageSize flags = [(page, frame, flags)]"
    using sum by (simp add: region_run_def)
  then show ?thesis by (simp add: paging_add_mapping_run)
qed

lemma allocate_keeps_paging:
  fixes s :: "'z paging_state_scheme"
  assumes inv: "paging_inv s r" and free: "free_frames s = f # fs"
  shows "\<exists>s1. allocate_frame s = ret (f, s1) \<and> paging_inv s1 r \<and> same_globals s s1 \<and> free_frames s1 = fs \<and>
    (\<forall>page. missing_paths s1 r page = missing_paths s r page) \<and> (\<forall>va. page_entry s1 r va = page_entry s r va) \<and>
    tree_grows s s1 r \<and> data_frame s1 r f \<and> (\<forall>va. hw_usable s1 r va = hw_usable s r va)"
proof -
  have tree: "tree_inv s r" using inv by (simp add: paging_inv_def)
  obtain opt where opt: "allocate_frame s = ret (f, s\<lparr>free_stack := opt\<rparr>)"
    "frame_inv (s\<lparr>free_stack := opt\<rparr>)" "free_frames (s\<lparr>free_stack := opt\<rparr>) = fs"
    "m_stack (buffer opt) = m_stack (buffer (free_stack s))"
    "m_maxSize (buffer opt) = m_maxSize (buffer (free_stack s))"
    using allocate_frame_Cons [OF tree_invD(1) [OF tree] free] by blast
  let ?t = "s\<lparr>free_stack := opt\<rparr>"
  have off: "off_stack ?t = off_stack s" using opt(4,5) by (simp add: off_stack_def fun_eq_iff)
  have nodes: "node_at ?t r p = node_at s r p" for r p
    by (induction p arbitrary: r) (simp_all add: entry_at_def split: bind_split)
  have "tree_inv ?t r"
    using tree opt(2,3) free unfolding tree_inv_def nodes off by auto
  then have "paging_inv ?t r" using inv by (simp add: paging_inv_def kernel_physical_to_virtual_def)
  moreover have "same_globals s ?t" by (simp add: same_globals_def)
  moreover have "missing_paths ?t r page = missing_paths s r page" for page
    by (simp add: missing_paths_def nodes)
  moreover have "page_entry ?t r va = page_entry s r va" for va
    by (simp add: page_entry_def tree_entry_def nodes entry_at_def split: option.split)
  moreover have "tree_nodes ?t r = tree_nodes s r" by (simp add: tree_nodes_def nodes)
  then have "tree_grows s ?t r" "data_frame ?t r f"
    using off tree free opt(3) by (auto simp: tree_grows_def data_frame_def tree_inv_def tree_nodes_def)
  moreover have "walk_entries ?t r va = walk_entries s r va" for va
    by (simp add: walk_entries_def tree_entry_def nodes entry_at_def split: option.split)
  then have "hw_usable ?t r va = hw_usable s r va" for va
    by (simp add: hw_usable_def hw_mapped_def hw_writable_def)
  ultimately show ?thesis using opt(1,3) by (intro exI [of _ ?t]) simp
qed


lemma allocate_and_map_step:
  fixes s :: "'z paging_state_scheme"
  assumes inv: "paging_inv s r" and flags: "flags AND child_mask = 0" and free: "free_frames s = f # fs"
    and page: "page \<noteq> stop" "unat page mod 4096 = 0" "unat page + 8192 \<le> 2 ^ 64"
  shows "if length fs < card (missing_paths s r page)
    then allocate_and_map_from flags page stop s = kernel_panic ''ran out of physical memory to allocate!''
    else \<exists>s1. allocate_and_map_from flags page stop s = allocate_and_map_from flags (page + pageSize) stop s1 \<and>
      paging_inv s1 r \<and> same_globals s s1 \<and> free_frames s1 = drop (card (missing_paths s r page)) fs \<and>
      (\<forall>p. missing_paths s1 r p = missing_paths s r p - set (page_nodes page)) \<and>
      (\<forall>va. page_entry s1 r va = (if same_page va page then flagged f flags else page_entry s r va)) \<and>
      tree_grows s s1 r \<and> data_frame s1 r f \<and>
      (flags AND PageFlags_Write \<noteq> 0 \<longrightarrow> (\<forall>va. same_page va page \<or> hw_usable s r va \<longrightarrow> hw_usable s1 r va))"
proof -
  obtain t where t: "allocate_frame s = ret (f, t)" "paging_inv t r" "same_globals s t" "free_frames t = fs"
    "\<forall>page. missing_paths t r page = missing_paths s r page" "\<forall>va. page_entry t r va = page_entry s r va"
    "tree_grows s t r" "data_frame t r f" "\<forall>va. hw_usable t r va = hw_usable s r va"
    using allocate_keeps_paging [OF inv free] by blast
  have "node_frame f" using inv free tree_invD(4) [of s r f] by (simp add: paging_inv_def)
  then have f: "unat f mod 4096 = 0" by (simp add: node_frame_def)
  have step: "allocate_and_map_from flags page stop s =
      res_bind (map_page (page, f, flags) t) (allocate_and_map_from flags (page + pageSize) stop)"
    using page(1) t(1) paging_add_one_page [OF page(2,3) f, of flags t]
    by (subst allocate_and_map_from.simps) simp
  show ?thesis
  proof (cases "length fs < card (missing_paths s r page)")
    case True
    then have "map_page (page, f, flags) t = kernel_panic ''ran out of physical memory to allocate!''"
      using map_page_to_frame_panics [OF _ flags, of t r page f] t
      by (simp add: map_page_def paging_inv_def Optional_deref_def missing_nodes_card)
    then show ?thesis using True step by simp
  next
    case False
    then have "card (missing_paths t r page) \<le> length (free_frames t)" using t(4,5) by simp
    from map_page_ok [OF t(2) flags this, of f]
    obtain s1 where s1: "map_page (page, f, flags) t = ret s1" "paging_inv s1 r" "same_globals t s1"
      "free_frames s1 = drop (card (missing_paths t r page)) (free_frames t)"
      "\<forall>p. missing_paths s1 r p = missing_paths t r p - set (page_nodes page)"
      "\<forall>va. page_entry s1 r va = (if same_page va page then flagged f flags else page_entry t r va)"
      "tree_grows t s1 r" and e: "entries_after r page f flags t s1"
      by blast
    have "set (free_frames s1) \<subseteq> set (free_frames t)" unfolding s1(4) by (rule set_drop_subset)
    then have "tree_grows s s1 r" "data_frame s1 r f"
      using tree_grows_trans [OF t(7) _ s1(7)] data_frame_grows [OF t(8) s1(7)] t(4) free by auto
    moreover have "flags AND PageFlags_Write \<noteq> 0 \<longrightarrow> (\<forall>va. same_page va page \<or> hw_usable s r va \<longrightarrow> hw_usable s1 r va)"
      using hw_usable_after [OF e] t(9) by blast
    ultimately show ?thesis
      using False step t(1-6) s1(1-6) same_globals_trans [OF t(3) s1(3)] by auto
  qed
qed

text \<open>The result of allocating for the pages: each page takes a frame that was free, no two the same
  one, and none of them is free afterwards.\<close>

definition allocated_result ::
  "u64 \<Rightarrow> PageFlags \<Rightarrow> u64 list \<Rightarrow> 'z paging_state_scheme \<Rightarrow> 'z paging_state_scheme res \<Rightarrow> bool" where
  "allocated_result r flags pages s result \<longleftrightarrow>
     (if length (free_frames s) < length pages + needed s r pages
      then result = kernel_panic ''ran out of physical memory to allocate!''
      else \<exists>s' gs. result = ret s' \<and> paging_inv s' r \<and> same_globals s s' \<and>
        length gs = length pages \<and> distinct gs \<and> set gs \<subseteq> set (free_frames s) \<and>
        set gs \<inter> set (free_frames s') = {} \<and>
        free_frames s' = drop (length pages + needed s r pages) (free_frames s) \<and>
        (\<forall>va. page_entry s' r va = (case last_entry va (zip pages (map (\<lambda>g. (g, flags)) gs)) of
          Some e \<Rightarrow> e | None \<Rightarrow> page_entry s r va)) \<and>
        tree_grows s s' r \<and> list_all (data_frame s' r) gs \<and>
        (flags AND PageFlags_Write \<noteq> 0 \<longrightarrow>
          (\<forall>va. list_ex (same_page va) pages \<or> hw_usable s r va \<longrightarrow> hw_usable s' r va)))"

lemma allocated_result_Cons:
  fixes s s1 :: "'z paging_state_scheme"
  assumes inv: "paging_inv s r" and free: "free_frames s = f # fs"
    and s1: "same_globals s s1" "free_frames s1 = drop (card (missing_paths s r page)) fs"
      "card (missing_paths s r page) \<le> length fs"
      "\<forall>p. missing_paths s1 r p = missing_paths s r p - set (page_nodes page)"
      "\<forall>va. page_entry s1 r va = (if same_page va page then flagged f flags else page_entry s r va)"
      "tree_grows s s1 r" "data_frame s1 r f"
      "flags AND PageFlags_Write \<noteq> 0 \<longrightarrow> (\<forall>va. same_page va page \<or> hw_usable s r va \<longrightarrow> hw_usable s1 r va)"
    and rest: "allocated_result r flags pages s1 result"
  shows "allocated_result r flags (page # pages) s result"
proof -
  have n: "needed s r (page # pages) = card (missing_paths s r page) + needed s1 r pages"
    by (rule needed_Cons [OF s1(4)])
  then have less: "length (free_frames s) < length (page # pages) + needed s r (page # pages) \<longleftrightarrow>
      length (free_frames s1) < length pages + needed s1 r pages"
    using s1(2,3) free by auto
  show ?thesis
  proof (cases "length (free_frames s1) < length pages + needed s1 r pages")
    case True
    then show ?thesis using rest less by (simp add: allocated_result_def)
  next
    case False
    then obtain s' gs where s': "result = ret s'" "paging_inv s' r" "same_globals s1 s'"
      "length gs = length pages" "distinct gs" "set gs \<subseteq> set (free_frames s1)"
      "set gs \<inter> set (free_frames s') = {}"
      "free_frames s' = drop (length pages + needed s1 r pages) (free_frames s1)"
      "\<forall>va. page_entry s' r va = (case last_entry va (zip pages (map (\<lambda>g. (g, flags)) gs)) of
          Some e \<Rightarrow> e | None \<Rightarrow> page_entry s1 r va)"
      "tree_grows s1 s' r" "list_all (data_frame s' r) gs"
      "flags AND PageFlags_Write \<noteq> 0 \<longrightarrow> (\<forall>va. list_ex (same_page va) pages \<or> hw_usable s1 r va \<longrightarrow> hw_usable s' r va)"
      using rest unfolding allocated_result_def by (metis (no_types, lifting))
    have f: "f \<notin> set fs" using inv free tree_invD(3) [of s r] by (simp add: paging_inv_def)
    have sub: "set (free_frames s1) \<subseteq> set fs" "set (free_frames s') \<subseteq> set fs"
      using s1(2) s'(8) set_drop_subset by (metis order_trans)+
    have "page_entry s' r va = (case last_entry va (zip (page # pages) (map (\<lambda>g. (g, flags)) (f # gs))) of
        Some e \<Rightarrow> e | None \<Rightarrow> page_entry s r va)" for va
      using s'(9) s1(5) by (simp split: option.splits)
    moreover have "same_globals s s'" by (rule same_globals_trans [OF s1(1) s'(3)])
    moreover have "free_frames s' = drop (length (page # pages) + needed s r (page # pages)) (free_frames s)"
      using s'(8) s1(2) n free by (simp add: add.commute add.left_commute)
    moreover have "distinct (f # gs)" "set (f # gs) \<subseteq> set (free_frames s)"
      "set (f # gs) \<inter> set (free_frames s') = {}"
      using s'(5-7) f sub free by auto
    moreover have "set (free_frames s') \<subseteq> set (free_frames s1)" unfolding s'(8) by (rule set_drop_subset)
    then have "tree_grows s s' r" "list_all (data_frame s' r) (f # gs)"
      using tree_grows_trans [OF s1(6) _ s'(10)] data_frame_grows [OF s1(7) s'(10)] s'(11) sub(1) free by auto
    moreover have "flags AND PageFlags_Write \<noteq> 0 \<longrightarrow>
        (\<forall>va. list_ex (same_page va) (page # pages) \<or> hw_usable s r va \<longrightarrow> hw_usable s' r va)"
      using s1(8) s'(12) by auto
    ultimately show ?thesis
      using False less s'(1,2,4) unfolding allocated_result_def by (auto intro!: exI [of _ "f # gs"])
  qed
qed


lemma allocate_and_map_pages:
  fixes s :: "'z paging_state_scheme"
  assumes "paging_inv s r" and flags: "flags AND child_mask = 0" and "unat page mod 4096 = 0"
    and "unat stop = unat page + 4096 * n" and stop: "unat stop + 4096 \<le> 2 ^ 64"
  shows "allocated_result r flags (pages_from page n) s (allocate_and_map_from flags page stop s)"
  using assms(1,3,4)
proof (induction n arbitrary: page s)
  case 0
  then have "page = stop" by (simp add: word_unat_eq_iff)
  then have "allocate_and_map_from flags page stop s = ret s"
    by (subst allocate_and_map_from.simps) simp
  then show ?case using 0 by (simp add: allocated_result_def needed_def)
next
  case (Suc n)
  have page: "page \<noteq> stop" "unat page + 8192 \<le> 2 ^ 64" using Suc.prems(3) stop by auto
  let ?m = "card (missing_paths s r page)"
  have m: "?m \<le> needed s r (page # ps)" for ps
    unfolding needed_def by (rule card_mono) (auto simp: missing_paths_def)
  have len: "length (pages_from p k) = k" for p k by (induction k arbitrary: p) simp_all
  show ?case
  proof (cases "free_frames s")
    case Nil
    then have "allocate_frame s = kernel_panic ''ran out of physical memory to allocate!''"
      using Suc.prems(1) by (intro allocate_frame_Nil) (simp_all add: paging_inv_def tree_inv_def)
    then have "allocate_and_map_from flags page stop s
        = kernel_panic ''ran out of physical memory to allocate!''"
      using page(1) by (subst allocate_and_map_from.simps) simp
    then show ?thesis using Nil by (simp add: allocated_result_def)
  next
    case (Cons f fs)
    note step = allocate_and_map_step [OF Suc.prems(1) flags Cons page(1) Suc.prems(2) page(2)]
    show ?thesis
    proof (cases "length fs < ?m")
      case True
      then show ?thesis
        using step Cons m [of "pages_from (page + pageSize) n"] by (simp add: allocated_result_def len)
    next
      case False
      then obtain s1 where s1: "allocate_and_map_from flags page stop s = allocate_and_map_from flags (page + pageSize) stop s1"
        "paging_inv s1 r" "same_globals s s1" "free_frames s1 = drop ?m fs"
        "\<forall>p. missing_paths s1 r p = missing_paths s r p - set (page_nodes page)"
        "\<forall>va. page_entry s1 r va = (if same_page va page then flagged f flags else page_entry s r va)"
        "tree_grows s s1 r" "data_frame s1 r f"
        "flags AND PageFlags_Write \<noteq> 0 \<longrightarrow> (\<forall>va. same_page va page \<or> hw_usable s r va \<longrightarrow> hw_usable s1 r va)"
        using step by auto
      have sum: "unat (page + pageSize) = unat page + 4096"
        using page(2) unat_add_no_wrap [of page pageSize] by simp
      have "allocated_result r flags (pages_from (page + pageSize) n) s1
          (allocate_and_map_from flags (page + pageSize) stop s1)"
        using Suc.prems(2,3) sum by (intro Suc.IH [OF s1(2)]) (simp_all add: mod_eq_0_iff_dvd)
      then show ?thesis
        using allocated_result_Cons [OF Suc.prems(1) Cons s1(3,4) _ s1(5-9)] False s1(1) by simp
    qed
  qed
qed

lemma length_pages_from [simp]: "length (pages_from p n) = n"
  by (induction n arbitrary: p) simp_all

lemma paging_allocate_and_map_result:
  fixes s :: "'z paging_state_scheme" and base len :: u64
  assumes inv: "paging_inv s r" and flags: "flags AND child_mask = 0" and len: "unat len \<le> 2 ^ 64 - 4096"
  defines "rng \<equiv> get_page_range base len"
  shows "allocated_result r flags
      (pages_from (first_page rng) ((unat (last_page rng) - unat (first_page rng)) div 4096)) s
      (paging_allocate_and_map base len flags s)"
proof -
  note b = get_page_range_bounds [OF len, of base, folded rng_def]
  have al: "4096 dvd unat (first_page rng)" "4096 dvd unat (last_page rng)"
    using b by (auto split: if_splits)
  have "unat (first_page rng) \<le> unat (last_page rng)"
  proof -
    have "unat base div 4096 * 4096 + unat base mod 4096 = unat base" by (rule div_mult_mod_eq)
    then have "4096 * (unat base div 4096) \<le> unat base" by linarith
    moreover have "4096 * (unat base div 4096) \<le> 2 ^ 64 - 4096"
    proof -
      have "unat base div 4096 \<le> (2 ^ 64 - 1) div 4096"
        using unat_less_2p [of base] by (intro div_le_mono) simp
      then show ?thesis by simp
    qed
    ultimately show ?thesis
      using b round_up_bounds(1) [of "unat base + unat len"] by (auto split: if_splits)
  qed
  then have "unat (last_page rng) = unat (first_page rng)
      + 4096 * ((unat (last_page rng) - unat (first_page rng)) div 4096)"
    using al by (simp add: dvd_diff_nat)
  then show ?thesis
    using allocate_and_map_pages [OF inv flags, of "first_page rng" "last_page rng"]
      last_page_bound [OF len, of base] al
    by (simp add: paging_allocate_and_map_def rng_def [symmetric] Let_def mod_eq_0_iff_dvd)
qed

lemma needed_le: "needed s r pages \<le> 3 * length pages"
proof (induction pages)
  case (Cons p pages)
  have "card (missing_paths s r p) \<le> length (page_nodes p)"
    unfolding missing_paths_def by (rule order_trans [OF card_length length_filter_le])
  moreover have "needed s r (p # pages) \<le> card (missing_paths s r p) + needed s r pages"
    by (simp add: needed_def card_Un_le)
  ultimately show ?case using Cons.IH by (simp add: page_nodes_path)
qed (simp add: needed_def)

lemma missing_paths_3: "card (missing_paths s r page) \<le> 3"
  using needed_le [of s r "[page]"] by (simp add: needed_def)

text \<open>C9. \<^verbatim>\<open>paging_allocate_and_map\<close> backs every page of the region with memory of its own. It needs a
  frame for each page and for each node the pages miss, and panics with fewer. Afterwards each page
  translates to a frame that was free before and is not free any more, no two pages to the same
  one, and all other pages translate as before.\<close>

theorem paging_allocate_and_map_fresh:
  fixes s :: "'z paging_state_scheme" and base len :: u64
  assumes inv: "paging_inv s r" and flags: "flags AND child_mask = 0" and len: "unat len \<le> 2 ^ 64 - 4096"
  defines "first \<equiv> first_page (get_page_range base len)"
    and "pages \<equiv> pages_from (first_page (get_page_range base len))
      ((unat (last_page (get_page_range base len)) - unat (first_page (get_page_range base len))) div 4096)"
    and "result \<equiv> paging_allocate_and_map base len flags s"
  shows "if length (free_frames s) < length pages + needed s r pages
    then result = kernel_panic ''ran out of physical memory to allocate!''
    else \<exists>s' frames. result = ret s' \<and> paging_inv s' r \<and>
      length frames = length pages \<and> distinct frames \<and> set frames \<subseteq> set (free_frames s) \<and>
      set frames \<inter> set (free_frames s') = {} \<and>
      (\<forall>va. paging_get_translation s' va =
        (case last_entry va (zip pages (map (\<lambda>f. (f, flags)) frames)) of
           Some e \<Rightarrow> ret \<lparr>physical_address = e AND child_mask, translation_flags = e AND 0xff\<rparr>
         | None \<Rightarrow> paging_get_translation s va))"
proof (cases "length (free_frames s) < length pages + needed s r pages")
  case True
  then show ?thesis
    using paging_allocate_and_map_result [OF inv flags len, of base]
    by (simp add: allocated_result_def pages_def result_def)
next
  case False
  then obtain s' gs where s': "result = ret s'" "paging_inv s' r" "length gs = length pages" "distinct gs"
    "set gs \<subseteq> set (free_frames s)" "set gs \<inter> set (free_frames s') = {}"
    "\<And>va. page_entry s' r va = (case last_entry va (zip pages (map (\<lambda>g. (g, flags)) gs)) of
        Some e \<Rightarrow> e | None \<Rightarrow> page_entry s r va)"
    using paging_allocate_and_map_result [OF inv flags len, of base]
    unfolding allocated_result_def pages_def result_def by (auto split: if_splits)
  have "paging_get_translation s' va =
      (case last_entry va (zip pages (map (\<lambda>f. (f, flags)) gs)) of
         Some e \<Rightarrow> ret \<lparr>physical_address = e AND child_mask, translation_flags = e AND 0xff\<rparr>
       | None \<Rightarrow> paging_get_translation s va)" for va
    by (simp add: paging_get_translation_entry [OF s'(2)] paging_get_translation_entry [OF inv] s'(7)
        split: option.split)
  then show ?thesis using False s' by auto
qed

text \<open>An unaligned page-sized region lies in two pages.\<close>

lemma unaligned_pages:
  fixes addr :: u64
  assumes addr: "unat addr mod 4096 \<noteq> 0" "unat addr + 8192 \<le> 2 ^ 64"
  defines "p \<equiv> page_floor addr" and "rng \<equiv> get_page_range addr pageSize"
  shows "pages_from (first_page rng) ((unat (last_page rng) - unat (first_page rng)) div 4096)
      = [p, p + pageSize]"
    and "same_page addr p" "same_page (addr + pageSize) (p + pageSize)" "\<not> same_page addr (p + pageSize)"
proof -
  obtain q m where q: "unat addr = 4096 * q + m" "m < 4096"
    using div_mult_mod_eq [of "unat addr" 4096] mod_less_divisor [of 4096 "unat addr"]
    by (metis mult.commute zero_less_numeral)
  have m: "0 < m" using addr(1) q by (cases m) simp_all
  have p: "unat p = 4096 * q" using q by (simp add: p_def unat_page_floor)
  have "unat addr + unat pageSize \<le> 2 ^ 64 - 4096" using addr(2) by simp
  moreover have "(4096 * q + m + 4096 + 4095) div 4096 = q + 2"
    using q(2) m by (intro div_nat_eqI) auto
  ultimately have "unat (last_page rng) = 4096 * (q + 2)"
    using get_page_range_bounds(2) [of pageSize addr] q(1) by (simp add: rng_def)
  moreover have "first_page rng = p" by (simp add: get_page_range_def p_def rng_def)
  ultimately show "pages_from (first_page rng) ((unat (last_page rng) - unat (first_page rng)) div 4096)
      = [p, p + pageSize]"
    by (simp add: p numeral_2_eq_2)
  have sum: "unat (p + pageSize) = 4096 * (q + 1)" "unat (addr + pageSize) = 4096 * (q + 1) + m"
    using unat_add_no_wrap [of p pageSize] unat_add_no_wrap [of addr pageSize] p q addr(2) by simp_all
  have num: "(4096 * x + m) div 4096 = x" for x using q(2) by simp
  show "same_page addr p" "same_page (addr + pageSize) (p + pageSize)"
    unfolding same_page_number q(1) p sum num by simp_all
  show "\<not> same_page addr (p + pageSize)"
    unfolding same_page_number q(1) sum num using add_mod_inject [of q 0 "2 ^ 36" 1] by auto
qed

text \<open>A page fault at an address that is not page-aligned remaps two pages. The handler calls
  \<^verbatim>\<open>paging_allocate_and_map\<close> with the faulting address and the length of one page, a region that
  reaches into the following page: that page translates to a newly allocated frame afterwards,
  whatever it was mapped to, so its contents are lost.\<close>

lemma unaligned_fault_remaps_next_page:
  fixes s :: "'z paging_state_scheme"
  assumes inv: "paging_inv s r" and flags: "flags AND child_mask = 0"
    and addr: "unat addr mod 4096 \<noteq> 0" "unat addr + 8192 \<le> 2 ^ 64"
    and free: "8 \<le> length (free_frames s)"
  shows "\<exists>s' f g. paging_allocate_and_map addr pageSize flags s = ret s' \<and>
    f \<in> set (free_frames s) \<and> g \<in> set (free_frames s) \<and> f \<noteq> g \<and>
    paging_get_translation s' addr = ret \<lparr>physical_address = f,
      translation_flags = (flags OR PageFlags_Present) AND 0xff\<rparr> \<and>
    paging_get_translation s' (addr + pageSize) = ret \<lparr>physical_address = g,
      translation_flags = (flags OR PageFlags_Present) AND 0xff\<rparr>"
proof -
  define p where "p = page_floor addr"
  note pages = unaligned_pages [OF addr, folded p_def]
  have "needed s r [p, p + pageSize] \<le> 6" using needed_le [of s r "[p, p + pageSize]"] by simp
  then have enough: "\<not> length (free_frames s) < length [p, p + pageSize] + needed s r [p, p + pageSize]"
    using free by simp
  have "allocated_result r flags [p, p + pageSize] s (paging_allocate_and_map addr pageSize flags s)"
    using paging_allocate_and_map_result [OF inv flags, of pageSize addr] pages(1) by simp
  then obtain s' gs where s': "paging_allocate_and_map addr pageSize flags s = ret s'" "paging_inv s' r"
    "length gs = Suc (Suc 0)" "distinct gs" "set gs \<subseteq> set (free_frames s)"
    "\<And>va. page_entry s' r va = (case last_entry va (zip [p, p + pageSize] (map (\<lambda>g. (g, flags)) gs)) of
        Some e \<Rightarrow> e | None \<Rightarrow> page_entry s r va)"
    using enough unfolding allocated_result_def by auto
  obtain f g where gs: "gs = [f, g]" using s'(3) by (auto simp: length_Suc_conv)
  have fg: "node_frame f" "node_frame g"
    using s'(5) gs inv tree_invD(4) [of s r] by (auto simp: paging_inv_def)
  have "page_entry s' r addr = flagged f flags" "page_entry s' r (addr + pageSize) = flagged g flags"
    using pages(2-) by (simp_all add: s'(6) gs)
  then show ?thesis
    using s'(1,4,5) gs paging_get_translation_entry [OF s'(2)] node_frame_masked [OF fg(1)]
      node_frame_masked [OF fg(2)]
    by (intro exI [of _ s'] exI [of _ f] exI [of _ g]) (simp add: flagged_child [OF flags] flagged_flags)
qed


section \<open>The free regions\<close>

definition region_bytes :: "MemoryRegion \<Rightarrow> nat set" where
  "region_bytes u = {unat (region_base u)..<unat (region_base u) + unat (region_size u)}"

text \<open>The addresses from \<open>b\<close> up to the last range that lie in no range.\<close>

definition free_space :: "nat \<Rightarrow> MemoryRegion list \<Rightarrow> nat set" where
  "free_space b us = {x. b \<le> x \<and> (\<exists>u \<in> set us. x < unat (region_base u)) \<and> (\<forall>u \<in> set us. x \<notin> region_bytes u)}"

definition ranges_ok :: "MemoryRegion list \<Rightarrow> bool" where
  "ranges_ok us \<longleftrightarrow> sorted (map (\<lambda>u. unat (region_base u)) us) \<and>
     list_all (\<lambda>u. unat (region_base u) + unat (region_size u) < 2 ^ 64) us"

lemma free_space_skip:
  assumes "ranges_ok (u # us)" "unat (region_base u) \<le> b"
  shows "free_space b (u # us) = free_space (max b (unat (region_base u) + unat (region_size u))) us"
  using assms by (auto simp: free_space_def region_bytes_def)

lemma free_space_emit:
  assumes "ranges_ok (u # us)" "b < unat (region_base u)"
  shows "free_space b (u # us) = {b..<unat (region_base u)}
    \<union> free_space (unat (region_base u) + unat (region_size u)) us"
proof (intro set_eqI iffI)
  fix x assume "x \<in> free_space b (u # us)"
  then show "x \<in> {b..<unat (region_base u)} \<union> free_space (unat (region_base u) + unat (region_size u)) us"
    by (auto simp: free_space_def region_bytes_def)
next
  fix x assume "x \<in> {b..<unat (region_base u)} \<union> free_space (unat (region_base u) + unat (region_size u)) us"
  then show "x \<in> free_space b (u # us)"
    using assms by (fastforce simp: free_space_def region_bytes_def ranges_ok_def)
qed

lemma free_regions_fold:
  assumes "ranges_ok us" and "i + length us \<le> length arr"
  shows "\<exists>b' i' arr'. res_fold free_region_step us (b, i, arr) = ret (b', i', arr') \<and>
    length arr' = length arr \<and> i \<le> i' \<and> i' \<le> i + length us \<and> drop i' arr' = drop i' arr \<and>
    \<Union> (region_bytes ` set (take i' arr')) = \<Union> (region_bytes ` set (take i arr)) \<union> free_space (unat b) us"
  using assms
proof (induction us arbitrary: b i arr)
  case Nil
  then show ?case by (simp add: free_space_def)
next
  case (Cons u us)
  let ?ub = "region_base u" and ?ue = "region_base u + region_size u"
  have ok: "ranges_ok us" using Cons.prems(1) by (simp add: ranges_ok_def)
  have ue: "unat ?ue = unat ?ub + unat (region_size u)"
    using Cons.prems(1) by (intro unat_add_no_wrap) (simp add: ranges_ok_def)
  show ?case
  proof (cases "?ub \<le> b")
    case True
    have "unat (kpp_max b ?ue) = max (unat b) (unat ?ue)"
      by (auto simp: kpp_max_def word_less_nat_alt)
    then have "free_space (unat b) (u # us) = free_space (unat (kpp_max b ?ue)) us"
      using free_space_skip [OF Cons.prems(1), of "unat b"] True ue by (simp add: word_le_nat_alt)
    moreover have "free_region_step u (b, i, arr) = ret (kpp_max b ?ue, i, arr)"
      using True by (simp add: free_region_step_def Let_def)
    moreover obtain b' i' arr' where "res_fold free_region_step us (kpp_max b ?ue, i, arr) = ret (b', i', arr')"
      "length arr' = length arr" "i \<le> i'" "i' \<le> i + length us" "drop i' arr' = drop i' arr"
      "\<Union> (region_bytes ` set (take i' arr'))
        = \<Union> (region_bytes ` set (take i arr)) \<union> free_space (unat (kpp_max b ?ue)) us"
      using Cons.IH [OF ok, of i arr "kpp_max b ?ue"] Cons.prems(2) by auto
    ultimately show ?thesis
      by (intro exI [of _ b'] exI [of _ i'] exI [of _ arr']) simp
  next
    case False
    let ?x = "\<lparr>region_base = b, region_size = ?ub - b\<rparr>"
    have lt: "unat b < unat ?ub" using False by (simp add: word_le_nat_alt)
    have "unat (?ub - b) = unat ?ub - unat b" using lt by (simp add: unat_sub word_le_nat_alt)
    then have bytes: "region_bytes ?x = {unat b..<unat ?ub}" using lt by (simp add: region_bytes_def)
    have i: "i < length arr" using Cons.prems(2) by simp
    then have tk: "\<Union> (region_bytes ` set (take (Suc i) (arr[i := ?x])))
        = \<Union> (region_bytes ` set (take i arr)) \<union> {unat b..<unat ?ub}"
      using bytes by (simp add: take_Suc_conv_app_nth Un_commute)
    have step: "free_region_step u (b, i, arr) = ret (?ue, Suc i, arr[i := ?x])"
      using False i by (simp add: free_region_step_def Let_def)
    obtain b' i' arr' where IH: "res_fold free_region_step us (?ue, Suc i, arr[i := ?x]) = ret (b', i', arr')"
      "length arr' = length arr" "Suc i \<le> i'" "i' \<le> Suc i + length us" "drop i' arr' = drop i' (arr[i := ?x])"
      "\<Union> (region_bytes ` set (take i' arr'))
        = \<Union> (region_bytes ` set (take (Suc i) (arr[i := ?x]))) \<union> free_space (unat ?ue) us"
      using Cons.IH [OF ok, of "Suc i" "arr[i := ?x]" ?ue] Cons.prems(2) by auto
    then show ?thesis
      using step tk free_space_emit [OF Cons.prems(1) lt] ue
      by (intro exI [of _ b'] exI [of _ i'] exI [of _ arr']) (simp add: Un_assoc)
  qed
qed

text \<open>C25. \<^verbatim>\<open>paging_get_initial_free_regions\<close> finds exactly the free virtual memory: when the
  unavailable ranges are in ascending order and end below \<open>2 ^ 64\<close>, it returns 16 regions whose
  bytes are the addresses from \<open>0x1000\<close> to the last range that lie in no unavailable range; the
  check for the number of regions never fires.\<close>

theorem initial_free_regions_exact:
  fixes s :: "'z paging_state_scheme"
  assumes "ranges_ok (unavailable_virtual_memory_ranges s)"
  shows "\<exists>regions. paging_get_initial_free_regions s = ret regions \<and> length regions = 16 \<and>
    \<Union> (region_bytes ` set regions) = free_space 0x1000 (unavailable_virtual_memory_ranges s)"
proof -
  let ?z = "\<lparr>region_base = 0, region_size = 0\<rparr> :: MemoryRegion"
  let ?us = "unavailable_virtual_memory_ranges s"
  have l: "0 + length ?us \<le> length (replicate 16 ?z)" by (simp add: unavailable_virtual_memory_ranges_def)
  obtain b' i' arr where r: "res_fold free_region_step ?us (0x1000, 0, replicate 16 ?z) = ret (b', i', arr)"
    "length arr = 16" "drop i' arr = drop i' (replicate 16 ?z)"
    "\<Union> (region_bytes ` set (take i' arr)) = free_space 0x1000 ?us"
    using free_regions_fold [OF assms l, of "0x1000"] by auto
  have "\<Union> (region_bytes ` set (drop i' arr)) = {}"
    by (auto simp: r(3) region_bytes_def dest: in_set_dropD)
  moreover have "set arr = set (take i' arr) \<union> set (drop i' arr)"
    by (metis append_take_drop_id set_append)
  ultimately have "\<Union> (region_bytes ` set arr) = free_space 0x1000 ?us" using r(4) by simp
  then show ?thesis
    using r(1,2) by (simp add: paging_get_initial_free_regions_def paging_num_free_memory_regions_def)
qed


section \<open>An example\<close>

text \<open>Eight free frames below a stack array at \<open>0x1000\<close>, the kernel linked at the usual address.\<close>

definition example_kernel :: paging_state where
  "example_kernel = \<lparr>mem = write_u64 0x1000 0x2000 (write_u64 0x1008 0x3000 (write_u64 0x1010 0x4000
       (write_u64 0x1018 0x5000 (write_u64 0x1020 0x6000 (write_u64 0x1028 0x7000
       (write_u64 0x1030 0x8000 (write_u64 0x1038 0x9000 (\<lambda>_. 0)))))))),
     hhdm_offset = 0xffff800000000000, memory_map = memory_map example_boot,
     free_stack = \<lparr>buffer = \<lparr>m_stack = 0x1000, m_maxSize = 8, m_size = 8\<rparr>, is_present = True\<rparr>,
     page_tree = \<lparr>buffer = \<lparr>root_node = 0xffff80000000f000\<rparr>, is_present = True\<rparr>, ptbr = 0,
     kernel_physical_base = 0x200000,
     kernel_readonly_start = 0xffffffff80000000, kernel_readonly_end = 0xffffffff80010000,
     kernel_rw_start = 0xffffffff80010000, kernel_rw_end = 0xffffffff80020000\<rparr>"

definition example_space :: paging_state where
  "example_space = snd (PageTree_init (kernel_physical_to_virtual example_kernel 0xf000) example_kernel)"

lemma example_kernel_frames:
  "free_frames example_kernel = [0x9000, 0x8000, 0x7000, 0x6000, 0x5000, 0x4000, 0x3000, 0x2000]"
  by (simp add: free_frames_def example_kernel_def Optional_deref_def stack_contents_def slot_def
      load64_def upt_rec sep8_def)

lemma example_kernel_inv: "frame_inv example_kernel"
  by (simp add: frame_inv_def stack_inv_def Optional_deref_def example_kernel_def)

lemma example_kernel_apart: "frames_apart example_kernel 0xf000"
proof -
  have "off_stack example_kernel n \<longleftrightarrow> unat n + 4096 \<le> 4096 \<or> 4160 \<le> unat n" for n
    by (simp add: off_stack_def example_kernel_def)
  then show ?thesis
    unfolding frames_apart_def example_kernel_frames by (simp add: example_kernel_inv node_frame_def)
qed

lemmas example_space_facts = PageTree_init_tree [OF example_kernel_apart, folded example_space_def]

lemma example_space_inv: "paging_inv example_space 0xf000"
  using example_space_facts(1,3)
  by (simp add: paging_inv_def kernel_physical_to_virtual_def)
     (simp add: example_space_def PageTree_init_def PageTreeNode_init_def zero_object_def example_kernel_def)

lemma example_space_missing: "missing_paths example_space 0xf000 page = set (page_nodes page)"
  using example_space_facts(4)
  by (auto simp: missing_paths_def page_nodes_path page_path_def simp del: node_at.simps)

lemma write_flag_ok: "PageFlags_Write AND child_mask = 0"
  by (simp add: PageFlags_Write_def child_mask_def)

theorem paging_add_mapping_maps_region_witness:
  "\<exists>s'. paging_add_mapping 0x7000 0xb000 0x1000 PageFlags_Write example_space = ret s' \<and>
     paging_get_translation s' 0x7123 = ret \<lparr>physical_address = 0xb000, translation_flags = 3\<rparr>"
proof -
  have rng: "get_page_range 0x7000 0x1000 = \<lparr>first_page = 0x7000, last_page = 0x8000\<rparr>"
    by (simp add: get_page_range_def page_floor_def page_ceil_def pageSize_def UINT64_MAX_def)
  have run: "region_run 0x7000 0xb000 0x1000 PageFlags_Write = [(0x7000, 0xb000, PageFlags_Write)]"
    by (simp add: region_run_def rng page_floor_def pageSize_def)
  have "card (set (page_nodes 0x7000)) \<le> 3"
    using card_length [of "page_nodes 0x7000"] by (simp add: page_nodes_path)
  then have n: "\<not> length (free_frames example_space) < needed example_space 0xf000 [0x7000]"
    by (simp add: needed_def example_space_missing example_space_facts(2) example_kernel_frames)
  have h: "unat (0x1000 :: u64) \<le> 2 ^ 48 - 8192" by simp
  obtain s' where s': "paging_add_mapping 0x7000 0xb000 0x1000 PageFlags_Write example_space = ret s'"
    "\<And>va. 0x7000 \<le> va \<and> va < 0x8000 \<longrightarrow> paging_get_translation s' va =
        ret \<lparr>physical_address = (page_floor 0xb000 + (page_floor va - 0x7000)) AND child_mask,
             translation_flags = (PageFlags_Write OR PageFlags_Present) AND 0xff\<rparr>"
    using paging_add_mapping_maps_region [where base = "0x7000" and phys = "0xb000",
        OF example_space_inv write_flag_ok h, unfolded run rng] n by auto
  show ?thesis
    using s'(1) s'(2) [of "0x7123"]
    by (simp add: page_floor_def pageSize_def child_mask_def PageFlags_Write_def PageFlags_Present_def)
qed

theorem paging_allocate_and_map_fresh_witness:
  "\<exists>s' f. paging_allocate_and_map 0x7000 0x1000 PageFlags_Write example_space = ret s' \<and>
     f \<in> set (free_frames example_kernel) \<and> f \<notin> set (free_frames s')"
proof -
  have rng: "get_page_range 0x7000 0x1000 = \<lparr>first_page = 0x7000, last_page = 0x8000\<rparr>"
    by (simp add: get_page_range_def page_floor_def page_ceil_def pageSize_def UINT64_MAX_def)
  have n: "needed example_space 0xf000 [0x7000] \<le> 3" using needed_le [of _ _ "[0x7000]"] by simp
  have h: "unat (0x1000 :: u64) \<le> 2 ^ 64 - 4096" by simp
  show ?thesis
    using paging_allocate_and_map_fresh [where base = "0x7000", OF example_space_inv write_flag_ok h] n
    by (auto simp: rng example_space_facts(2) example_kernel_frames length_Suc_conv)
qed

lemma unaligned_fault_remaps_next_page_example:
  "\<exists>s' g. paging_allocate_and_map 0x7123 pageSize PageFlags_Write example_space = ret s' \<and>
     g \<in> set (free_frames example_kernel) \<and>
     paging_get_translation s' 0x8123 = ret \<lparr>physical_address = g, translation_flags = 3\<rparr>"
proof -
  have h: "unat (0x7123 :: u64) mod 4096 \<noteq> 0" "unat (0x7123 :: u64) + 8192 \<le> 2 ^ 64"
    "8 \<le> length (free_frames example_space)"
    by (simp_all add: example_space_facts(2) example_kernel_frames)
  show ?thesis
    using unaligned_fault_remaps_next_page [OF example_space_inv write_flag_ok h]
    by (auto simp: example_space_facts(2) pageSize_def PageFlags_Write_def PageFlags_Present_def)
qed

theorem paging_init_boot_mappings_witness:
  "if 7 < boot_nodes example_kernel
   then paging_init example_kernel = kernel_panic ''ran out of physical memory to allocate!''
   else \<exists>s'. paging_init example_kernel = ret s' \<and> ptbr s' = 0x9000"
proof -
  have ok: "boot_frames_ok example_kernel"
    using example_kernel_apart by (simp add: frames_apart_def boot_frames_ok_def)
  have sizes: "unat (kernel_readonly_end example_kernel - kernel_readonly_start example_kernel) \<le> 2 ^ 64 - 4096"
    "unat (kernel_rw_end example_kernel - kernel_rw_start example_kernel) \<le> 2 ^ 64 - 4096"
    by (simp_all add: example_kernel_def)
  have "memory_map example_kernel = memory_map example_boot" by (simp add: example_kernel_def)
  then have entries: "\<forall>e \<in> set (memory_map example_kernel).
      entry_type e = LIMINE_MEMMAP_BOOTLOADER_RECLAIMABLE \<longrightarrow> entry_ok e"
    using example_entry_ok by simp
  show ?thesis
    using paging_init_boot_mappings [OF ok example_kernel_frames sizes entries] by auto
qed

theorem initial_free_regions_exact_witness:
  "\<exists>regions. paging_get_initial_free_regions example_kernel = ret regions \<and>
     0x200000000 \<in> \<Union> (region_bytes ` set regions)"
proof -
  have "ranges_ok (unavailable_virtual_memory_ranges example_kernel)"
    by (simp add: ranges_ok_def unavailable_virtual_memory_ranges_def initial_mappings_def example_kernel_def)
  moreover have "0x200000000 \<in> free_space 0x1000 (unavailable_virtual_memory_ranges example_kernel)"
    by (simp add: free_space_def region_bytes_def unavailable_virtual_memory_ranges_def
        initial_mappings_def example_kernel_def)
  ultimately show ?thesis using initial_free_regions_exact [of example_kernel] by metis
qed

end
