(* ===== verification/Processor.thy ===== *)
theory Processor
  imports Paging
begin

text \<open>
  The processor module (\<^verbatim>\<open>processor.cpp\<close>): CPUID feature tests, model-specific registers, port
  I/O, the legacy interrupt controllers (PIC) and the PS/2 keyboard controller.

  What the devices answer is not code of the kernel: it is the parameter \<open>devices\<close>, functions of
  the events so far. The kernel's own actions on them are recorded in order in \<open>io_trace\<close>.
\<close>

section \<open>Devices and events\<close>

datatype io_event =
    Outb u16 u8
  | Inb u16 u8
  | Wrmsr u32 u32 u32
  | Rdmsr u32 u32 u32
  | MmioWrite u64 u32
  | MmioRead u64 u32
  | Sti
  | Lgdt "u8 list"
  | Lidt "u8 list"
  | ReloadSegments u64 u64

record devices =
  port_in :: "io_event list \<Rightarrow> u16 \<Rightarrow> u8"
  msr_in :: "io_event list \<Rightarrow> u32 \<Rightarrow> u32 \<times> u32"
  mmio_in :: "io_event list \<Rightarrow> u64 \<Rightarrow> u32"
  cpuid_1_edx :: u32

record io_state = paging_state +
  io_trace :: "io_event list"

definition emit :: "io_event \<Rightarrow> 'z io_state_scheme \<Rightarrow> 'z io_state_scheme" where
  "emit e s = s\<lparr>io_trace := io_trace s @ [e]\<rparr>"

section \<open>Features and model-specific registers\<close>

text \<open>The enumerators of \<^verbatim>\<open>CpuIdFeature\<close> with their values, for the two registers of the answer.\<close>

definition CpuIdFeature_ECX :: "(string \<times> u32) list" where
  "CpuIdFeature_ECX = [
    (''ECX_SSE3'', push_bit 0 1), (''ECX_PCLMUL'', push_bit 1 1), (''ECX_DTES64'', push_bit 2 1),
    (''ECX_MONITOR'', push_bit 3 1), (''ECX_DS_CPL'', push_bit 4 1), (''ECX_VMX'', push_bit 5 1),
    (''ECX_SMX'', push_bit 6 1), (''ECX_EST'', push_bit 7 1), (''ECX_TM2'', push_bit 8 1),
    (''ECX_SSSE3'', push_bit 9 1), (''ECX_CID'', push_bit 10 1), (''ECX_SDBG'', push_bit 11 1),
    (''ECX_FMA'', push_bit 12 1), (''ECX_CX16'', push_bit 13 1), (''ECX_XTPR'', push_bit 14 1),
    (''ECX_PDCM'', push_bit 15 1), (''ECX_PCID'', push_bit 17 1), (''ECX_DCA'', push_bit 18 1),
    (''ECX_SSE4_1'', push_bit 19 1), (''ECX_SSE4_2'', push_bit 20 1), (''ECX_X2APIC'', push_bit 21 1),
    (''ECX_MOVBE'', push_bit 22 1), (''ECX_POPCNT'', push_bit 23 1), (''ECX_TSC'', push_bit 24 1),
    (''ECX_AES'', push_bit 25 1), (''ECX_XSAVE'', push_bit 26 1), (''ECX_OSXSAVE'', push_bit 27 1),
    (''ECX_AVX'', push_bit 28 1), (''ECX_F16C'', push_bit 29 1), (''ECX_RDRAND'', push_bit 30 1),
    (''ECX_HYPERVISOR'', push_bit 31 1)]"

definition CpuIdFeature_EDX :: "(string \<times> u32) list" where
  "CpuIdFeature_EDX = [
    (''EDX_FPU'', push_bit 0 1), (''EDX_VME'', push_bit 1 1), (''EDX_DE'', push_bit 2 1),
    (''EDX_PSE'', push_bit 3 1), (''EDX_TSC'', push_bit 4 1), (''EDX_MSR'', push_bit 5 1),
    (''EDX_PAE'', push_bit 6 1), (''EDX_MCE'', push_bit 7 1), (''EDX_CX8'', push_bit 8 1),
    (''EDX_APIC'', push_bit 9 1), (''EDX_SEP'', push_bit 11 1), (''EDX_MTRR'', push_bit 12 1),
    (''EDX_PGE'', push_bit 13 1), (''EDX_MCA'', push_bit 14 1), (''EDX_CMOV'', push_bit 15 1),
    (''EDX_PAT'', push_bit 16 1), (''EDX_PSE36'', push_bit 17 1), (''EDX_PSN'', push_bit 18 1),
    (''EDX_CLFLUSH'', push_bit 19 1), (''EDX_DS'', push_bit 21 1), (''EDX_ACPI'', push_bit 22 1),
    (''EDX_MMX'', push_bit 23 1), (''EDX_FXSR'', push_bit 24 1), (''EDX_SSE'', push_bit 25 1),
    (''EDX_SSE2'', push_bit 26 1), (''EDX_SS'', push_bit 27 1), (''EDX_HTT'', push_bit 28 1),
    (''EDX_TM'', push_bit 29 1), (''EDX_IA64'', push_bit 30 1), (''EDX_PBE'', push_bit 31 1)]"

definition EDX_MSR :: u32 where "EDX_MSR = push_bit 5 1"
definition EDX_APIC :: u32 where "EDX_APIC = push_bit 9 1"
definition EDX_PAT :: u32 where "EDX_PAT = push_bit 16 1"

text \<open>Each enumerator has a bit of its register to itself; the bits without a name are the reserved ones.\<close>

lemma cpuid_feature_bits:
  "map snd CpuIdFeature_ECX = map (\<lambda>k. push_bit k 1) (filter (\<lambda>k. k \<noteq> 16) [0..<32])"
  "map snd CpuIdFeature_EDX = map (\<lambda>k. push_bit k 1) (filter (\<lambda>k. k \<noteq> 10 \<and> k \<noteq> 20) [0..<32])"
  "map_of CpuIdFeature_EDX ''EDX_MSR'' = Some EDX_MSR" "map_of CpuIdFeature_EDX ''EDX_APIC'' = Some EDX_APIC"
  "map_of CpuIdFeature_EDX ''EDX_PAT'' = Some EDX_PAT"
  by (simp_all add: CpuIdFeature_ECX_def CpuIdFeature_EDX_def upt_rec EDX_MSR_def EDX_APIC_def EDX_PAT_def)

definition hasMSR :: "devices \<Rightarrow> bool" where
  "hasMSR d \<longleftrightarrow> cpuid_1_edx d AND EDX_MSR \<noteq> 0"

definition hasLocalAPIC :: "devices \<Rightarrow> bool" where
  "hasLocalAPIC d \<longleftrightarrow> cpuid_1_edx d AND EDX_APIC \<noteq> 0"

definition hasPAT :: "devices \<Rightarrow> bool" where
  "hasPAT d \<longleftrightarrow> cpuid_1_edx d AND EDX_PAT \<noteq> 0"

definition readMSR ::
  "devices \<Rightarrow> u32 \<Rightarrow> 'z io_state_scheme \<Rightarrow> ((u32 \<times> u32) \<times> 'z io_state_scheme) res" where
  "readMSR d msr s =
     (if \<not> hasMSR d then kernel_panic ''processor does not support MSR''
      else let (low, high) = msr_in d (io_trace s) msr
           in ret ((low, high), emit (Rdmsr msr low high) s))"

definition writeMSR ::
  "devices \<Rightarrow> u32 \<Rightarrow> u32 \<Rightarrow> u32 \<Rightarrow> 'z io_state_scheme \<Rightarrow> 'z io_state_scheme res" where
  "writeMSR d msr low high s =
     (if \<not> hasMSR d then kernel_panic ''processor does not support MSR''
      else ret (emit (Wrmsr msr low high) s))"

text \<open>The build does not define \<^verbatim>\<open>__PHYSICAL_MEMORY_EXTENSION__\<close>: the second branch is compiled.\<close>

definition localAPICBaseAddress ::
  "devices \<Rightarrow> 'z io_state_scheme \<Rightarrow> (u64 \<times> 'z io_state_scheme) res" where
  "localAPICBaseAddress d s =
     (if \<not> hasLocalAPIC d then kernel_panic ''processor does not support local APIC''
      else res_bind (readMSR d 0x1B s) (\<lambda>((low, high), s). ret (ucast (low AND 0xfffff000), s)))"

definition hardwareEnableLocalAPICAndSetBaseAddress ::
  "devices \<Rightarrow> u64 \<Rightarrow> 'z io_state_scheme \<Rightarrow> 'z io_state_scheme res" where
  "hardwareEnableLocalAPICAndSetBaseAddress d physicalBaseAddress s =
     (if \<not> hasLocalAPIC d then kernel_panic ''processor does not support local APIC''
      else let high = 0;
               ia32ApicBaseEnable = push_bit 11 1;
               low = ucast ((physicalBaseAddress AND 0xfffff000) OR ia32ApicBaseEnable)
           in writeMSR d 0x1B low high s)"

section \<open>Port input and output\<close>

definition outb :: "u16 \<Rightarrow> u8 \<Rightarrow> 'z io_state_scheme \<Rightarrow> 'z io_state_scheme" where
  "outb port value s = emit (Outb port value) s"

definition inb :: "devices \<Rightarrow> u16 \<Rightarrow> 'z io_state_scheme \<Rightarrow> u8 \<times> 'z io_state_scheme" where
  "inb d port s = (let value = port_in d (io_trace s) port in (value, emit (Inb port value) s))"

definition ioWait :: "'z io_state_scheme \<Rightarrow> 'z io_state_scheme" where
  "ioWait s = outb 0x80 0 s"

definition remapPIC ::
  "devices \<Rightarrow> int \<Rightarrow> int \<Rightarrow> 'z io_state_scheme \<Rightarrow> 'z io_state_scheme" where
  "remapPIC d offset1 offset2 s =
     (let ICW1_ICW4 = 0x01; ICW1_Init = 0x10; ICW4_8086 = 0x01;
          PIC1Command = 0x20; PIC1Data = 0x21; PIC2Command = 0xA0; PIC2Data = 0xA1;
          (a1, s) = inb d PIC1Data s;
          (a2, s) = inb d PIC2Data s;
          s = ioWait (outb PIC1Command (ICW1_Init OR ICW1_ICW4) s);
          s = ioWait (outb PIC2Command (ICW1_Init OR ICW1_ICW4) s);
          s = ioWait (outb PIC1Data (word_of_int offset1) s);
          s = ioWait (outb PIC2Data (word_of_int offset2) s);
          s = ioWait (outb PIC1Data 4 s);
          s = ioWait (outb PIC2Data 2 s);
          s = ioWait (outb PIC1Data ICW4_8086 s);
          s = ioWait (outb PIC2Data ICW4_8086 s);
          s = outb PIC1Data a1 s
      in outb PIC2Data a2 s)"

definition disablePIC :: "'z io_state_scheme \<Rightarrow> 'z io_state_scheme" where
  "disablePIC s =
     (let pic1DataPort = 0x21; pic2DataPort = 0xA1
      in outb pic2DataPort 0xff (outb pic1DataPort 0xff s))"

text \<open>\<^verbatim>\<open>while (test(inb(port)));\<close>, which need not end.\<close>

partial_function (option) poll_while ::
  "(u8 \<Rightarrow> bool) \<Rightarrow> devices \<Rightarrow> u16 \<Rightarrow> 'z io_state_scheme \<Rightarrow> 'z io_state_scheme res" where
  "poll_while test d port s =
     (if test (fst (inb d port s)) then poll_while test d port (snd (inb d port s))
      else ret (snd (inb d port s)))"

definition input_full :: "u8 \<Rightarrow> bool" where
  "input_full status \<longleftrightarrow> status AND 0x02 \<noteq> 0"

definition output_empty :: "u8 \<Rightarrow> bool" where
  "output_empty status \<longleftrightarrow> status AND 0x01 = 0"

definition initKeyboardController ::
  "devices \<Rightarrow> 'z io_state_scheme \<Rightarrow> 'z io_state_scheme res" where
  "initKeyboardController d s =
     res_bind (poll_while input_full d 0x64 s) (\<lambda>s.
     let s = ioWait (outb 0x64 0xAE s) in
     res_bind (poll_while input_full d 0x64 s) (\<lambda>s.
     let s = ioWait (outb 0x64 0x20 s) in
     res_bind (poll_while output_empty d 0x64 s) (\<lambda>s.
     let (commandByte, s) = inb d 0x60 s;
         commandByte = commandByte OR 0x01;
         commandByte = commandByte AND NOT 0x10 in
     res_bind (poll_while input_full d 0x64 s) (\<lambda>s.
     let s = ioWait (outb 0x64 0x60 s) in
     res_bind (poll_while input_full d 0x64 s) (\<lambda>s.
     ret (ioWait (outb 0x60 commandByte s)))))))"

section \<open>The local APIC base register\<close>

text \<open>What the processor's manual says of a model-specific register: a read returns what was last
  written to it.\<close>

fun last_msr :: "u32 \<Rightarrow> u32 \<times> u32 \<Rightarrow> io_event list \<Rightarrow> u32 \<times> u32" where
  "last_msr msr v [] = v"
| "last_msr msr v (e # es) =
     last_msr msr (case e of Wrmsr m low high \<Rightarrow> if m = msr then (low, high) else v | _ \<Rightarrow> v) es"

definition msr_keeps :: "devices \<Rightarrow> bool" where
  "msr_keeps d \<longleftrightarrow> (\<forall>h msr. msr_in d h msr = last_msr msr (msr_in d [] msr) h)"

lemma last_msr_append: "last_msr msr v (xs @ ys) = last_msr msr (last_msr msr v xs) ys"
  by (induction xs arbitrary: v) simp_all

lemma apic_low_mask:
  "ucast (ucast ((a AND 0xfffff000) OR push_bit 11 1 :: u64) AND (0xfffff000 :: u32)) = a AND (0xfffff000 :: u64)"
proof (rule bit_eqI)
  fix k
  have m: "(0xfffff000 :: u64) = push_bit 12 (mask 20)" "(0xfffff000 :: u32) = push_bit 12 (mask 20)"
    by (simp_all add: mask_eq_exp_minus_1)
  show "bit (ucast (ucast ((a AND 0xfffff000) OR push_bit 11 1 :: u64) AND (0xfffff000 :: u32)) :: u64) k
    = bit (a AND (0xfffff000 :: u64)) k"
    unfolding m
    by (simp only: bit_unsigned_iff bit_and_iff bit_or_iff bit_push_bit_iff bit_mask_iff bit_1_iff) auto
qed

text \<open>Enabling the local APIC at an address and reading the base register back gives the address,
  cut to its bits 12 to 31, and the enable bit is set in the value written. An address at or above
  4 GiB does not survive.\<close>

lemma apic_base_roundtrip:
  fixes s :: "'z io_state_scheme"
  assumes "hasMSR d" and "hasLocalAPIC d" and "msr_keeps d"
  shows "\<exists>s' s''. hardwareEnableLocalAPICAndSetBaseAddress d base s = ret s' \<and>
    localAPICBaseAddress d s' = ret (base AND 0xfffff000, s'') \<and>
    (\<exists>low. io_trace s' = io_trace s @ [Wrmsr 0x1B low 0] \<and> bit low 11)"
proof -
  let ?low = "ucast ((base AND 0xfffff000) OR push_bit 11 1) :: u32"
  let ?s = "emit (Wrmsr 0x1B ?low 0) s"
  have r: "msr_in d (io_trace s @ [Wrmsr 0x1B ?low 0]) 0x1B = (?low, 0)"
    using assms(3) [unfolded msr_keeps_def, rule_format, of "io_trace s @ [Wrmsr 0x1B ?low 0]" "0x1B"]
    by (simp add: last_msr_append)
  have "hardwareEnableLocalAPICAndSetBaseAddress d base s = ret ?s"
    using assms(1,2) by (simp add: hardwareEnableLocalAPICAndSetBaseAddress_def writeMSR_def)
  moreover have "\<exists>s''. localAPICBaseAddress d ?s = ret (base AND 0xfffff000, s'')"
    using assms(1,2) r apic_low_mask [of base]
    by (simp add: localAPICBaseAddress_def readMSR_def emit_def del: push_bit_of_1)
  moreover have "bit ?low 11"
    by (simp only: bit_unsigned_iff bit_or_iff bit_push_bit_iff bit_1_iff) simp
  ultimately show ?thesis by (auto simp: emit_def)
qed

section \<open>The interrupt controllers\<close>

text \<open>The documented behaviour of one 8259A controller at a command port (its data port is the next
  one). A command byte with bit 4 is the first initialisation word: it clears the interrupt mask and the
  mode, and its bits 0 and 1 say whether a fourth word follows and whether there is a single
  controller. The bytes at the data port are then the vector offset, of which the low three bits are ignored, the
  cascade wiring (not for a single controller) and the mode (if announced); \<open>init_step\<close> is the number
  of the last word received, 0 when none is awaited. Any other byte at the data port is the interrupt mask.\<close>

record pic =
  init_step :: nat
  expects_icw4 :: bool
  single :: bool
  vector_offset :: u8
  cascade :: u8
  pic_mode :: u8
  irq_mask :: u8

definition pic_data :: "u8 \<Rightarrow> pic \<Rightarrow> pic" where
  "pic_data v c =
     (let last_word = (if expects_icw4 c then 3 else 0) in
      if init_step c = 1
      then c\<lparr>vector_offset := v AND 0xf8, init_step := (if single c then last_word else 2)\<rparr>
      else if init_step c = 2 then c\<lparr>cascade := v, init_step := last_word\<rparr>
      else if init_step c = 3 then c\<lparr>pic_mode := v, init_step := 0\<rparr>
      else c\<lparr>irq_mask := v\<rparr>)"

definition pic_write :: "u16 \<Rightarrow> io_event \<Rightarrow> pic \<Rightarrow> pic" where
  "pic_write command e c = (case e of
     Outb port v \<Rightarrow>
       if port = command
       then (if bit v 4
             then c\<lparr>init_step := 1, expects_icw4 := bit v 0, single := bit v 1, pic_mode := 0, irq_mask := 0\<rparr>
             else c)
       else if port = command + 1 then pic_data v c
       else c
   | _ \<Rightarrow> c)"

definition pic_after :: "u16 \<Rightarrow> pic \<Rightarrow> io_event list \<Rightarrow> pic" where
  "pic_after command c h = fold (pic_write command) h c"

text \<open>Outside an initialisation, a read of the data port returns the mask.\<close>

definition pic_reads :: "devices \<Rightarrow> u16 \<Rightarrow> pic \<Rightarrow> bool" where
  "pic_reads d command c0 \<longleftrightarrow> (\<forall>h. init_step (pic_after command c0 h) = 0 \<longrightarrow>
     port_in d h (command + 1) = irq_mask (pic_after command c0 h))"

lemma pic_after_append: "pic_after command c (g @ h) = pic_after command (pic_after command c g) h"
  by (simp add: pic_after_def)

text \<open>C31. \<^verbatim>\<open>disablePIC\<close> followed by \<^verbatim>\<open>remapPIC\<close>, as \<^verbatim>\<open>LocalAPIC::enableAPIC\<close> calls them, on
  controllers that are not in an initialisation, leaves both initialised as a cascade, with the second controller
  on line 2 of the first, in 8086 mode, their vectors at the two offsets (rounded down to eight) and all
  interrupts masked. The initialisation clears the masks; they are set again because \<^verbatim>\<open>remapPIC\<close> reads
  those that \<^verbatim>\<open>disablePIC\<close> has set and writes them back.\<close>

theorem pic_disabled_and_remapped:
  fixes s :: "'z io_state_scheme" and offset1 offset2 :: int
  assumes "pic_reads d 0x20 c1" and "pic_reads d 0xA0 c2"
    and "init_step (pic_after 0x20 c1 (io_trace s)) = 0"
    and "init_step (pic_after 0xA0 c2 (io_trace s)) = 0"
  defines "h \<equiv> io_trace (remapPIC d offset1 offset2 (disablePIC s))"
  shows "pic_after 0x20 c1 h = \<lparr>init_step = 0, expects_icw4 = True, single = False,
      vector_offset = word_of_int offset1 AND 0xf8, cascade = 4, pic_mode = 1, irq_mask = 0xff\<rparr> \<and>
    pic_after 0xA0 c2 h = \<lparr>init_step = 0, expects_icw4 = True, single = False,
      vector_offset = word_of_int offset2 AND 0xf8, cascade = 2, pic_mode = 1, irq_mask = 0xff\<rparr>"
proof -
  let ?h = "io_trace (disablePIC s)"
  have t: "?h = io_trace s @ [Outb 0x21 0xff, Outb 0xA1 0xff]"
    by (simp add: disablePIC_def outb_def emit_def)
  have c: "init_step (pic_after 0x20 c1 ?h) = 0" "irq_mask (pic_after 0x20 c1 ?h) = 0xff"
    "init_step (pic_after 0xA0 c2 (?h @ [Inb 0x21 v])) = 0"
    "irq_mask (pic_after 0xA0 c2 (?h @ [Inb 0x21 v])) = 0xff" for v
    using assms(3,4) by (simp_all add: t pic_after_def pic_write_def pic_data_def)
  have r: "port_in d ?h 0x21 = 0xff" "port_in d (?h @ [Inb 0x21 v]) 0xA1 = 0xff" for v
    using assms(1,2) c by (simp_all add: pic_reads_def)
  have h: "h = ?h @ [Inb 0x21 0xff, Inb 0xA1 0xff, Outb 0x20 0x11, Outb 0x80 0, Outb 0xA0 0x11, Outb 0x80 0,
      Outb 0x21 (word_of_int offset1), Outb 0x80 0, Outb 0xA1 (word_of_int offset2), Outb 0x80 0,
      Outb 0x21 4, Outb 0x80 0, Outb 0xA1 2, Outb 0x80 0, Outb 0x21 1, Outb 0x80 0, Outb 0xA1 1,
      Outb 0x80 0, Outb 0x21 0xff, Outb 0xA1 0xff]"
    using r by (simp add: h_def remapPIC_def inb_def ioWait_def outb_def emit_def Let_def)
  have b: "bit (0x11 :: u8) 4" "bit (0x11 :: u8) 0" "\<not> bit (0x11 :: u8) 1" by (simp_all add: bit_iff_odd)
  show ?thesis
    using assms(3,4) b by (simp add: h t pic_after_def pic_write_def pic_data_def)
qed

section \<open>The keyboard controller\<close>

text \<open>The events after \<open>n\<close> further reads of a port.\<close>

fun poll_history :: "devices \<Rightarrow> u16 \<Rightarrow> nat \<Rightarrow> io_event list \<Rightarrow> io_event list" where
  "poll_history d port 0 h = h"
| "poll_history d port (Suc n) h = poll_history d port n (h @ [Inb port (port_in d h port)])"

text \<open>What the controller's documentation promises: its input buffer becomes free, and after a
  \<^verbatim>\<open>read command byte\<close> its output buffer fills.\<close>

definition controller_answers :: "devices \<Rightarrow> bool" where
  "controller_answers d \<longleftrightarrow>
     (\<forall>h. \<exists>n. \<not> input_full (port_in d (poll_history d 0x64 n h) 0x64)) \<and>
     (\<forall>h. \<exists>n. \<not> output_empty (port_in d (poll_history d 0x64 n
        (h @ [Outb 0x64 0x20, Outb 0x80 0])) 0x64))"

lemma poll_while_ends:
  fixes s :: "'z io_state_scheme"
  assumes "\<not> test (port_in d (poll_history d port n (io_trace s)) port)"
  shows "\<exists>vs. poll_while test d port s = ret (s\<lparr>io_trace := io_trace s @ map (Inb port) vs\<rparr>)"
  using assms
proof (induction n arbitrary: s)
  case 0
  then have "poll_while test d port s = ret (emit (Inb port (port_in d (io_trace s) port)) s)"
    by (subst poll_while.simps) (simp add: inb_def Let_def)
  then show ?case by (intro exI [of _ "[port_in d (io_trace s) port]"]) (simp add: emit_def)
next
  case (Suc n)
  let ?v = "port_in d (io_trace s) port"
  show ?case
  proof (cases "test ?v")
    case True
    let ?s = "emit (Inb port ?v) s"
    have "poll_while test d port s = poll_while test d port ?s"
      using True by (subst poll_while.simps) (simp add: inb_def Let_def)
    moreover obtain vs where "poll_while test d port ?s = ret (?s\<lparr>io_trace := io_trace ?s @ map (Inb port) vs\<rparr>)"
      using Suc.IH [of ?s] Suc.prems by (auto simp: emit_def)
    ultimately show ?thesis by (intro exI [of _ "?v # vs"]) (simp add: emit_def)
  next
    case False
    then have "poll_while test d port s = ret (emit (Inb port ?v) s)"
      by (subst poll_while.simps) (simp add: inb_def Let_def)
    then show ?thesis by (intro exI [of _ "[?v]"]) (simp add: emit_def)
  qed
qed

text \<open>On a controller that answers, \<^verbatim>\<open>initKeyboardController\<close> returns: it enables the keyboard,
  reads the command byte and, after polls alone, writes it back with the interrupt bit (bit 0) set
  and the clock-disable bit (bit 4) cleared, all other bits kept.\<close>

lemma keyboard_controller_runs:
  fixes s :: "'z io_state_scheme"
  assumes "controller_answers d"
  shows "\<exists>v1 v2 v3 v4 v5 c. initKeyboardController d s = ret (s\<lparr>io_trace := io_trace s
      @ map (Inb 0x64) v1 @ [Outb 0x64 0xAE, Outb 0x80 0]
      @ map (Inb 0x64) v2 @ [Outb 0x64 0x20, Outb 0x80 0]
      @ map (Inb 0x64) v3 @ [Inb 0x60 c]
      @ map (Inb 0x64) v4 @ [Outb 0x64 0x60, Outb 0x80 0]
      @ map (Inb 0x64) v5 @ [Outb 0x60 ((c OR 0x01) AND NOT 0x10), Outb 0x80 0]\<rparr>)"
proof -
  have in_free: "\<exists>vs. poll_while input_full d 0x64 t = ret (t\<lparr>io_trace := io_trace t @ map (Inb 0x64) vs\<rparr>)"
    for t :: "'z io_state_scheme"
    using assms poll_while_ends [of input_full d "0x64"] unfolding controller_answers_def by metis
  have out_full: "\<exists>vs. poll_while output_empty d 0x64 t = ret (t\<lparr>io_trace := io_trace t @ map (Inb 0x64) vs\<rparr>)"
    if "io_trace t = h @ [Outb 0x64 0x20, Outb 0x80 0]" for t :: "'z io_state_scheme" and h
    using assms that poll_while_ends [of output_empty d "0x64"] unfolding controller_answers_def by metis
  have io: "ioWait (outb port e t) = t\<lparr>io_trace := io_trace t @ [Outb port e, Outb 0x80 0]\<rparr>" for t :: "'z io_state_scheme" and port e
    by (simp add: ioWait_def outb_def emit_def)
  obtain v1 s1 where 1: "poll_while input_full d 0x64 s = ret s1" "s1 = s\<lparr>io_trace := io_trace s @ map (Inb 0x64) v1\<rparr>"
    using in_free [of s] by auto
  let ?t1 = "ioWait (outb 0x64 0xAE s1)"
  obtain v2 s2 where 2: "poll_while input_full d 0x64 ?t1 = ret s2" "s2 = ?t1\<lparr>io_trace := io_trace ?t1 @ map (Inb 0x64) v2\<rparr>"
    using in_free [of ?t1] by auto
  let ?t2 = "ioWait (outb 0x64 0x20 s2)"
  obtain v3 s3 where 3: "poll_while output_empty d 0x64 ?t2 = ret s3" "s3 = ?t2\<lparr>io_trace := io_trace ?t2 @ map (Inb 0x64) v3\<rparr>"
    using out_full [of ?t2 "io_trace s2"] by (auto simp: io)
  obtain c where c: "inb d 0x60 s3 = (c, emit (Inb 0x60 c) s3)" by (simp add: inb_def Let_def)
  let ?t3 = "emit (Inb 0x60 c) s3"
  obtain v4 s4 where 4: "poll_while input_full d 0x64 ?t3 = ret s4" "s4 = ?t3\<lparr>io_trace := io_trace ?t3 @ map (Inb 0x64) v4\<rparr>"
    using in_free [of ?t3] by auto
  let ?t4 = "ioWait (outb 0x64 0x60 s4)"
  obtain v5 s5 where 5: "poll_while input_full d 0x64 ?t4 = ret s5" "s5 = ?t4\<lparr>io_trace := io_trace ?t4 @ map (Inb 0x64) v5\<rparr>"
    using in_free [of ?t4] by auto
  have run: "initKeyboardController d s = ret (ioWait (outb 0x60 ((c OR 0x01) AND NOT 0x10) s5))"
    unfolding initKeyboardController_def 1(1) res_bind_simps Let_def 2(1) 3(1) c prod.case 4(1) 5(1) ..
  have up: "t\<lparr>io_trace := x\<rparr>\<lparr>io_trace := y\<rparr> = t\<lparr>io_trace := y\<rparr>" "io_trace (t\<lparr>io_trace := x\<rparr>) = x" for t :: "'z io_state_scheme" and x y
    by simp_all
  note s2 = 2(2) [unfolded io 1(2) up append_assoc]
  note s3 = 3(2) [unfolded io s2 up append_assoc]
  note s4 = 4(2) [unfolded emit_def s3 up append_assoc]
  note s5 = 5(2) [unfolded io s4 up append_assoc]
  show ?thesis unfolding run io s5 up append_assoc by (intro exI) (rule refl)
qed

section \<open>Example devices\<close>

text \<open>A controller that is always ready, interrupt controllers that report the mask last written, and
  registers that keep their values.\<close>

definition example_pic :: pic where
  "example_pic = \<lparr>init_step = 0, expects_icw4 = True, single = False, vector_offset = 8, cascade = 4, pic_mode = 1,
     irq_mask = 0\<rparr>"

definition example_devices :: devices where
  "example_devices = \<lparr>
     port_in = (\<lambda>h p. if p = 0x64 then 1 else if p = 0x60 then 0x74
        else if p = 0x21 then irq_mask (pic_after 0x20 example_pic h)
        else if p = 0xA1 then irq_mask (pic_after 0xA0 example_pic h) else 0),
     msr_in = (\<lambda>h msr. last_msr msr (0, 0) h), mmio_in = (\<lambda>h a. 0), cpuid_1_edx = 0x10220\<rparr>"

definition example_io :: io_state where
  "example_io = paging_state.extend example_kernel \<lparr>io_trace = []\<rparr>"

lemma example_io_trace [simp]: "io_trace example_io = []"
  by (simp add: example_io_def paging_state.defs)

lemma apic_base_roundtrip_example:
  "\<exists>s' s''. hardwareEnableLocalAPICAndSetBaseAddress example_devices 0xfee00000 example_io = ret s' \<and>
     localAPICBaseAddress example_devices s' = ret (0xfee00000, s'')"
proof -
  have "hasMSR example_devices" "hasLocalAPIC example_devices" "msr_keeps example_devices"
    by (simp_all add: hasMSR_def hasLocalAPIC_def msr_keeps_def example_devices_def EDX_MSR_def EDX_APIC_def)
  from apic_base_roundtrip [OF this, of "0xfee00000" example_io] show ?thesis by auto
qed

theorem pic_disabled_and_remapped_witness:
  "pic_after 0x20 example_pic (io_trace (remapPIC example_devices 0x20 0x28 (disablePIC example_io)))
     = \<lparr>init_step = 0, expects_icw4 = True, single = False, vector_offset = 0x20, cascade = 4, pic_mode = 1, irq_mask = 0xff\<rparr>"
proof -
  have "pic_reads example_devices 0x20 example_pic" "pic_reads example_devices 0xA0 example_pic"
    "init_step (pic_after 0x20 example_pic (io_trace example_io)) = 0"
    "init_step (pic_after 0xA0 example_pic (io_trace example_io)) = 0"
    by (simp_all add: pic_reads_def example_devices_def) (simp_all add: pic_after_def example_pic_def)
  from pic_disabled_and_remapped [OF this, of "0x20" "0x28"] show ?thesis by simp
qed

lemma keyboard_controller_runs_example:
  "\<exists>s'. initKeyboardController example_devices example_io = ret s'"
proof -
  have "controller_answers example_devices"
    by (simp add: controller_answers_def example_devices_def input_full_def output_empty_def)
  from keyboard_controller_runs [OF this, of example_io] show ?thesis by blast
qed

end
