(* ===== verification/Kpp_String.thy ===== *)
theory Kpp_String
  imports Machine
begin

text \<open>
  The byte and string routines of \<^verbatim>\<open>kpp/cstring.hpp\<close> on byte-addressed memory. Pointers are
  64-bit words and \<^verbatim>\<open>p[i]\<close> is the byte at \<open>p + i\<close>; \<^verbatim>\<open>char\<close> is signed.
\<close>

section \<open>Routines\<close>

function memcmp_from :: "memory \<Rightarrow> u64 \<Rightarrow> u64 \<Rightarrow> u64 \<Rightarrow> u64 \<Rightarrow> int" where
  "memcmp_from m a b sz i =
     (if i < sz
      then if m (a + i) < m (b + i) then - 1
           else if m (b + i) < m (a + i) then 1
           else memcmp_from m a b sz (i + 1)
      else 0)"
  by pat_completeness auto

lemma unat_Suc_less:
  fixes i :: u64 assumes "i < sz" shows "unat (i + 1) = Suc (unat i)"
proof -
  have "unat i < unat sz" using assms by (simp add: word_less_nat_alt)
  then show ?thesis using unat_add_no_wrap [of i 1] unat_less_2p [of sz] by simp
qed

termination memcmp_from
  by (relation "measure (\<lambda>(m, a, b, sz, i). unat sz - unat i)")
    (auto simp: unat_Suc_less word_less_nat_alt)

definition memcmp :: "memory \<Rightarrow> u64 \<Rightarrow> u64 \<Rightarrow> u64 \<Rightarrow> int" where
  "memcmp m aptr bptr sz = memcmp_from m aptr bptr sz 0"

function copy_up :: "u64 \<Rightarrow> u64 \<Rightarrow> u64 \<Rightarrow> u64 \<Rightarrow> memory \<Rightarrow> memory" where
  "copy_up dst src sz i m =
     (if i < sz then copy_up dst src sz (i + 1) (m(dst + i := m (src + i))) else m)"
  by pat_completeness auto

termination copy_up
  by (relation "measure (\<lambda>(dst, src, sz, i, m). unat sz - unat i)")
    (auto simp: unat_Suc_less word_less_nat_alt)

definition memcpy :: "u64 \<Rightarrow> u64 \<Rightarrow> u64 \<Rightarrow> memory \<Rightarrow> memory" where
  "memcpy dstptr srcptr sz m = copy_up dstptr srcptr sz 0 m"

function copy_down :: "u64 \<Rightarrow> u64 \<Rightarrow> u64 \<Rightarrow> memory \<Rightarrow> memory" where
  "copy_down dst src i m =
     (if i \<noteq> 0 then copy_down dst src (i - 1) (m(dst + (i - 1) := m (src + (i - 1)))) else m)"
  by pat_completeness auto

termination copy_down
  by (relation "measure (\<lambda>(dst, src, i, m). unat i)") (auto simp: unat_minus_one unat_gt_0)

definition memmove :: "u64 \<Rightarrow> u64 \<Rightarrow> u64 \<Rightarrow> memory \<Rightarrow> memory" where
  "memmove dstptr srcptr sz m =
     (if dstptr < srcptr then copy_up dstptr srcptr sz 0 m
      else copy_down dstptr srcptr sz m)"

function set_up :: "u64 \<Rightarrow> u8 \<Rightarrow> u64 \<Rightarrow> u64 \<Rightarrow> memory \<Rightarrow> memory" where
  "set_up buf value sz i m =
     (if i < sz then set_up buf value sz (i + 1) (m(buf + i := value)) else m)"
  by pat_completeness auto

termination set_up
  by (relation "measure (\<lambda>(buf, value, sz, i, m). unat sz - unat i)")
    (auto simp: unat_Suc_less word_less_nat_alt)

definition memset :: "u64 \<Rightarrow> int \<Rightarrow> u64 \<Rightarrow> memory \<Rightarrow> memory" where
  "memset bufptr value sz m = set_up bufptr (word_of_int value) sz 0 m"

partial_function (option) strlen_from :: "memory \<Rightarrow> u64 \<Rightarrow> u64 \<Rightarrow> u64 res" where
  "strlen_from m str len = (if m (str + len) \<noteq> 0 then strlen_from m str (len + 1) else ret len)"

definition strlen :: "memory \<Rightarrow> u64 \<Rightarrow> u64 res" where
  "strlen m str = strlen_from m str 0"

function strncmp_from :: "memory \<Rightarrow> u64 \<Rightarrow> u64 \<Rightarrow> u64 \<Rightarrow> u64 \<Rightarrow> int" where
  "strncmp_from m a b sz i =
     (if i < sz
      then if m (a + i) \<noteq> m (b + i) then sint (m (a + i)) - sint (m (b + i))
           else strncmp_from m a b sz (i + 1)
      else 0)"
  by pat_completeness auto

termination strncmp_from
  by (relation "measure (\<lambda>(m, a, b, sz, i). unat sz - unat i)")
    (auto simp: unat_Suc_less word_less_nat_alt)

definition strncmp :: "memory \<Rightarrow> u64 \<Rightarrow> u64 \<Rightarrow> u64 \<Rightarrow> int" where
  "strncmp m a b sz = strncmp_from m a b sz 0"

declare memcmp_from.simps [simp del] copy_up.simps [simp del] copy_down.simps [simp del]
  set_up.simps [simp del] strncmp_from.simps [simp del]

section \<open>Copying\<close>

lemma offset_inj: "i < 2 ^ 64 \<Longrightarrow> j < 2 ^ 64 \<Longrightarrow> p + of_nat i = p + (of_nat j :: u64) \<longleftrightarrow> i = j"
  by (metis add_left_cancel unat_of_nat_small)

text \<open>The bytes after copying upwards from index \<open>i\<close>, as long as no byte of the source is overwritten
  before it is read.\<close>

lemma copy_up_apply:
  assumes "unat i \<le> unat sz"
    and "\<And>j k. unat i \<le> j \<Longrightarrow> j < k \<Longrightarrow> k < unat sz \<Longrightarrow> dst + of_nat j \<noteq> src + of_nat k"
  shows "copy_up dst src sz i m b =
    (if unat i \<le> unat (b - dst) \<and> unat (b - dst) < unat sz then m (src + (b - dst)) else m b)"
  using assms
proof (induction "unat sz - unat i" arbitrary: i m)
  case 0
  then have "\<not> i < sz" by (simp add: word_less_nat_alt)
  then show ?case using 0 by (subst copy_up.simps) auto
next
  case (Suc n)
  then have lt: "i < sz" by (simp add: word_less_nat_alt)
  note s = unat_Suc_less [OF lt]
  have le: "unat (i + 1) \<le> unat sz" using lt s by (simp add: word_less_nat_alt)
  let ?m = "m(dst + i := m (src + i))"
  have "copy_up dst src sz i m b = copy_up dst src sz (i + 1) ?m b"
    using lt by (subst copy_up.simps) simp
  also have "\<dots> = (if unat (i + 1) \<le> unat (b - dst) \<and> unat (b - dst) < unat sz
      then ?m (src + (b - dst)) else ?m b)"
    using Suc.hyps(2) s Suc.prems(2) le by (intro Suc.hyps(1)) auto
  also have "\<dots> = (if unat i \<le> unat (b - dst) \<and> unat (b - dst) < unat sz then m (src + (b - dst)) else m b)"
  proof (cases "unat (i + 1) \<le> unat (b - dst) \<and> unat (b - dst) < unat sz")
    case True
    then have "dst + of_nat (unat i) \<noteq> src + of_nat (unat (b - dst))"
      using s by (intro Suc.prems(2)) auto
    then show ?thesis using True s by auto
  next
    case False
    show ?thesis
    proof (cases "b - dst = i")
      case True
      then have "b = dst + i" by (simp add: algebra_simps)
      then show ?thesis using lt s by (simp add: word_less_nat_alt)
    next
      case ne: False
      then have "unat (b - dst) \<noteq> unat i" by (simp only: word_unat_eq_iff not_False_eq_True)
      moreover have "b \<noteq> dst + i" using ne by auto
      ultimately show ?thesis using False s by auto
    qed
  qed
  finally show ?case .
qed


lemma copy_down_apply:
  assumes "\<And>j k. j < k \<Longrightarrow> k < unat i \<Longrightarrow> dst + of_nat k \<noteq> src + of_nat j"
  shows "copy_down dst src i m b = (if unat (b - dst) < unat i then m (src + (b - dst)) else m b)"
  using assms
proof (induction "unat i" arbitrary: i m)
  case 0
  then have "i = 0" by (simp add: unat_eq_0)
  then show ?case by (subst copy_down.simps) simp
next
  case (Suc n)
  then have ne: "i \<noteq> 0" by auto
  have p: "unat (i - 1) = n" using ne Suc.hyps(2) by (simp add: unat_minus_one)
  let ?m = "m(dst + (i - 1) := m (src + (i - 1)))"
  have "copy_down dst src i m b = copy_down dst src (i - 1) ?m b"
    using ne by (subst copy_down.simps) simp
  also have "\<dots> = (if unat (b - dst) < n then ?m (src + (b - dst)) else ?m b)"
    unfolding p [symmetric] using p Suc.hyps(2) Suc.prems by (intro Suc.hyps(1)) auto
  also have "\<dots> = (if unat (b - dst) < unat i then m (src + (b - dst)) else m b)"
  proof (cases "unat (b - dst) < n")
    case True
    then have "dst + of_nat n \<noteq> src + of_nat (unat (b - dst))"
      using Suc.hyps(2) by (intro Suc.prems) auto
    then have "dst + (i - 1) \<noteq> src + (b - dst)" using p by auto
    then show ?thesis using True Suc.hyps(2) by auto
  next
    case False
    show ?thesis
    proof (cases "b - dst = i - 1")
      case True
      then have "b = dst + (i - 1)" by (simp add: algebra_simps)
      then show ?thesis using p Suc.hyps(2) by simp
    next
      case ne: False
      then have "unat (b - dst) \<noteq> n" using p by (auto simp only: word_unat_eq_iff)
      moreover have "b \<noteq> dst + (i - 1)" using ne by auto
      ultimately show ?thesis using False Suc.hyps(2) by auto
    qed
  qed
  finally show ?case .
qed

lemma unat_offset:
  fixes p sz :: u64
  assumes "unat p + unat sz \<le> 2 ^ 64" "k < unat sz" shows "unat (p + of_nat k) = unat p + k"
  using assms unat_add_no_wrap [of p "of_nat k"] unat_of_nat_small [of k] by simp

text \<open>C35. \<^verbatim>\<open>memmove\<close> copies correctly however its two buffers overlap: afterwards the destination
  holds the bytes that the source held before, and every other byte of memory is unchanged. Only
  buffers that wrap around the end of the address space are excluded.\<close>

theorem memmove_correct:
  assumes "unat dst + unat sz \<le> 2 ^ 64" and "unat src + unat sz \<le> 2 ^ 64"
  shows "memmove dst src sz m b =
    (if unat (b - dst) < unat sz then m (src + (b - dst)) else m b)"
proof (cases "dst < src")
  case True
  have "dst + of_nat j \<noteq> src + of_nat k" if "j < k" "k < unat sz" for j k
  proof -
    have "unat (dst + of_nat j) < unat (src + of_nat k)"
      using that True unat_offset [OF assms(1), of j] unat_offset [OF assms(2), of k]
      by (simp add: word_less_nat_alt)
    then show ?thesis by auto
  qed
  then show ?thesis using True copy_up_apply [of 0 sz dst src m b] by (simp add: memmove_def)
next
  case False
  have "dst + of_nat k \<noteq> src + of_nat j" if "j < k" "k < unat sz" for j k
  proof -
    have "unat (src + of_nat j) < unat (dst + of_nat k)"
      using that False unat_offset [OF assms(1), of k] unat_offset [OF assms(2), of j]
      by (simp add: word_less_nat_alt)
    then show ?thesis by auto
  qed
  then show ?thesis using False copy_down_apply [of sz dst src m b] by (simp add: memmove_def)
qed

theorem memmove_correct_witness:
  "memmove 0x1001 0x1000 2 ((\<lambda>_. 0)(0x1000 := 7, 0x1001 := 8)) 0x1002 = 8"
  using memmove_correct [of "0x1001" 2 "0x1000" "(\<lambda>_. 0)(0x1000 := 7, 0x1001 := 8)" "0x1002"] by simp

lemma set_up_apply:
  assumes "unat i \<le> unat sz"
  shows "set_up buf v sz i m b =
    (if unat i \<le> unat (b - buf) \<and> unat (b - buf) < unat sz then v else m b)"
  using assms
proof (induction "unat sz - unat i" arbitrary: i m)
  case 0
  then have "\<not> i < sz" by (simp add: word_less_nat_alt)
  then show ?case using 0 by (subst set_up.simps) auto
next
  case (Suc n)
  then have lt: "i < sz" by (simp add: word_less_nat_alt)
  note s = unat_Suc_less [OF lt]
  have le: "unat (i + 1) \<le> unat sz" using lt s by (simp add: word_less_nat_alt)
  have "set_up buf v sz i m b = set_up buf v sz (i + 1) (m(buf + i := v)) b"
    using lt by (subst set_up.simps) simp
  also have "\<dots> = (if unat (i + 1) \<le> unat (b - buf) \<and> unat (b - buf) < unat sz then v else (m(buf + i := v)) b)"
    using Suc.hyps(2) s le by (intro Suc.hyps(1)) auto
  also have "\<dots> = (if unat i \<le> unat (b - buf) \<and> unat (b - buf) < unat sz then v else m b)"
  proof (cases "b - buf = i")
    case True
    then show ?thesis using lt s by (auto simp: word_less_nat_alt)
  next
    case False
    then have "unat (b - buf) \<noteq> unat i" by (simp only: word_unat_eq_iff not_False_eq_True)
    moreover have "b \<noteq> buf + i" using False by auto
    ultimately show ?thesis using s by auto
  qed
  finally show ?case .
qed

section \<open>Comparing and measuring\<close>

lemma strncmp_from_0:
  assumes "unat i \<le> unat sz"
  shows "strncmp_from m a b sz i = 0 \<longleftrightarrow> (\<forall>j. unat i \<le> unat j \<and> j < sz \<longrightarrow> m (a + j) = m (b + j))"
  using assms
proof (induction "unat sz - unat i" arbitrary: i)
  case 0
  then have "\<not> i < sz" by (simp add: word_less_nat_alt)
  then show ?case using 0 by (subst strncmp_from.simps) (auto simp: word_less_nat_alt)
next
  case (Suc n)
  then have lt: "i < sz" by (simp add: word_less_nat_alt)
  note s = unat_Suc_less [OF lt]
  have le: "unat (i + 1) \<le> unat sz" using lt s by (simp add: word_less_nat_alt)
  have split: "unat i \<le> unat j \<longleftrightarrow> j = i \<or> unat (i + 1) \<le> unat j" for j
    using s by (auto simp: word_unat_eq_iff)
  have diff: "sint x - sint y = 0 \<longleftrightarrow> x = y" for x y :: u8
    using signed_word_eqI [of x y, where ?'a = int] by auto
  have "strncmp_from m a b sz i = 0 \<longleftrightarrow> m (a + i) = m (b + i) \<and> strncmp_from m a b sz (i + 1) = 0"
    using lt diff by (subst strncmp_from.simps) auto
  also have "\<dots> \<longleftrightarrow> m (a + i) = m (b + i) \<and>
      (\<forall>j. unat (i + 1) \<le> unat j \<and> j < sz \<longrightarrow> m (a + j) = m (b + j))"
    using Suc.hyps(1) [of "i + 1"] Suc.hyps(2) s le by simp
  also have "\<dots> \<longleftrightarrow> (\<forall>j. unat i \<le> unat j \<and> j < sz \<longrightarrow> m (a + j) = m (b + j))"
    unfolding split using lt by blast
  finally show ?case .
qed

lemma strlen_from_ends:
  assumes "\<And>j. j < n \<Longrightarrow> m (str + len + of_nat j) \<noteq> 0" and "m (str + len + of_nat n) = 0"
  shows "strlen_from m str len = ret (len + of_nat n)"
  using assms
proof (induction n arbitrary: len)
  case 0
  then show ?case by (subst strlen_from.simps) simp
next
  case (Suc n)
  have e: "str + (len + 1) + of_nat j = str + len + of_nat (Suc j)" for j
    by (simp add: algebra_simps)
  have "strlen_from m str (len + 1) = ret (len + 1 + of_nat n)"
    using Suc.prems(1) [of "Suc _"] Suc.prems(2) by (intro Suc.IH) (simp_all only: e Suc_less_eq not_False_eq_True)
  then show ?case
    using Suc.prems(1) [of 0] by (subst strlen_from.simps) (simp add: algebra_simps)
qed

text \<open>\<^verbatim>\<open>strlen\<close> of a string that ends in a NUL returns, with the number of bytes before the first
  one; and \<^verbatim>\<open>strncmp\<close> is zero exactly when all \<open>n\<close> bytes agree. It does not stop at a NUL, so two
  equal strings shorter than \<open>n\<close> compare as different when the bytes behind their ends differ.\<close>

lemma string_measures:
  "((\<forall>j < n. m (str + of_nat j) \<noteq> 0) \<and> m (str + of_nat n) = 0 \<longrightarrow> strlen m str = ret (of_nat n)) \<and>
   (strncmp m a b sz = 0 \<longleftrightarrow> (\<forall>j < sz. m (a + j) = m (b + j)))"
  using strlen_from_ends [of n m str 0] strncmp_from_0 [of 0 sz m a b]
  by (simp add: strlen_def strncmp_def)

lemma string_measures_example:
  "strlen ((\<lambda>_. 0)(5 := 104, 6 := 105)) 5 = ret 2 \<and> strncmp (\<lambda>_. 0) 1 2 3 = 0"
proof -
  have "\<forall>j < 2. ((\<lambda>_. 0)(5 := 104, 6 := 105)) (5 + of_nat j :: u64) \<noteq> (0 :: u8)"
    by (auto simp: less_2_cases_iff)
  then show ?thesis
    using string_measures [of 2 "(\<lambda>_. 0)(5 := 104, 6 := 105)" 5 0 0 0] string_measures [of 0 "\<lambda>_. 0" 0 1 2 3]
    by simp
qed

section \<open>StringView\<close>

text \<open>\<^verbatim>\<open>kpp::StringView\<close> (\<^verbatim>\<open>StringView.hpp\<close>): a pointer and a length. The constructor from a C string counts up to the
  first NUL; the loop over a view reads the bytes from \<^verbatim>\<open>begin()\<close> to \<^verbatim>\<open>end()\<close>.\<close>

record StringView =
  sv_data :: u64
  sv_size :: u64

definition StringView_init :: "u64 \<Rightarrow> u64 \<Rightarrow> StringView" where
  "StringView_init data sz = \<lparr>sv_data = data, sv_size = sz\<rparr>"

partial_function (option) StringView_count :: "memory \<Rightarrow> StringView \<Rightarrow> StringView res" where
  "StringView_count m v =
     (if m (sv_data v + sv_size v) \<noteq> 0 then StringView_count m (v\<lparr>sv_size := sv_size v + 1\<rparr>) else ret v)"

definition StringView_of_string :: "memory \<Rightarrow> u64 \<Rightarrow> StringView res" where
  "StringView_of_string m data = StringView_count m \<lparr>sv_data = data, sv_size = 0\<rparr>"

definition StringView_at :: "memory \<Rightarrow> StringView \<Rightarrow> u64 \<Rightarrow> u8" where
  "StringView_at m v index = m (sv_data v + index)"

definition StringView_begin :: "StringView \<Rightarrow> u64" where
  "StringView_begin v = sv_data v"

definition StringView_end :: "StringView \<Rightarrow> u64" where
  "StringView_end v = sv_data v + sv_size v"

lemma StringView_count_ends:
  assumes "\<And>j. j < n \<Longrightarrow> m (sv_data v + sv_size v + of_nat j) \<noteq> 0" and "m (sv_data v + sv_size v + of_nat n) = 0"
  shows "StringView_count m v = ret (v\<lparr>sv_size := sv_size v + of_nat n\<rparr>)"
  using assms
proof (induction n arbitrary: v)
  case 0
  then show ?case by (subst StringView_count.simps) simp
next
  case (Suc n)
  let ?v = "v\<lparr>sv_size := sv_size v + 1\<rparr>"
  have e: "sv_data ?v + sv_size ?v + of_nat j = sv_data v + sv_size v + of_nat (Suc j)" for j
    by (simp add: algebra_simps)
  have "StringView_count m ?v = ret (?v\<lparr>sv_size := sv_size ?v + of_nat n\<rparr>)"
    using Suc.prems(1) [of "Suc _"] Suc.prems(2) by (intro Suc.IH) (simp_all only: e Suc_less_eq not_False_eq_True)
  then show ?case
    using Suc.prems(1) [of 0] by (subst StringView_count.simps) (simp add: algebra_simps)
qed

text \<open>The view of a C string has the length that \<^verbatim>\<open>strlen\<close> gives.\<close>

lemma StringView_of_string_strlen:
  assumes "\<forall>j < n. m (data + of_nat j) \<noteq> 0" "m (data + of_nat n) = 0"
  shows "StringView_of_string m data = ret \<lparr>sv_data = data, sv_size = of_nat n\<rparr>" "strlen m data = ret (of_nat n)"
  using StringView_count_ends [of n m "\<lparr>sv_data = data, sv_size = 0\<rparr>"] strlen_from_ends [of n m data 0] assms
  by (simp_all add: StringView_of_string_def strlen_def)

end
