(* ===== verification/Apic.thy ===== *)
theory Apic
  imports Processor Kpp_String
begin

text \<open>
  The interrupt controllers behind the processor: the local APIC (\<^verbatim>\<open>LocalAPIC.cpp\<close>), the ACPI
  tables that describe the I/O APICs (\<^verbatim>\<open>RootSystemDescriptionPointer.h\<close>, \<^verbatim>\<open>RootSDT.h\<close>,
  \<^verbatim>\<open>ACPISDTHeader.h\<close>) and their manager (\<^verbatim>\<open>APICManager.cpp\<close>). The tables are read from the
  machine's memory; the registers of the controllers are memory-mapped devices.
\<close>

section \<open>Reading tables\<close>

definition load8 :: "'z machine_scheme \<Rightarrow> u64 \<Rightarrow> u8" where
  "load8 s p = mem s (cell_of (hhdm_offset s) p)"

definition load32 :: "'z machine_scheme \<Rightarrow> u64 \<Rightarrow> u32" where
  "load32 s p = read_u32 (mem s) (cell_of (hhdm_offset s) p)"

text \<open>\<^verbatim>\<open>kpp::strncmp\<close> of the bytes at a pointer with a literal of the compared length.\<close>

fun strncmp_literal :: "'z machine_scheme \<Rightarrow> u64 \<Rightarrow> u8 list \<Rightarrow> int" where
  "strncmp_literal s a [] = 0"
| "strncmp_literal s a (b # bs) =
     (if load8 s a \<noteq> b then sint (load8 s a) - sint b else strncmp_literal s (a + 1) bs)"

text \<open>The sum over a range of bytes, from \<open>first\<close> to \<open>last\<close> exclusive.\<close>

definition byte_sum :: "'z machine_scheme \<Rightarrow> u64 \<Rightarrow> u64 \<Rightarrow> u8 res" where
  "byte_sum s firstByte lastByte = for_up 1 (\<lambda>byte sum. ret (sum + load8 s byte)) firstByte lastByte 0"

text \<open>The packed \<^verbatim>\<open>RootSystemDescriptionPointer\<close>: signature at 0, revision at 15, RSDT address at 16,
  size at 20, XSDT address at 24.\<close>

definition rsdp_signature :: "u8 list" where
  "rsdp_signature = [0x52, 0x53, 0x44, 0x20, 0x50, 0x54, 0x52, 0x20]"

definition verifySignature :: "'z machine_scheme \<Rightarrow> u64 \<Rightarrow> bool" where
  "verifySignature s this \<longleftrightarrow>
     list_all (\<lambda>i. load8 s (this + of_nat i) = rsdp_signature ! i) [0..<8]"

definition acpiRevision :: "'z machine_scheme \<Rightarrow> u64 \<Rightarrow> u8" where
  "acpiRevision s this = load8 s (this + 15)"

definition verifyPartialChecksum :: "'z machine_scheme \<Rightarrow> u64 \<Rightarrow> bool res" where
  "verifyPartialChecksum s this = res_bind (byte_sum s this (this + 20)) (\<lambda>sum. ret (sum = 0))"

definition verifyFullChecksum :: "'z machine_scheme \<Rightarrow> u64 \<Rightarrow> bool res" where
  "verifyFullChecksum s this =
     res_bind (byte_sum s this (this + ucast (load32 s (this + 20)))) (\<lambda>sum. ret (sum = 0))"

definition validate :: "'z machine_scheme \<Rightarrow> u64 \<Rightarrow> bool res" where
  "validate s this =
     (if acpiRevision s this = 0 then verifyPartialChecksum s this else verifyFullChecksum s this)"

definition rootSDTPhysicalAddress :: "'z machine_scheme \<Rightarrow> u64 \<Rightarrow> u64 res" where
  "rootSDTPhysicalAddress s this =
     res_bind (validate s this) (\<lambda>valid.
       if \<not> valid then kernel_panic ''invalid RSDP table\<newline>''
       else ret (if acpiRevision s this = 0 then ucast (load32 s (this + 16)) else load64 s (this + 24)))"

text \<open>\<^verbatim>\<open>ACPISDTHeader\<close>: the length is at 4, the whole header takes 36 bytes. The bytes are added as
  signed \<^verbatim>\<open>char\<close>s to a \<^verbatim>\<open>size_t\<close>.\<close>

definition sdt_length :: "'z machine_scheme \<Rightarrow> u64 \<Rightarrow> u32" where
  "sdt_length s this = load32 s (this + 4)"

definition verifyChecksum :: "'z machine_scheme \<Rightarrow> u64 \<Rightarrow> bool res" where
  "verifyChecksum s this =
     res_bind (for_up 1 (\<lambda>i byteSum. ret (byteSum + scast (load8 s (this + i))))
         0 (ucast (sdt_length s this)) (0 :: u64))
       (\<lambda>byteSum. ret (byteSum mod 0x100 = 0))"

text \<open>\<^verbatim>\<open>RootSDT\<close> is not packed: its pointer member is aligned to 8, at offset 40.\<close>

definition pointersToOtherSDTs :: u64 where
  "pointersToOtherSDTs = 40"

definition bytesPerPointer :: "u8 \<Rightarrow> u64" where
  "bytesPerPointer acpiRevisionNumber = (if acpiRevisionNumber = 0 then 4 else 8)"

text \<open>\<^verbatim>\<open>header.length - sizeof(header)\<close> is a 64-bit subtraction.\<close>

definition numPointersToOtherSDTs :: "'z machine_scheme \<Rightarrow> u64 \<Rightarrow> u8 \<Rightarrow> u64" where
  "numPointersToOtherSDTs s this acpiRevisionNumber =
     (ucast (sdt_length s this) - 36) div bytesPerPointer acpiRevisionNumber"

definition sdt_pointer :: "'z machine_scheme \<Rightarrow> u64 \<Rightarrow> u8 \<Rightarrow> u64 \<Rightarrow> u64" where
  "sdt_pointer s this acpiRevisionNumber i =
     (if bytesPerPointer acpiRevisionNumber = 4
      then ucast (load32 s (this + pointersToOtherSDTs + 4 * i))
      else load64 s (this + pointersToOtherSDTs + 8 * i))"

function find_sdt_from :: "'z machine_scheme \<Rightarrow> u64 \<Rightarrow> u8 list \<Rightarrow> u8 \<Rightarrow> u64 \<Rightarrow> u64 \<Rightarrow> u64" where
  "find_sdt_from s this signature acpiRevisionNumber numTables i =
     (if i < numTables
      then let sdt = sdt_pointer s this acpiRevisionNumber i
           in if strncmp_literal s sdt signature = 0 then sdt
              else find_sdt_from s this signature acpiRevisionNumber numTables (i + 1)
      else 0)"
  by pat_completeness auto

termination find_sdt_from
  by (relation "measure (\<lambda>(s, this, signature, rev, n, i). unat n - unat i)")
    (auto simp: unat_Suc_less word_less_nat_alt)

declare find_sdt_from.simps [simp del]

definition findSDTWithSignature :: "'z machine_scheme \<Rightarrow> u64 \<Rightarrow> u8 list \<Rightarrow> u8 \<Rightarrow> u64" where
  "findSDTWithSignature s this signature acpiRevisionNumber =
     find_sdt_from s this signature acpiRevisionNumber
       (numPointersToOtherSDTs s this acpiRevisionNumber) 0"

section \<open>The local APIC\<close>

record apic_state = io_state +
  lapic_baseAddress :: u64

definition LAPIC_SPURIOUS_REGISTER :: u32 where "LAPIC_SPURIOUS_REGISTER = 0xF0"
definition LAPIC_EOI_REGISTER :: u32 where "LAPIC_EOI_REGISTER = 0xB0"
definition LAPIC_TASK_PRIORITY :: u32 where "LAPIC_TASK_PRIORITY = 0x80"

definition mmio_write :: "u64 \<Rightarrow> u32 \<Rightarrow> 'z io_state_scheme \<Rightarrow> 'z io_state_scheme" where
  "mmio_write p value s = emit (MmioWrite p value) s"

definition mmio_read :: "devices \<Rightarrow> u64 \<Rightarrow> 'z io_state_scheme \<Rightarrow> u32 \<times> 'z io_state_scheme" where
  "mmio_read d p s = (let value = mmio_in d (io_trace s) p in (value, emit (MmioRead p value) s))"

definition lapic_write :: "u32 \<Rightarrow> u32 \<Rightarrow> 'z apic_state_scheme \<Rightarrow> 'z apic_state_scheme" where
  "lapic_write regOffset value s = mmio_write (lapic_baseAddress s + ucast regOffset) value s"

definition lapic_read :: "devices \<Rightarrow> u32 \<Rightarrow> 'z apic_state_scheme \<Rightarrow> u32 \<times> 'z apic_state_scheme" where
  "lapic_read d regOffset s = mmio_read d (lapic_baseAddress s + ucast regOffset) s"

definition enableAPIC :: "devices \<Rightarrow> 'z apic_state_scheme \<Rightarrow> 'z apic_state_scheme res" where
  "enableAPIC d s =
     res_bind (localAPICBaseAddress d s) (\<lambda>(physicalAPICAddress, s).
     let virtualAPICAddress = kernel_physical_to_virtual s physicalAPICAddress in
     res_bind (kernel_assert (hasPAT d) ''Processor does not support PAT'' s) (\<lambda>s.
     res_bind (paging_add_mapping virtualAPICAddress physicalAPICAddress pageSize
         (PageFlags_or PageFlags_Write PageFlags_CacheDisable) s) (\<lambda>s.
     let s = s\<lparr>lapic_baseAddress := virtualAPICAddress\<rparr> in
     res_bind (hardwareEnableLocalAPICAndSetBaseAddress d physicalAPICAddress s) (\<lambda>s.
     let s = disablePIC s;
         s = remapPIC d 0x20 0x28 s;
         s = emit Sti s;
         s = lapic_write LAPIC_SPURIOUS_REGISTER 0x1FF s;
         s = lapic_write LAPIC_TASK_PRIORITY 0 s
     in ret s))))"

definition sendEndOfInterrupt :: "'z apic_state_scheme \<Rightarrow> 'z apic_state_scheme" where
  "sendEndOfInterrupt s = lapic_write LAPIC_EOI_REGISTER 0 s"

section \<open>I/O APICs\<close>

record IOAPIC =
  m_address :: u32
  m_globalSystemInterruptBase :: u32
  m_id :: u8
  m_numRedirectionEntries :: u8

definition IOAPIC_default :: IOAPIC where
  "IOAPIC_default = \<lparr>m_address = 0, m_globalSystemInterruptBase = 0, m_id = 0, m_numRedirectionEntries = 0\<rparr>"

text \<open>The address is a 32-bit member; the pointer to the data register is computed in 32 bits.\<close>

definition writeRegister :: "IOAPIC \<Rightarrow> u8 \<Rightarrow> u32 \<Rightarrow> 'z io_state_scheme \<Rightarrow> 'z io_state_scheme" where
  "writeRegister a registerNum value s =
     mmio_write (ucast (m_address a + 0x10)) value (mmio_write (ucast (m_address a)) (ucast registerNum) s)"

definition readRegister ::
  "devices \<Rightarrow> IOAPIC \<Rightarrow> u8 \<Rightarrow> 'z io_state_scheme \<Rightarrow> u32 \<times> 'z io_state_scheme" where
  "readRegister d a registerNum s =
     mmio_read d (ucast (m_address a + 0x10)) (mmio_write (ucast (m_address a)) (ucast registerNum) s)"

definition IOAPIC_init ::
  "devices \<Rightarrow> u64 \<Rightarrow> u32 \<Rightarrow> u8 \<Rightarrow> 'z io_state_scheme \<Rightarrow> IOAPIC \<times> 'z io_state_scheme" where
  "IOAPIC_init d address globalSystemInterruptBase i s =
     (let a = \<lparr>m_address = ucast address, m_globalSystemInterruptBase = globalSystemInterruptBase,
               m_id = i, m_numRedirectionEntries = 0\<rparr>;
          (r, s) = readRegister d a 1 s
      in (a\<lparr>m_numRedirectionEntries := ucast (drop_bit 16 r AND 0xff)\<rparr>, s))"

definition handlesIRQ :: "IOAPIC \<Rightarrow> u8 \<Rightarrow> bool" where
  "handlesIRQ a irq \<longleftrightarrow> ucast irq \<ge> m_globalSystemInterruptBase a \<and>
     ucast irq < m_globalSystemInterruptBase a + ucast (m_numRedirectionEntries a)"

text \<open>The register of the low half of a redirection entry; the argument is narrowed to 8 bits.\<close>

definition redirection_low :: "IOAPIC \<Rightarrow> u8 \<Rightarrow> u8" where
  "redirection_low a irq = ucast (0x10 + 2 * (ucast irq - m_globalSystemInterruptBase a))"

definition redirection_high :: "IOAPIC \<Rightarrow> u8 \<Rightarrow> u8" where
  "redirection_high a irq = ucast (0x10 + 2 * (ucast irq - m_globalSystemInterruptBase a) + 1)"

definition readRedirectionEntryLow ::
  "devices \<Rightarrow> IOAPIC \<Rightarrow> u8 \<Rightarrow> 'z io_state_scheme \<Rightarrow> u32 \<times> 'z io_state_scheme" where
  "readRedirectionEntryLow d a irq s = readRegister d a (redirection_low a irq) s"

definition readRedirectionEntryHigh ::
  "devices \<Rightarrow> IOAPIC \<Rightarrow> u8 \<Rightarrow> 'z io_state_scheme \<Rightarrow> u32 \<times> 'z io_state_scheme" where
  "readRedirectionEntryHigh d a irq s = readRegister d a (redirection_high a irq) s"

definition writeRedirectionEntryLow ::
  "IOAPIC \<Rightarrow> u8 \<Rightarrow> u32 \<Rightarrow> 'z io_state_scheme \<Rightarrow> 'z io_state_scheme" where
  "writeRedirectionEntryLow a irq value s = writeRegister a (redirection_low a irq) value s"

definition writeRedirectionEntryHigh ::
  "IOAPIC \<Rightarrow> u8 \<Rightarrow> u32 \<Rightarrow> 'z io_state_scheme \<Rightarrow> 'z io_state_scheme" where
  "writeRedirectionEntryHigh a irq value s = writeRegister a (redirection_high a irq) value s"

record APICManager =
  m_rsdp :: u64
  m_ioApics :: "IOAPIC list"
  m_numLocalApics :: u64
  m_numIoApics :: u64

definition APICManager_init :: "u64 \<Rightarrow> APICManager" where
  "APICManager_init rsdp =
     \<lparr>m_rsdp = rsdp, m_ioApics = replicate 16 IOAPIC_default, m_numLocalApics = 0, m_numIoApics = 0\<rparr>"

text \<open>One iteration over the MADT's structures: the pointer at the structure, the state and the
  manager. The pointer moves on by the structure's length.\<close>

definition madt_step ::
  "devices \<Rightarrow> u64 \<times> APICManager \<times> 'z apic_state_scheme \<Rightarrow> (u64 \<times> APICManager \<times> 'z apic_state_scheme) res" where
  "madt_step d = (\<lambda>(apicStructures, mgr, s).
     let type = load8 s apicStructures;
         len = load8 s (apicStructures + 1);
         apicStructures = apicStructures + 2;
         next = apicStructures + (ucast len - 2)
     in if type = 1
        then let ioApicAddress = load32 s (apicStructures + 2);
                 globalSystemInterruptBase = load32 s (apicStructures + 6);
                 ioApicId = load8 s apicStructures
             in res_bind (paging_add_mapping (kernel_physical_to_virtual s (ucast ioApicAddress))
                    (ucast ioApicAddress) pageSize (PageFlags_or PageFlags_Write PageFlags_CacheDisable) s) (\<lambda>s.
                if m_numIoApics mgr \<ge> 16 then kernel_panic ''Too many IO APICs\<newline>''
                else let (a, s) = IOAPIC_init d (kernel_physical_to_virtual s (ucast ioApicAddress))
                                    globalSystemInterruptBase ioApicId s;
                         mgr = mgr\<lparr>m_ioApics := (m_ioApics mgr)[unat (m_numIoApics mgr) := a],
                                   m_numIoApics := m_numIoApics mgr + 1\<rparr>
                     in ret (next, mgr, s))
        else ret (next, mgr, s))"

partial_function (option) parse_madt ::
  "devices \<Rightarrow> u64 \<Rightarrow> u64 \<times> APICManager \<times> 'z apic_state_scheme \<Rightarrow> (u64 \<times> APICManager \<times> 'z apic_state_scheme) res" where
  "parse_madt d end_of_table x =
     (if fst x < end_of_table then res_bind (madt_step d x) (parse_madt d end_of_table) else ret x)"

definition apic_signature :: "u8 list" where
  "apic_signature = [0x41, 0x50, 0x49, 0x43]"

text \<open>\<open>rsdp_address\<close> is what \<^verbatim>\<open>limine::rsdp_address->address\<close> holds. The MADT is packed, its
  structures begin at offset 44.\<close>

definition APICManager_initialize ::
  "devices \<Rightarrow> u64 \<Rightarrow> APICManager \<Rightarrow> 'z apic_state_scheme \<Rightarrow> (APICManager \<times> 'z apic_state_scheme) res" where
  "APICManager_initialize d rsdp_address mgr s =
     (let mgr = mgr\<lparr>m_rsdp := rsdp_address\<rparr> in
      if m_rsdp mgr = 0
      then kernel_panic ''Could not find RSDP. Maybe ACPI is not supported?\<newline>''
      else let revision = acpiRevision s (m_rsdp mgr) in
      res_bind (rootSDTPhysicalAddress s (m_rsdp mgr)) (\<lambda>physicalRsdt.
      let rsdt = kernel_physical_to_virtual s physicalRsdt;
          physicalMadt = findSDTWithSignature s rsdt apic_signature revision
      in if physicalMadt = 0 then kernel_panic ''MADT not found\<newline>''
         else let madt = kernel_physical_to_virtual s physicalMadt
              in res_bind (parse_madt d (madt + ucast (sdt_length s madt)) (madt + 44, mgr, s))
                   (\<lambda>(p, mgr, s). ret (mgr, s))))"

fun redirect_first :: "devices \<Rightarrow> IOAPIC list \<Rightarrow> u8 \<Rightarrow> u8 \<Rightarrow> 'z io_state_scheme \<Rightarrow> 'z io_state_scheme" where
  "redirect_first d [] irq vector s = s"
| "redirect_first d (ioApic # ioApics) irq vector s =
     (if \<not> handlesIRQ ioApic irq then redirect_first d ioApics irq vector s
      else let (low, s) = readRedirectionEntryLow d ioApic irq s;
               (high, s) = readRedirectionEntryHigh d ioApic irq s;
               low = low AND NOT 0xff;
               low = low OR ucast vector;
               low = low AND NOT (push_bit 16 1);
               high = (high AND 0x00ffffff) OR push_bit 24 (ucast (m_id ioApic));
               s = writeRedirectionEntryHigh ioApic irq high s
           in writeRedirectionEntryLow ioApic irq low s)"

definition redirectIrq ::
  "devices \<Rightarrow> APICManager \<Rightarrow> u8 \<Rightarrow> u8 \<Rightarrow> 'z io_state_scheme \<Rightarrow> 'z io_state_scheme" where
  "redirectIrq d mgr irq vector s = redirect_first d (m_ioApics mgr) irq vector s"

definition sendInterprocessorInterrupt ::
  "devices \<Rightarrow> u8 \<Rightarrow> u8 \<Rightarrow> 'z io_state_scheme \<Rightarrow> 'z io_state_scheme res" where
  "sendInterprocessorInterrupt d destination vector s =
     (let low = 0x4000 OR ucast vector;
          high = push_bit 24 (ucast destination)
      in res_bind (localAPICBaseAddress d s) (\<lambda>(base, s).
         let localAPICAddress = kernel_physical_to_virtual s base
         in ret (mmio_write (localAPICAddress + 0x300) low (mmio_write (localAPICAddress + 0x310) high s))))"

lemma unat_ucast_u32: "unat (ucast (x :: u32) :: u64) = unat x"
  using unsigned_less [of x, where ?'a = nat] by (simp add: unsigned_ucast_eq take_bit_nat_eq_self)

lemma unat_ucast_u8: "unat (ucast (x :: u8) :: u32) = unat x"
  using unsigned_less [of x, where ?'a = nat] by (simp add: unsigned_ucast_eq take_bit_nat_eq_self)

section \<open>The root description pointer\<close>

definition bytes_from :: "'z machine_scheme \<Rightarrow> u64 \<Rightarrow> nat \<Rightarrow> u8 list" where
  "bytes_from s p n = map (\<lambda>k. load8 s (p + of_nat k)) [0..<n]"

lemma fold_plus: "fold (\<lambda>x acc. acc + f x) xs a = a + sum_list (map f xs)" for a :: "'a :: comm_monoid_add"
  by (induction xs arbitrary: a) (simp_all add: add.assoc)

lemma byte_sum_eq:
  assumes "unat p + n < 2 ^ 64" and "unat q = n"
  shows "byte_sum s p (p + q) = ret (sum_list (bytes_from s p n))"
proof -
  have u: "unat (p + q) = unat p + n" using assms by (simp add: unat_add_no_wrap)
  have "byte_sum s p (p + q) = res_fold (\<lambda>byte sum. ret (sum + load8 s byte)) (count_up 1 p (p + q)) 0"
    unfolding byte_sum_def by (rule for_up_eq_fold) (use assms u in simp_all)
  also have "\<dots> = ret (sum_list (map (load8 s) (count_up 1 p (p + q))))"
    by (simp add: res_fold_ret fold_plus)
  also have "map (load8 s) (count_up 1 p (p + q)) = bytes_from s p n"
    using u by (simp add: count_up_def bytes_from_def)
  finally show ?thesis .
qed

text \<open>The root table's address is taken from the description pointer exactly when its checksum
  holds: the bytes of the pointer (20 of them in revision 0, otherwise as many as its size field
  says) sum to 0 modulo 256. Otherwise \<^verbatim>\<open>rootSDTPhysicalAddress\<close> panics. Revision 0 gives the
  32-bit address, a later one the 64-bit address.\<close>

lemma rsdp_address_checked:
  fixes s :: "'z machine_scheme"
  defines "len \<equiv> \<lambda>p. if acpiRevision s p = 0 then 20 else unat (load32 s (p + 20))"
  assumes "unat p + len p < 2 ^ 64"
  shows "rootSDTPhysicalAddress s p =
    (if sum_list (bytes_from s p (len p)) = 0
     then ret (if acpiRevision s p = 0 then ucast (load32 s (p + 16)) else load64 s (p + 24))
     else kernel_panic ''invalid RSDP table\<newline>'')"
proof -
  have "validate s p = ret (sum_list (bytes_from s p (len p)) = 0)"
    using assms(2) byte_sum_eq [of p 20 20 s] byte_sum_eq [of p "unat (load32 s (p + 20))" "ucast (load32 s (p + 20))" s]
    by (simp add: validate_def verifyPartialChecksum_def verifyFullChecksum_def len_def unat_ucast_u32 split: if_splits)
  then show ?thesis by (simp add: rootSDTPhysicalAddress_def)
qed

section \<open>The root table\<close>

text \<open>The ACPI specification puts entry \<open>k\<close> of a revision 0 table at offset \<open>36 + 4 k\<close>.\<close>

definition rsdt_entry :: "'z machine_scheme \<Rightarrow> u64 \<Rightarrow> nat \<Rightarrow> u64" where
  "rsdt_entry s rsdt k = ucast (load32 s (rsdt + 36 + 4 * of_nat k))"

lemma sdt_pointer_shifted: "sdt_pointer s rsdt 0 (of_nat i) = rsdt_entry s rsdt (Suc i)"
  by (simp add: sdt_pointer_def bytesPerPointer_def rsdt_entry_def pointersToOtherSDTs_def algebra_simps)

lemma find_sdt_from_range:
  assumes "find_sdt_from s rsdt sig 0 n i \<noteq> 0" and "unat i \<le> unat n"
  shows "\<exists>k. unat i < k \<and> k \<le> unat n \<and> find_sdt_from s rsdt sig 0 n i = rsdt_entry s rsdt k"
  using assms
proof (induction "unat n - unat i" arbitrary: i)
  case 0
  then show ?case by (subst (asm) find_sdt_from.simps) (simp add: word_less_nat_alt)
next
  case (Suc m)
  then have lt: "i < n" by (simp add: word_less_nat_alt)
  note s = unat_Suc_less [OF lt]
  let ?p = "sdt_pointer s rsdt 0 i"
  have p: "?p = rsdt_entry s rsdt (Suc (unat i))" using sdt_pointer_shifted [of s rsdt "unat i"] by simp
  show ?case
  proof (cases "strncmp_literal s ?p sig = 0")
    case True
    then have "find_sdt_from s rsdt sig 0 n i = ?p"
      using lt by (subst find_sdt_from.simps) (simp add: Let_def)
    then show ?thesis using p lt by (intro exI [of _ "Suc (unat i)"]) (simp add: word_less_nat_alt)
  next
    case False
    then have e: "find_sdt_from s rsdt sig 0 n i = find_sdt_from s rsdt sig 0 n (i + 1)"
      using lt by (subst find_sdt_from.simps) (simp add: Let_def)
    then have "\<exists>k. unat (i + 1) < k \<and> k \<le> unat n \<and> find_sdt_from s rsdt sig 0 n (i + 1) = rsdt_entry s rsdt k"
      using Suc.hyps Suc.prems lt s by (intro Suc.hyps(1)) (auto simp: word_less_nat_alt)
    then obtain k where "unat (i + 1) < k" "k \<le> unat n"
      "find_sdt_from s rsdt sig 0 n (i + 1) = rsdt_entry s rsdt k" by blast
    then show ?thesis using e s by (intro exI [of _ k]) simp
  qed
qed

text \<open>The search in a revision 0 root table is off by one entry. \<^verbatim>\<open>RootSDT\<close> is not packed, so its
  array is read at offset 40 and not at 36: a table that \<^verbatim>\<open>findSDTWithSignature\<close> finds is entry
  1 to n of the n entries numbered from 0. The first table is never found, and the last word read
  is the one behind the table.\<close>

lemma rsdt_search_is_shifted:
  assumes "findSDTWithSignature s rsdt sig 0 \<noteq> 0"
  shows "\<exists>k. 1 \<le> k \<and> k \<le> unat (numPointersToOtherSDTs s rsdt 0) \<and>
    findSDTWithSignature s rsdt sig 0 = rsdt_entry s rsdt k"
  using find_sdt_from_range [of s rsdt sig "numPointersToOtherSDTs s rsdt 0" 0] assms
  by (auto simp: findSDTWithSignature_def Suc_le_eq)

section \<open>The MADT\<close>

text \<open>A structure of length zero in the MADT hangs the boot: the pointer does not advance, and the
  loop of \<^verbatim>\<open>APICManager::initialize\<close> never returns.\<close>

lemma madt_zero_length_hangs:
  assumes "p < end_of_table" and "load8 s p \<noteq> 1" and "load8 s (p + 1) = 0"
  shows "parse_madt d end_of_table (p, mgr, s) = None"
proof (rule ccontr)
  assume "parse_madt d end_of_table (p, mgr, s) \<noteq> None"
  then obtain y where y: "parse_madt d end_of_table (p, mgr, s) = Some y" by auto
  have step: "madt_step d (p, mgr, s) = ret (p, mgr, s)"
    using assms(2,3) by (simp add: madt_step_def Let_def)
  let ?P = "\<lambda>d' e x (y :: kerror + _). d' = d \<and> e = end_of_table \<and> x = (p, mgr, s) \<longrightarrow> False"
  have "?P d end_of_table (p, mgr, s) y"
  proof (rule parse_madt.raw_induct [where P = ?P and xa = "((d, end_of_table), (p, mgr, s))" and y = y,
        unfolded prod.case])
    fix loop d' e x y'
    assume IH: "\<And>d e x y. loop d e x = Some y \<Longrightarrow> ?P d e x y"
      and eq: "(if fst x < e then res_bind (madt_step d' x) (loop d' e) else ret x) = Some y'"
    show "?P d' e x y'"
    proof
      assume "d' = d \<and> e = end_of_table \<and> x = (p, mgr, s)"
      then have "loop d end_of_table (p, mgr, s) = Some y'" using eq step assms(1) by simp
      then show False using IH by blast
    qed
  qed (rule y)
  then show False by simp
qed


section \<open>Redirection entries\<close>

text \<open>The documented behaviour of an I/O APIC at an address: a write there selects a register, and the
  data register 16 bytes on is the selected register. Register 1, the version, is read-only.\<close>

definition ioapic_write :: "u64 \<Rightarrow> u64 \<Rightarrow> io_event \<Rightarrow> u32 \<times> (u32 \<Rightarrow> u32) \<Rightarrow> u32 \<times> (u32 \<Rightarrow> u32)" where
  "ioapic_write select data e = (\<lambda>(sel, regs). case e of
     MmioWrite p v \<Rightarrow> if p = select then (v, regs) else if p = data \<and> sel \<noteq> 1 then (sel, regs(sel := v)) else (sel, regs)
   | _ \<Rightarrow> (sel, regs))"

definition ioapic_after :: "IOAPIC \<Rightarrow> u32 \<times> (u32 \<Rightarrow> u32) \<Rightarrow> io_event list \<Rightarrow> u32 \<times> (u32 \<Rightarrow> u32)" where
  "ioapic_after a st h = fold (ioapic_write (ucast (m_address a)) (ucast (m_address a + 0x10))) h st"

definition ioapic_reads :: "devices \<Rightarrow> IOAPIC \<Rightarrow> u32 \<times> (u32 \<Rightarrow> u32) \<Rightarrow> bool" where
  "ioapic_reads d a st0 \<longleftrightarrow> (\<forall>h. mmio_in d h (ucast (m_address a + 0x10)) =
     (case ioapic_after a st0 h of (sel, regs) \<Rightarrow> regs sel))"

lemma data_register: "(ucast (a + 0x10 :: u32) :: u64) \<noteq> ucast a"
proof
  assume "(ucast (a + 0x10 :: u32) :: u64) = ucast a"
  then have "a + 0x10 = a" by (metis unat_ucast_u32 word_unat_eq_iff)
  then show False by simp
qed

lemma version_register: "ucast (r :: u8) = (1 :: u32) \<longleftrightarrow> r = 1"
  by (simp only: word_unat_eq_iff unat_ucast_u8 unsigned_1)

lemma ioapic_write_register:
  "ioapic_after a st (io_trace (writeRegister a r v s)) =
    (case ioapic_after a st (io_trace s) of (sel, regs) \<Rightarrow> (ucast r, if r = 1 then regs else regs(ucast r := v)))"
  using data_register [of "m_address a"] version_register [of r]
  by (auto simp add: writeRegister_def mmio_write_def emit_def ioapic_after_def ioapic_write_def split: prod.splits)

lemma ioapic_read_register:
  assumes "ioapic_reads d a st" and "ioapic_after a st (io_trace s) = (sel, regs)"
  shows "fst (readRegister d a r s) = regs (ucast r)"
    and "ioapic_after a st (io_trace (snd (readRegister d a r s))) = (ucast r, regs)"
  using assms data_register [of "m_address a"]
  by (simp_all add: readRegister_def mmio_read_def mmio_write_def emit_def ioapic_reads_def
      ioapic_after_def ioapic_write_def Let_def)

lemma redirection_registers_differ: "ucast (redirection_low a irq) \<noteq> (ucast (redirection_high a irq) :: u32)"
proof
  assume "ucast (redirection_low a irq) = (ucast (redirection_high a irq) :: u32)"
  then have "redirection_low a irq = redirection_high a irq"
    by (metis unat_ucast_u8 word_unat_eq_iff)
  moreover have "\<not> bit (redirection_low a irq) 0" "bit (redirection_high a irq) 0"
    unfolding redirection_low_def redirection_high_def bit_unsigned_iff by (simp_all add: bit_0)
  ultimately show False by simp
qed

lemma redirect_first_skip:
  "list_all (\<lambda>a. \<not> handlesIRQ a irq) pre \<Longrightarrow> redirect_first d (pre @ as) irq vector s = redirect_first d as irq vector s"
  by (induction pre) simp_all

lemma redirection_low_even: "redirection_low a irq \<noteq> 1"
proof
  assume "redirection_low a irq = 1"
  moreover have "\<not> bit (redirection_low a irq) 0" unfolding redirection_low_def bit_unsigned_iff by (simp add: bit_0)
  ultimately show False by simp
qed

text \<open>The registers of the controller after \<^verbatim>\<open>redirectIrq\<close>.\<close>

lemma redirectIrq_registers:
  fixes s :: "'z io_state_scheme"
  assumes mgr: "m_ioApics mgr = pre @ a # post" and pre: "list_all (\<lambda>a. \<not> handlesIRQ a irq) pre"
    and a: "handlesIRQ a irq" "redirection_high a irq \<noteq> 1" and dev: "ioapic_reads d a st"
    and before: "ioapic_after a st (io_trace s) = (sel, regs)"
  defines "low \<equiv> ucast (redirection_low a irq) :: u32" and "high \<equiv> ucast (redirection_high a irq) :: u32"
  shows "ioapic_after a st (io_trace (redirectIrq d mgr irq vector s)) =
    (low, (regs(high := (regs high AND 0x00ffffff) OR push_bit 24 (ucast (m_id a))))
      (low := ((regs low AND NOT 0xff) OR ucast vector) AND NOT (push_bit 16 1)))"
proof -
  define s1 where "s1 = snd (readRedirectionEntryLow d a irq s)"
  define s2 where "s2 = snd (readRedirectionEntryHigh d a irq s1)"
  have 1: "readRedirectionEntryLow d a irq s = (regs low, s1)" "ioapic_after a st (io_trace s1) = (low, regs)"
    using ioapic_read_register [OF dev before, of "redirection_low a irq"]
    by (simp_all add: s1_def readRedirectionEntryLow_def low_def prod_eq_iff)
  have 2: "readRedirectionEntryHigh d a irq s1 = (regs high, s2)" "ioapic_after a st (io_trace s2) = (high, regs)"
    using ioapic_read_register [OF dev 1(2), of "redirection_high a irq"]
    by (simp_all add: s2_def readRedirectionEntryHigh_def high_def prod_eq_iff)
  let ?low = "((regs low AND NOT 0xff) OR ucast vector) AND NOT (push_bit 16 1)"
  let ?high = "(regs high AND 0x00ffffff) OR push_bit 24 (ucast (m_id a))"
  have "redirectIrq d mgr irq vector s =
      writeRedirectionEntryLow a irq ?low (writeRedirectionEntryHigh a irq ?high s2)"
    using a(1) 1(1) 2(1) by (simp add: redirectIrq_def mgr redirect_first_skip [OF pre] Let_def)
  then show ?thesis
    using 2(2) a(2) redirection_low_even [of a irq]
    by (simp add: writeRedirectionEntryLow_def writeRedirectionEntryHigh_def ioapic_write_register low_def high_def)
qed

text \<open>C27. \<^verbatim>\<open>redirectIrq\<close> programs the redirection entry of the interrupt in the first I/O APIC that
  handles it (its registers lie behind the version register): afterwards its low half has the new vector and a
  clear mask bit with its other bits kept, its high half has the I/O APIC's own id as the destination, and every
  other register of the controller is as before.\<close>

theorem redirectIrq_programs_entry:
  fixes s :: "'z io_state_scheme"
  assumes mgr: "m_ioApics mgr = pre @ a # post" and pre: "list_all (\<lambda>a. \<not> handlesIRQ a irq) pre"
    and a: "handlesIRQ a irq" "redirection_high a irq \<noteq> 1" and dev: "ioapic_reads d a st"
    and before: "ioapic_after a st (io_trace s) = (sel, regs)"
  defines "low \<equiv> ucast (redirection_low a irq) :: u32" and "high \<equiv> ucast (redirection_high a irq) :: u32"
  shows "\<exists>sel' regs'. ioapic_after a st (io_trace (redirectIrq d mgr irq vector s)) = (sel', regs') \<and>
    regs' low = ((regs low AND NOT 0xff) OR ucast vector) AND NOT (push_bit 16 1) \<and>
    regs' high = (regs high AND 0x00ffffff) OR push_bit 24 (ucast (m_id a)) \<and>
    (\<forall>r. r \<noteq> low \<longrightarrow> r \<noteq> high \<longrightarrow> regs' r = regs r)"
  using redirectIrq_registers [OF assms(1-6)] redirection_registers_differ [of a irq] by (simp add: low_def high_def)

section \<open>Examples\<close>

text \<open>A revision 0 descriptor of zero bytes, an empty table, and an I/O APIC with 24 entries.\<close>

definition example_acpi :: apic_state where
  "example_acpi = (io_state.extend example_io \<lparr>lapic_baseAddress = 0\<rparr>)\<lparr>mem := (\<lambda>_. 0)\<rparr>"

definition blank_memory :: machine where
  "blank_memory = \<lparr>mem = (\<lambda>_. 0), hhdm_offset = 0xffff800000000000\<rparr>"

text \<open>A root table at \<open>0x1000\<close> with two entries, the second one the address of a table with the
  signature \<^verbatim>\<open>APIC\<close>.\<close>

definition table_memory :: machine where
  "table_memory = blank_memory\<lparr>mem := write_u32 0x1004 44 (write_u32 0x1028 0x2000
     (write_u32 0x2000 0x43495041 (\<lambda>_. 0)))\<rparr>"

lemma put_le_4: "put_le 4 a v m = m(a := ucast v, a + 1 := ucast (drop_bit 8 v),
    a + 2 := ucast (drop_bit 16 v), a + 3 := ucast (drop_bit 24 v))"
  by (simp add: numeral_eq_Suc fun_eq_iff add.assoc)

lemma get_le_4: "get_le 4 m a = ucast (m a) OR push_bit 8 (ucast (m (a + 1)) OR
    push_bit 8 (ucast (m (a + 2)) OR push_bit 8 (ucast (m (a + 3)))))"
  by (simp add: numeral_eq_Suc add.assoc)

lemma rsdp_address_checked_example:
  "rootSDTPhysicalAddress blank_memory 0x1000 = ret 0"
proof -
  have z: "load8 blank_memory p = 0" "load32 blank_memory p = 0" for p
    by (simp_all add: load8_def load32_def blank_memory_def read_u32_def get_le_4)
  have "sum_list (bytes_from blank_memory 0x1000 20) = 0" by (simp add: bytes_from_def z)
  then show ?thesis
    using rsdp_address_checked [of "0x1000" blank_memory] by (simp add: acpiRevision_def z)
qed

lemma rsdt_search_is_shifted_example:
  "\<exists>k. 1 \<le> k \<and> findSDTWithSignature table_memory 0x1000 apic_signature 0 = rsdt_entry table_memory 0x1000 k"
proof -
  let ?t = table_memory
  have "sdt_length ?t 0x1000 = 44" "load32 ?t 0x1028 = 0x2000"
    by (simp_all add: sdt_length_def load32_def table_memory_def blank_memory_def cell_of_def
        read_u32_def write_u32_def put_le_4 get_le_4)
  moreover have "load8 ?t 0x2000 = 0x41" "load8 ?t 0x2001 = 0x50" "load8 ?t 0x2002 = 0x49" "load8 ?t 0x2003 = 0x43"
    by (simp_all add: load8_def table_memory_def blank_memory_def cell_of_def write_u32_def put_le_4)
  ultimately have "findSDTWithSignature ?t 0x1000 apic_signature 0 = 0x2000"
    unfolding findSDTWithSignature_def
    by (simp add: numPointersToOtherSDTs_def bytesPerPointer_def find_sdt_from.simps [of ?t _ _ _ _ 0]
        sdt_pointer_def pointersToOtherSDTs_def apic_signature_def)
  then have "findSDTWithSignature ?t 0x1000 apic_signature 0 \<noteq> 0" by simp
  then show ?thesis using rsdt_search_is_shifted [of ?t "0x1000" apic_signature] by blast
qed

lemma madt_zero_length_hangs_example:
  "parse_madt example_devices 0x2000 (0x1800, APICManager_init 0, example_acpi) = None"
proof -
  have "load8 example_acpi 0x1800 \<noteq> 1" "load8 example_acpi (0x1800 + 1) = 0"
    by (simp_all add: load8_def example_acpi_def)
  then show ?thesis using madt_zero_length_hangs [of "0x1800" "0x2000" example_acpi] by simp
qed

definition example_ioapic :: IOAPIC where
  "example_ioapic = \<lparr>m_address = 0xfec00000, m_globalSystemInterruptBase = 0, m_id = 2,
     m_numRedirectionEntries = 24\<rparr>"

definition example_mgr :: APICManager where
  "example_mgr = (APICManager_init 0)\<lparr>m_ioApics := [example_ioapic]\<rparr>"

definition example_mmio :: devices where
  "example_mmio = example_devices\<lparr>mmio_in := (\<lambda>h a.
     if a = 0xfec00010 then (case ioapic_after example_ioapic (0, \<lambda>_. 0x10000) h of (sel, regs) \<Rightarrow> regs sel) else 0)\<rparr>"

theorem redirectIrq_programs_entry_witness:
  "\<exists>sel regs. ioapic_after example_ioapic (0, \<lambda>_. 0x10000)
     (io_trace (redirectIrq example_mmio example_mgr 1 0x30 example_io)) = (sel, regs) \<and> regs 0x12 = 0x30"
proof -
  have h: "m_ioApics example_mgr = [] @ example_ioapic # []" "list_all (\<lambda>a. \<not> handlesIRQ a 1) []"
    "handlesIRQ example_ioapic 1" "redirection_high example_ioapic 1 \<noteq> 1" "ioapic_reads example_mmio example_ioapic (0, \<lambda>_. 0x10000)"
    "ioapic_after example_ioapic (0, \<lambda>_. 0x10000) (io_trace example_io) = (0, \<lambda>_. 0x10000)"
    by (simp_all add: example_mgr_def handlesIRQ_def redirection_high_def ioapic_reads_def example_mmio_def)
       (simp_all add: example_ioapic_def ioapic_after_def)
  have "redirection_low example_ioapic 1 = 0x12" by (simp add: redirection_low_def example_ioapic_def)
  then show ?thesis using redirectIrq_programs_entry [OF h, of "0x30"] by auto
qed

end
