(* ===== verification/Descriptors.thy ===== *)
theory Descriptors
  imports Processor "HOL-Library.Monad_Syntax"
begin

text \<open>
  The tables the processor reads: segment selectors (\<^verbatim>\<open>SegmentSelector.h\<close>), the global descriptor
  table (\<^verbatim>\<open>gdt.cpp\<close>), the operands of \<^verbatim>\<open>lgdt\<close> and \<^verbatim>\<open>lidt\<close> (\<^verbatim>\<open>TableDescriptor.cpp\<close>) and the bytes
  of the interrupt descriptor table (\<^verbatim>\<open>IDTStructure.cpp\<close>). The functions named \<open>hw_...\<close> decode these
  bytes the way the architecture manual says the processor does; the theorems are the round trips.
\<close>

section \<open>Arrays\<close>

text \<open>\<^verbatim>\<open>kpp::Array::operator[]\<close> does not check its index: \<open>None\<close> is a store outside of the array.\<close>

definition array_store :: "nat \<Rightarrow> 'a \<Rightarrow> 'a list \<Rightarrow> 'a list option" where
  "array_store i v xs = (if i < length xs then Some (xs[i := v]) else None)"

section \<open>Segments and selectors\<close>

datatype PrivilegeLevel = PL_kernel | PL_user

fun PrivilegeLevel_value :: "PrivilegeLevel \<Rightarrow> int" where
  "PrivilegeLevel_value PL_kernel = 0"
| "PrivilegeLevel_value PL_user = 3"

datatype DescriptorTable = DT_global | DT_local

fun DescriptorTable_value :: "DescriptorTable \<Rightarrow> int" where
  "DescriptorTable_value DT_global = 0"
| "DescriptorTable_value DT_local = 1"

datatype GDTSegment = Seg_null | Seg_kernel_code | Seg_kernel_data | Seg_user_code | Seg_user_data

fun GDTSegment_value :: "GDTSegment \<Rightarrow> int" where
  "GDTSegment_value Seg_null = 0"
| "GDTSegment_value Seg_kernel_code = 1"
| "GDTSegment_value Seg_kernel_data = 2"
| "GDTSegment_value Seg_user_code = 3"
| "GDTSegment_value Seg_user_data = 4"

record SegmentSelector =
  requested_privilege_level :: PrivilegeLevel
  table_type :: DescriptorTable
  gdt_segment :: GDTSegment

definition to_uint16_t :: "SegmentSelector \<Rightarrow> u16" where
  "to_uint16_t sel =
     push_bit 3 (word_of_int (GDTSegment_value (gdt_segment sel)))
     OR push_bit 2 (word_of_int (DescriptorTable_value (table_type sel)))
     OR word_of_int (PrivilegeLevel_value (requested_privilege_level sel))"

definition make_segment_descriptor :: "u64 \<Rightarrow> u64 \<Rightarrow> u8 \<Rightarrow> u8 \<Rightarrow> u64" where
  "make_segment_descriptor base limit access flags =
     (limit AND 0xffff)
     OR push_bit 16 (base AND 0xffffff)
     OR push_bit 40 (ucast access)
     OR push_bit 48 (drop_bit 16 limit)
     OR push_bit 52 (ucast (flags AND 0xf))
     OR push_bit 56 (drop_bit 24 base)"

definition PRESENT :: "u8 \<Rightarrow> u8" where "PRESENT b = push_bit 7 b"
definition KERNEL_PRIVILEGE :: u8 where "KERNEL_PRIVILEGE = push_bit 5 0"
definition USER_PRIVILEGE :: u8 where "USER_PRIVILEGE = push_bit 5 3"
definition CODE_OR_DATA_SEGMENT :: u8 where "CODE_OR_DATA_SEGMENT = push_bit 4 1"
definition IS_CODE_SEGMENT :: "u8 \<Rightarrow> u8" where "IS_CODE_SEGMENT b = push_bit 3 b"
definition DATA_GROWS_UPWARD :: u8 where "DATA_GROWS_UPWARD = push_bit 2 0"
definition CODE_EXACT_PRIVILEGE :: u8 where "CODE_EXACT_PRIVILEGE = push_bit 2 0"
definition DATA_WRITABLE :: u8 where "DATA_WRITABLE = push_bit 1 1"
definition CODE_READABLE :: u8 where "CODE_READABLE = push_bit 1 1"
definition ACCESSED :: "u8 \<Rightarrow> u8" where "ACCESSED b = b"
definition PAGE_GRANULARITY :: u8 where "PAGE_GRANULARITY = push_bit 3 1"
definition PROTECTED_32 :: u8 where "PROTECTED_32 = push_bit 2 1"
definition LONG_MODE_CODE :: "u8 \<Rightarrow> u8" where "LONG_MODE_CODE b = push_bit 1 b"

definition KERNEL_CODE_ACCESS :: u8 where
  "KERNEL_CODE_ACCESS = PRESENT 1 OR KERNEL_PRIVILEGE OR CODE_OR_DATA_SEGMENT OR IS_CODE_SEGMENT 1
     OR CODE_EXACT_PRIVILEGE OR CODE_READABLE OR ACCESSED 1"

definition KERNEL_DATA_ACCESS :: u8 where
  "KERNEL_DATA_ACCESS = PRESENT 1 OR KERNEL_PRIVILEGE OR CODE_OR_DATA_SEGMENT OR IS_CODE_SEGMENT 0
     OR DATA_GROWS_UPWARD OR DATA_WRITABLE OR ACCESSED 1"

definition USER_CODE_ACCESS :: u8 where
  "USER_CODE_ACCESS = PRESENT 1 OR USER_PRIVILEGE OR CODE_OR_DATA_SEGMENT OR IS_CODE_SEGMENT 1
     OR CODE_EXACT_PRIVILEGE OR CODE_READABLE OR ACCESSED 1"

definition USER_DATA_ACCESS :: u8 where
  "USER_DATA_ACCESS = PRESENT 1 OR USER_PRIVILEGE OR CODE_OR_DATA_SEGMENT OR IS_CODE_SEGMENT 0
     OR DATA_GROWS_UPWARD OR DATA_WRITABLE OR ACCESSED 1"

definition LONG_MODE_CODE_PAGING :: u8 where
  "LONG_MODE_CODE_PAGING = PAGE_GRANULARITY OR LONG_MODE_CODE 1"

definition PROTECTED_32_PAGING :: u8 where
  "PROTECTED_32_PAGING = PAGE_GRANULARITY OR PROTECTED_32"

lemmas segment_macros =
  PRESENT_def KERNEL_PRIVILEGE_def USER_PRIVILEGE_def CODE_OR_DATA_SEGMENT_def IS_CODE_SEGMENT_def
  DATA_GROWS_UPWARD_def CODE_EXACT_PRIVILEGE_def DATA_WRITABLE_def CODE_READABLE_def ACCESSED_def
  PAGE_GRANULARITY_def PROTECTED_32_def LONG_MODE_CODE_def KERNEL_CODE_ACCESS_def
  KERNEL_DATA_ACCESS_def USER_CODE_ACCESS_def USER_DATA_ACCESS_def LONG_MODE_CODE_PAGING_def
  PROTECTED_32_PAGING_def

definition NULL_DESCRIPTOR :: u64 where "NULL_DESCRIPTOR = 0"

definition global_descriptor_table :: "u64 list" where
  "global_descriptor_table =
     [NULL_DESCRIPTOR,
      make_segment_descriptor 0 0x000fffff KERNEL_CODE_ACCESS LONG_MODE_CODE_PAGING,
      make_segment_descriptor 0 0x000fffff KERNEL_DATA_ACCESS PROTECTED_32_PAGING,
      make_segment_descriptor 0 0x000fffff USER_CODE_ACCESS LONG_MODE_CODE_PAGING,
      make_segment_descriptor 0 0x000fffff USER_DATA_ACCESS PROTECTED_32_PAGING]"

section \<open>Table descriptors\<close>

text \<open>The ten bytes the constructor writes.\<close>

definition TableDescriptor_init :: "u16 \<Rightarrow> u64 \<Rightarrow> u8 list" where
  "TableDescriptor_init sz table_address =
     (let adjusted_size = sz - 1; address = table_address
      in [ucast adjusted_size, ucast (drop_bit 8 adjusted_size),
          ucast address, ucast (drop_bit 8 address), ucast (drop_bit 16 address),
          ucast (drop_bit 24 address), ucast (drop_bit 32 address), ucast (drop_bit 40 address),
          ucast (drop_bit 48 address), ucast (drop_bit 56 address)])"

definition gdt_descriptor :: "u64 \<Rightarrow> u8 list" where
  "gdt_descriptor table_address =
     TableDescriptor_init (of_nat (8 * length global_descriptor_table)) table_address"

text \<open>\<open>table_address\<close> is where the linker places \<^verbatim>\<open>global_descriptor_table\<close>.\<close>

definition gdt_init :: "u64 \<Rightarrow> 'z io_state_scheme \<Rightarrow> 'z io_state_scheme" where
  "gdt_init table_address s =
     (let s = emit (Lgdt (gdt_descriptor table_address)) s
      in emit (ReloadSegments (word_of_int (GDTSegment_value Seg_kernel_code) * 8)
                              (word_of_int (GDTSegment_value Seg_kernel_data) * 8)) s)"

section \<open>The interrupt descriptor table\<close>

datatype GateType = Gate_interrupt | Gate_trap

fun GateType_value :: "GateType \<Rightarrow> int" where
  "GateType_value Gate_interrupt = 0xe"
| "GateType_value Gate_trap = 0xf"

text \<open>The service routine is the address in the union \<^verbatim>\<open>InterruptFunction\<close>.\<close>

record GateDescriptor =
  interrupt_service_routine :: u64
  selector :: SegmentSelector
  interrupt_stack_table_offset :: u8
  gate_type :: GateType
  required_privilege :: PrivilegeLevel

definition num_gates :: u16 where "num_gates = 256"
definition gate_size :: u8 where "gate_size = 16"
definition IDTStructure_size :: u16 where "IDTStructure_size = ucast gate_size * num_gates"

definition IDTStructure_init :: "u8 list" where
  "IDTStructure_init = replicate (unat IDTStructure_size) 0"

definition load_gate_descriptor :: "u16 \<Rightarrow> GateDescriptor \<Rightarrow> u8 list \<Rightarrow> u8 list option" where
  "load_gate_descriptor index gate_descriptor byte_representation =
     (let base = unat (index * ucast gate_size);
          selector_bytes = to_uint16_t (selector gate_descriptor);
          isr_address = interrupt_service_routine gate_descriptor
      in do {
        t \<leftarrow> array_store (base + 0) (ucast isr_address) byte_representation;
        t \<leftarrow> array_store (base + 1) (ucast (drop_bit 8 isr_address)) t;
        t \<leftarrow> array_store (base + 2) (ucast selector_bytes) t;
        t \<leftarrow> array_store (base + 3) (ucast (drop_bit 8 selector_bytes)) t;
        t \<leftarrow> array_store (base + 4) (interrupt_stack_table_offset gate_descriptor AND 7) t;
        t \<leftarrow> array_store (base + 5)
          (word_of_int (GateType_value (gate_type gate_descriptor))
           OR push_bit 5 (word_of_int (PrivilegeLevel_value (required_privilege gate_descriptor)))
           OR push_bit 7 1) t;
        t \<leftarrow> array_store (base + 6) (ucast (drop_bit 16 isr_address)) t;
        t \<leftarrow> array_store (base + 7) (ucast (drop_bit 24 isr_address)) t;
        t \<leftarrow> array_store (base + 8) (ucast (drop_bit 32 isr_address)) t;
        t \<leftarrow> array_store (base + 9) (ucast (drop_bit 40 isr_address)) t;
        t \<leftarrow> array_store (base + 10) (ucast (drop_bit 48 isr_address)) t;
        t \<leftarrow> array_store (base + 11) (ucast (drop_bit 56 isr_address)) t;
        t \<leftarrow> array_store (base + 12) 0xca t;
        t \<leftarrow> array_store (base + 13) 0xfe t;
        t \<leftarrow> array_store (base + 14) 0xba t;
        array_store (base + 15) 0xbe t
      })"

section \<open>What the processor reads\<close>

text \<open>The fields of a gate: the offset of the handler, the selector, the stack table index, the
  type, the privilege level and the present bit.\<close>

record hw_gate =
  hw_offset :: u64
  hw_selector :: u16
  hw_ist :: u8
  hw_type :: u8
  hw_dpl :: u8
  hw_present :: bool

definition le16 :: "u8 \<Rightarrow> u8 \<Rightarrow> u16" where
  "le16 a b = ucast a OR push_bit 8 (ucast b)"

definition le64 :: "u8 list \<Rightarrow> u64" where
  "le64 bs = foldr (\<lambda>b v. ucast b OR push_bit 8 v) bs 0"

definition hw_gate_of :: "u8 list \<Rightarrow> hw_gate" where
  "hw_gate_of bs =
     \<lparr>hw_offset = le64 [bs ! 0, bs ! 1, bs ! 6, bs ! 7, bs ! 8, bs ! 9, bs ! 10, bs ! 11],
      hw_selector = le16 (bs ! 2) (bs ! 3), hw_ist = bs ! 4 AND 7, hw_type = bs ! 5 AND 0xf,
      hw_dpl = drop_bit 5 (bs ! 5) AND 3, hw_present = bit (bs ! 5) 7\<rparr>"

definition hw_read_gate :: "u8 list \<Rightarrow> nat \<Rightarrow> hw_gate" where
  "hw_read_gate t i = hw_gate_of (map (\<lambda>k. t ! (16 * i + k)) [0..<16])"

text \<open>The limit and the base address of the operand of \<^verbatim>\<open>lgdt\<close> and \<^verbatim>\<open>lidt\<close>.\<close>

definition hw_table_operand :: "u8 list \<Rightarrow> u16 \<times> u64" where
  "hw_table_operand bs = (le16 (bs ! 0) (bs ! 1), le64 (take 8 (drop 2 bs)))"

text \<open>Base, limit, access byte and flags of a segment descriptor.\<close>

definition hw_segment :: "u64 \<Rightarrow> u64 \<times> u64 \<times> u64 \<times> u64" where
  "hw_segment d =
     ((drop_bit 16 d AND mask 24) OR push_bit 24 (drop_bit 56 d),
      (d AND mask 16) OR push_bit 16 (drop_bit 48 d AND mask 4),
      drop_bit 40 d AND mask 8,
      drop_bit 52 d AND mask 4)"

lemma le16_split: "le16 (ucast v) (ucast (drop_bit 8 v)) = v"
  unfolding le16_def
  by (rule bit_word_eqI) (auto simp: bit_simps)

primrec le_bytes :: "nat \<Rightarrow> u64 \<Rightarrow> u8 list" where
  "le_bytes 0 v = []"
| "le_bytes (Suc n) v = ucast v # le_bytes n (drop_bit 8 v)"

lemma le64_le_bytes: "le64 (le_bytes n v) = take_bit (8 * n) v"
proof (induction n arbitrary: v)
  case (Suc n)
  have "ucast (ucast v :: u8) OR push_bit 8 (take_bit (8 * n) (drop_bit 8 v)) = take_bit (8 * Suc n) v"
    by (rule bit_word_eqI) (auto simp: bit_simps)
  then show ?case using Suc by (simp add: le64_def)
qed (simp add: le64_def)

lemma le64_split:
  "le64 [ucast v, ucast (drop_bit 8 v), ucast (drop_bit 16 v), ucast (drop_bit 24 v),
     ucast (drop_bit 32 v), ucast (drop_bit 40 v), ucast (drop_bit 48 v), ucast (drop_bit 56 v)]
   = (v :: u64)"
  using le64_le_bytes [of 8 v]
  by (simp add: numeral_eq_Suc drop_bit_drop_bit take_bit_word_eq_self)

lemma table_operand: "hw_table_operand (TableDescriptor_init sz table_address) = (sz - 1, table_address)"
  using le16_split [of "sz - 1"] le64_split [of table_address]
  by (simp add: hw_table_operand_def TableDescriptor_init_def Let_def numeral_eq_Suc)

text \<open>The operand that \<^verbatim>\<open>TableDescriptor\<close> builds reads back as the limit \<open>size - 1\<close> (so that a
  table of 65536 bytes, passed as 0, is described too) and the address of the table.\<close>

lemma table_descriptor_roundtrip:
  "hw_table_operand (TableDescriptor_init sz table_address) = (sz - 1, table_address)"
  by (rule table_operand)

lemma no_high_bit:
  fixes x :: u64
  assumes "x < 2 ^ k" and "k \<le> n" shows "\<not> bit x n"
proof -
  have "drop_bit k x = 0" using assms(1) by (simp add: drop_bit_eq_div div_word_less)
  then have "\<not> bit (drop_bit k x) (n - k)" by simp
  then show ?thesis using assms(2) by (simp add: bit_drop_bit_eq)
qed

lemmas segment_masks =
  mask_eq_exp_minus_1 [of 16, where ?'a = u64, simplified, symmetric]
  mask_eq_exp_minus_1 [of 24, where ?'a = u64, simplified, symmetric]
  mask_eq_exp_minus_1 [of 4, where ?'a = u8, simplified, symmetric]

lemma segment_fields:
  fixes base limit :: u64
  assumes "base < 2 ^ 32" and "limit < 2 ^ 20" and d: "d = make_segment_descriptor base limit access flags"
  shows "(drop_bit 16 d AND mask 24) OR push_bit 24 (drop_bit 56 d) = base"
    and "(d AND mask 16) OR push_bit 16 (drop_bit 48 d AND mask 4) = limit"
    and "drop_bit 40 d AND mask 8 = (ucast access :: u64)"
    and "drop_bit 52 d AND mask 4 = (ucast (flags AND mask 4) :: u64)"
proof -
  have b: "\<not> bit base n" if "32 \<le> n" for n by (rule no_high_bit [OF assms(1) that])
  have l: "\<not> bit limit n" if "20 \<le> n" for n by (rule no_high_bit [OF assms(2) that])
  have a: "\<not> bit access n" if "8 \<le> n" for n using that bit_imp_le_length [of access n] by auto
  note fields = d make_segment_descriptor_def segment_masks bit_or_iff bit_and_iff bit_push_bit_iff
    bit_drop_bit_eq bit_mask_iff bit_unsigned_iff b l a
  show "(drop_bit 16 d AND mask 24) OR push_bit 24 (drop_bit 56 d) = base"
  proof (rule bit_word_eqI)
    fix n assume "n < LENGTH(64)"
    then consider "n < 24" | "24 \<le> n" "n < 32" | "32 \<le> n" "n < 64" by fastforce
    then show "bit ((drop_bit 16 d AND mask 24) OR push_bit 24 (drop_bit 56 d)) n = bit (base) n"
      by (cases; simp add: fields; auto)
  qed
  show "(d AND mask 16) OR push_bit 16 (drop_bit 48 d AND mask 4) = limit"
  proof (rule bit_word_eqI)
    fix n assume "n < LENGTH(64)"
    then consider "n < 16" | "16 \<le> n" "n < 20" | "20 \<le> n" "n < 64" by fastforce
    then show "bit ((d AND mask 16) OR push_bit 16 (drop_bit 48 d AND mask 4)) n = bit (limit) n"
      by (cases; simp add: fields; auto)
  qed
  show "drop_bit 40 d AND mask 8 = (ucast access :: u64)"
  proof (rule bit_word_eqI)
    fix n assume "n < LENGTH(64)"
    then consider "n < 8" | "8 \<le> n" "n < 64" by fastforce
    then show "bit (drop_bit 40 d AND mask 8) n = bit (ucast access :: u64) n"
      by (cases; simp add: fields; auto)
  qed
  show "drop_bit 52 d AND mask 4 = (ucast (flags AND mask 4) :: u64)"
  proof (rule bit_word_eqI)
    fix n assume "n < LENGTH(64)"
    then consider "n < 4" | "4 \<le> n" "n < 64" by fastforce
    then show "bit (drop_bit 52 d AND mask 4) n = bit (ucast (flags AND mask 4) :: u64) n"
      by (cases; simp add: fields; auto)
  qed
qed

text \<open>A segment descriptor reads back as the base, the limit, the access byte and the low four
  flags it was made from, for every 32-bit base and every 20-bit limit.\<close>

lemma segment_descriptor_roundtrip:
  assumes "base < 2 ^ 32" and "limit < 2 ^ 20"
  shows "hw_segment (make_segment_descriptor base limit access flags)
    = (base, limit, ucast access, ucast (flags AND 0xf))"
  unfolding hw_segment_def segment_masks using segment_fields [OF assms refl] by simp

lemma segment_descriptor_roundtrip_example:
  "hw_segment (make_segment_descriptor 0 0xfffff KERNEL_CODE_ACCESS LONG_MODE_CODE_PAGING)
    = (0, 0xfffff, 0x9b, 0xa)"
  using segment_descriptor_roundtrip [of 0 "0xfffff" KERNEL_CODE_ACCESS LONG_MODE_CODE_PAGING]
  by (simp add: segment_macros)

text \<open>The rights of a descriptor: present, ring, code or data, 64-bit code.\<close>

definition hw_rights :: "u64 \<Rightarrow> bool \<times> u64 \<times> bool \<times> bool" where
  "hw_rights d = (bit d 47, drop_bit 45 d AND 3, bit d 43, bit d 53)"

text \<open>Every selector of the global table picks a descriptor with the rights its name says: the
  kernel segments are present in ring 0, the user segments in ring 3, the code segments are 64-bit
  code and the data segments are data; the null selector picks the null descriptor.\<close>

lemma selectors_pick_named_segments:
  "hw_rights (global_descriptor_table ! unat (drop_bit 3 (to_uint16_t
     \<lparr>requested_privilege_level = rpl, table_type = DT_global, gdt_segment = seg\<rparr>)))
   = (case seg of Seg_null \<Rightarrow> (False, 0, False, False)
      | Seg_kernel_code \<Rightarrow> (True, 0, True, True)
      | Seg_kernel_data \<Rightarrow> (True, 0, False, False)
      | Seg_user_code \<Rightarrow> (True, 3, True, True)
      | Seg_user_data \<Rightarrow> (True, 3, False, False))"
  by (cases rpl; cases seg;
      simp add: to_uint16_t_def global_descriptor_table_def make_segment_descriptor_def
        segment_macros hw_rights_def NULL_DESCRIPTOR_def bit_iff_odd_drop_bit)

lemma array_store_Some: "i < length xs \<Longrightarrow> array_store i v xs = Some (xs[i := v])"
  by (simp add: array_store_def)

lemma gate_base:
  assumes "index < num_gates" shows "unat (index * ucast gate_size) = 16 * unat index" "unat index < 256"
proof -
  show i: "unat index < 256" using assms by (simp add: num_gates_def word_less_nat_alt)
  then have "unat index * 16 < 2 ^ 16" by simp
  then show "unat (index * ucast gate_size) = 16 * unat index"
    by (simp add: gate_size_def unat_word_ariths)
qed

text \<open>The sixteen bytes of a gate.\<close>

definition gate_bytes :: "GateDescriptor \<Rightarrow> u8 list" where
  "gate_bytes g =
     (let a = interrupt_service_routine g; sel = to_uint16_t (selector g)
      in [ucast a, ucast (drop_bit 8 a), ucast sel, ucast (drop_bit 8 sel),
          interrupt_stack_table_offset g AND 7,
          word_of_int (GateType_value (gate_type g))
            OR push_bit 5 (word_of_int (PrivilegeLevel_value (required_privilege g))) OR push_bit 7 1,
          ucast (drop_bit 16 a), ucast (drop_bit 24 a), ucast (drop_bit 32 a), ucast (drop_bit 40 a),
          ucast (drop_bit 48 a), ucast (drop_bit 56 a), 0xca, 0xfe, 0xba, 0xbe])"

lemma load_gate_bytes:
  assumes "index < num_gates" and len: "length t = 4096"
  shows "\<exists>t'. load_gate_descriptor index g t = Some t' \<and> length t' = 4096 \<and>
    map (\<lambda>k. t' ! (16 * unat index + k)) [0..<16] = gate_bytes g \<and>
    (\<forall>j. j < 16 * unat index \<or> 16 * unat index + 16 \<le> j \<longrightarrow> t' ! j = t ! j)"
proof -
  note b = gate_base [OF assms(1)]
  define B where "B = 16 * unat index"
  have le: "B + 15 < 4096" using b(2) by (simp add: B_def)
  have "\<exists>t'. load_gate_descriptor index g t = Some t' \<and> length t' = 4096 \<and>
      map (\<lambda>k. t' ! (B + k)) [0..<16] = gate_bytes g \<and> (\<forall>j. j < B \<or> B + 16 \<le> j \<longrightarrow> t' ! j = t ! j)"
    unfolding load_gate_descriptor_def b(1) B_def [symmetric] Let_def
    using le len
    by (simp add: array_store_Some upt_rec gate_bytes_def Let_def nth_list_update)
  then show ?thesis by (simp add: B_def)
qed

text \<open>The gate the processor sees for a descriptor.\<close>

definition hw_gate_for :: "GateDescriptor \<Rightarrow> hw_gate" where
  "hw_gate_for g =
     \<lparr>hw_offset = interrupt_service_routine g, hw_selector = to_uint16_t (selector g),
      hw_ist = interrupt_stack_table_offset g AND 7,
      hw_type = word_of_int (GateType_value (gate_type g)),
      hw_dpl = word_of_int (PrivilegeLevel_value (required_privilege g)), hw_present = True\<rparr>"

lemma hw_gate_of_bytes: "hw_gate_of (gate_bytes g) = hw_gate_for g"
proof -
  have "hw_offset (hw_gate_of (gate_bytes g)) = interrupt_service_routine g"
    using le64_split [of "interrupt_service_routine g"]
    by (simp add: hw_gate_of_def gate_bytes_def Let_def)
  moreover have "hw_selector (hw_gate_of (gate_bytes g)) = to_uint16_t (selector g)"
    using le16_split [of "to_uint16_t (selector g)"] by (simp add: hw_gate_of_def gate_bytes_def Let_def)
  moreover have "hw_type (hw_gate_of (gate_bytes g)) = hw_type (hw_gate_for g)"
    "hw_dpl (hw_gate_of (gate_bytes g)) = hw_dpl (hw_gate_for g)" "hw_present (hw_gate_of (gate_bytes g))"
    by (cases "gate_type g"; cases "required_privilege g";
        simp add: hw_gate_of_def hw_gate_for_def gate_bytes_def Let_def bit_iff_odd_drop_bit)+
  moreover have "hw_ist (hw_gate_of (gate_bytes g)) = hw_ist (hw_gate_for g)"
    by (simp add: hw_gate_of_def hw_gate_for_def gate_bytes_def Let_def and.assoc)
  ultimately show ?thesis by (simp add: hw_gate_for_def)
qed

lemma load_gate_reads_back:
  assumes "index < num_gates" and "length t = 4096"
  shows "\<exists>t'. load_gate_descriptor index g t = Some t' \<and> length t' = 4096 \<and>
    (\<forall>i. hw_read_gate t' i = (if i = unat index then hw_gate_for g else hw_read_gate t i))"
proof -
  obtain t' where t': "load_gate_descriptor index g t = Some t'" "length t' = 4096"
      "map (\<lambda>k. t' ! (16 * unat index + k)) [0..<16] = gate_bytes g"
      "\<And>j. j < 16 * unat index \<or> 16 * unat index + 16 \<le> j \<Longrightarrow> t' ! j = t ! j"
    using load_gate_bytes [OF assms] by blast
  have "hw_read_gate t' i = hw_read_gate t i" if "i \<noteq> unat index" for i
  proof -
    have "t' ! (16 * i + k) = t ! (16 * i + k)" if "k < 16" for k
      using \<open>i \<noteq> unat index\<close> that by (intro t'(4)) arith
    then have "map (\<lambda>k. t' ! (16 * i + k)) [0..<16] = map (\<lambda>k. t ! (16 * i + k)) [0..<16]"
      by (intro map_cong) simp_all
    then show ?thesis unfolding hw_read_gate_def by (rule arg_cong)
  qed
  then show ?thesis using t' hw_gate_of_bytes by (auto simp: hw_read_gate_def)
qed

text \<open>C32. \<^verbatim>\<open>load_gate_descriptor\<close> stores within the table for each of its 256 indices, the processor
  reads back the handler address, selector, stack index, type and privilege it was given, marked
  present, and every other gate is as before.\<close>

theorem gate_descriptor_roundtrip:
  assumes "index < num_gates" and "length t = 4096"
  shows "\<exists>t'. load_gate_descriptor index g t = Some t' \<and> length t' = 4096 \<and>
    hw_read_gate t' (unat index) = hw_gate_for g \<and>
    (\<forall>i. i \<noteq> unat index \<longrightarrow> hw_read_gate t' i = hw_read_gate t i)"
  using load_gate_reads_back [OF assms, of g] by auto

definition example_gate :: GateDescriptor where
  "example_gate = \<lparr>interrupt_service_routine = 0xffffffff80001234,
     selector = \<lparr>requested_privilege_level = PL_kernel, table_type = DT_global, gdt_segment = Seg_kernel_code\<rparr>,
     interrupt_stack_table_offset = 9, gate_type = Gate_trap, required_privilege = PL_user\<rparr>"

theorem gate_descriptor_roundtrip_witness:
  "\<exists>t'. load_gate_descriptor 3 example_gate IDTStructure_init = Some t' \<and>
    hw_read_gate t' 3 = \<lparr>hw_offset = 0xffffffff80001234, hw_selector = 8, hw_ist = 1, hw_type = 15,
      hw_dpl = 3, hw_present = True\<rparr>"
proof -
  have "(3 :: u16) < num_gates" "length IDTStructure_init = 4096"
    by (simp_all add: num_gates_def IDTStructure_init_def IDTStructure_size_def gate_size_def)
  moreover have "hw_gate_for example_gate = \<lparr>hw_offset = 0xffffffff80001234, hw_selector = 8, hw_ist = 1,
      hw_type = 15, hw_dpl = 3, hw_present = True\<rparr>"
    by (simp add: hw_gate_for_def example_gate_def to_uint16_t_def)
  ultimately show ?thesis using gate_descriptor_roundtrip [of 3 IDTStructure_init example_gate] by auto
qed

end
