(* ===== verification/Kpp_Queue.thy ===== *)
theory Kpp_Queue
  imports Kernel_Prelude
begin

text \<open>
  The bounded FIFO queue \<^verbatim>\<open>kpp::CircularQueue\<close>: a ring of \<open>capacity\<close> slots. The locale
  \<open>bounded_queue\<close> is the contract its clients rely on; the ring is an interpretation of it.
\<close>

section \<open>Bounded queues\<close>

datatype 'a queue_op = Enqueue 'a | Dequeue

text \<open>The reference: a list of at most \<open>cap\<close> items; a full queue ignores an item, an empty one
  returns the default.\<close>

fun fifo_run :: "nat \<Rightarrow> 'a \<Rightarrow> 'a queue_op list \<Rightarrow> 'a list \<Rightarrow> 'a list \<times> 'a list" where
  "fifo_run cap d [] xs = ([], xs)"
| "fifo_run cap d (Enqueue x # ops) xs =
     fifo_run cap d ops (if length xs < cap then xs @ [x] else xs)"
| "fifo_run cap d (Dequeue # ops) xs =
     (let (outs, xs') = fifo_run cap d ops (tl xs)
      in ((case xs of [] \<Rightarrow> d | x # _ \<Rightarrow> x) # outs, xs'))"

fun queue_run :: "('a \<Rightarrow> 'q \<Rightarrow> 'q) \<Rightarrow> ('q \<Rightarrow> 'a \<times> 'q) \<Rightarrow> 'a queue_op list \<Rightarrow> 'q \<Rightarrow> 'a list \<times> 'q" where
  "queue_run enq deq [] q = ([], q)"
| "queue_run enq deq (Enqueue x # ops) q = queue_run enq deq ops (enq x q)"
| "queue_run enq deq (Dequeue # ops) q =
     (let (x, q1) = deq q; (outs, q2) = queue_run enq deq ops q1 in (x # outs, q2))"

locale bounded_queue =
  fixes enq :: "'a \<Rightarrow> 'q \<Rightarrow> 'q" and deq :: "'q \<Rightarrow> 'a \<times> 'q" and contents :: "'q \<Rightarrow> 'a list"
    and invar :: "'q \<Rightarrow> bool" and cap :: nat and default_item :: 'a
  assumes contents_enq:
      "invar q \<Longrightarrow> contents (enq x q) = (if length (contents q) < cap then contents q @ [x] else contents q)"
    and deq_item: "invar q \<Longrightarrow> fst (deq q) = (case contents q of [] \<Rightarrow> default_item | x # _ \<Rightarrow> x)"
    and contents_deq: "invar q \<Longrightarrow> contents (snd (deq q)) = tl (contents q)"
    and invar_enq: "invar q \<Longrightarrow> invar (enq x q)"
    and invar_deq: "invar q \<Longrightarrow> invar (snd (deq q))"
begin

lemma queue_run_refines:
  assumes "invar q"
  shows "fst (queue_run enq deq ops q) = fst (fifo_run cap default_item ops (contents q)) \<and>
    contents (snd (queue_run enq deq ops q)) = snd (fifo_run cap default_item ops (contents q)) \<and>
    invar (snd (queue_run enq deq ops q))"
  using assms
proof (induction ops arbitrary: q)
  case (Cons op ops)
  show ?case
  proof (cases op)
    case (Enqueue x)
    then show ?thesis
      using Cons.IH [OF invar_enq [OF Cons.prems]] contents_enq [OF Cons.prems] by simp
  next
    case Dequeue
    then show ?thesis
      using Cons.IH [OF invar_deq [OF Cons.prems]] contents_deq [OF Cons.prems] deq_item [OF Cons.prems]
      by (simp add: case_prod_unfold Let_def)
  qed
qed simp

end

section \<open>The ring\<close>

record 'a CircularQueue =
  m_data :: "'a list"
  m_front :: u64
  m_back :: u64
  m_qsize :: u64

text \<open>The array is not initialised: its contents are arbitrary.\<close>

definition CircularQueue_init :: "'a list \<Rightarrow> 'a CircularQueue" where
  "CircularQueue_init garbage = \<lparr>m_data = garbage, m_front = 0, m_back = 0, m_qsize = 0\<rparr>"

definition queue_isEmpty :: "'a CircularQueue \<Rightarrow> bool" where
  "queue_isEmpty q \<longleftrightarrow> m_qsize q = 0"

definition queue_isFull :: "u64 \<Rightarrow> 'a CircularQueue \<Rightarrow> bool" where
  "queue_isFull capacity q \<longleftrightarrow> m_qsize q = capacity"

definition queue_size :: "'a CircularQueue \<Rightarrow> u64" where
  "queue_size q = m_qsize q"

definition enqueue :: "u64 \<Rightarrow> 'a \<Rightarrow> 'a CircularQueue \<Rightarrow> 'a CircularQueue" where
  "enqueue capacity item q =
     (if queue_isFull capacity q then q
      else q\<lparr>m_data := (m_data q)[unat (m_back q) := item],
             m_back := (m_back q + 1) mod capacity,
             m_qsize := m_qsize q + 1\<rparr>)"

text \<open>\<open>default_item\<close> is the default-constructed \<^verbatim>\<open>T()\<close>.\<close>

definition dequeue :: "u64 \<Rightarrow> 'a \<Rightarrow> 'a CircularQueue \<Rightarrow> 'a \<times> 'a CircularQueue" where
  "dequeue capacity default_item q =
     (if queue_isEmpty q then (default_item, q)
      else (m_data q ! unat (m_front q),
            q\<lparr>m_front := (m_front q + 1) mod capacity, m_qsize := m_qsize q - 1\<rparr>))"

section \<open>Contents\<close>

definition queue_inv :: "u64 \<Rightarrow> 'a CircularQueue \<Rightarrow> bool" where
  "queue_inv capacity q \<longleftrightarrow> length (m_data q) = unat capacity \<and> m_front q < capacity \<and>
     m_qsize q \<le> capacity \<and>
     unat (m_back q) = (unat (m_front q) + unat (m_qsize q)) mod unat capacity"

definition queue_contents :: "u64 \<Rightarrow> 'a CircularQueue \<Rightarrow> 'a list" where
  "queue_contents capacity q =
     map (\<lambda>k. m_data q ! ((unat (m_front q) + k) mod unat capacity)) [0..<unat (m_qsize q)]"

lemma length_queue_contents [simp]: "length (queue_contents c q) = unat (m_qsize q)"
  by (simp add: queue_contents_def)

lemma unat_succ_mod:
  fixes a c :: u64 assumes "a < c" shows "unat ((a + 1) mod c) = (unat a + 1) mod unat c"
proof -
  have "unat a < unat c" using assms by (simp add: word_less_nat_alt)
  then have "unat (a + 1) = unat a + 1"
    using unat_add_no_wrap [of a 1] unat_less_2p [of c] by simp
  then show ?thesis by (simp add: unat_mod)
qed

lemma unat_size_succ:
  fixes n c :: u64 assumes "n \<le> c" "n \<noteq> c"
  shows "unat n < unat c" "unat (n + 1) = Suc (unat n)"
proof -
  have "n < c" using assms by simp
  then show l: "unat n < unat c" by (simp add: word_less_nat_alt)
  then show "unat (n + 1) = Suc (unat n)"
    using unat_add_no_wrap [of n 1] unat_less_2p [of c] by simp
qed

lemma queue_enqueue:
  assumes inv: "queue_inv c q" and nf: "\<not> queue_isFull c q"
  shows "queue_contents c (enqueue c x q) = queue_contents c q @ [x]" and "queue_inv c (enqueue c x q)"
proof -
  have q: "length (m_data q) = unat c" "m_front q < c" "m_qsize q \<le> c" "m_qsize q \<noteq> c"
    "unat (m_back q) = (unat (m_front q) + unat (m_qsize q)) mod unat c"
    using inv nf by (simp_all add: queue_inv_def queue_isFull_def)
  note n = unat_size_succ [OF q(3,4)]
  have bk: "m_back q < c"
    using q(5) n by (simp add: word_less_nat_alt)
  have other: "(unat (m_front q) + k) mod unat c \<noteq> unat (m_back q)" if "k < unat (m_qsize q)" for k
    using ring_slot_inj [of "unat (m_front q)" k "unat c" "unat (m_qsize q)"] that n q(5) by auto
  have kept: "(m_data q)[unat (m_back q) := x] ! ((unat (m_front q) + k) mod unat c)
      = m_data q ! ((unat (m_front q) + k) mod unat c)" if "k < unat (m_qsize q)" for k
    using other [OF that] by simp
  have put: "(m_data q)[unat (m_back q) := x] ! ((unat (m_front q) + unat (m_qsize q)) mod unat c) = x"
    using q(1,5) bk by (simp add: word_less_nat_alt)
  show "queue_contents c (enqueue c x q) = queue_contents c q @ [x]"
    using nf kept put by (simp add: queue_contents_def enqueue_def n(2))
  have "(unat (m_back q) + 1) mod unat c = (unat (m_front q) + (unat (m_qsize q) + 1)) mod unat c"
    unfolding q(5) by (simp add: mod_Suc_eq)
  then show "queue_inv c (enqueue c x q)"
    using nf q n unat_succ_mod [OF bk] by (simp add: queue_inv_def enqueue_def word_le_nat_alt)
qed

lemma queue_dequeue:
  assumes inv: "queue_inv c q" and ne: "\<not> queue_isEmpty q"
  shows "queue_contents c q = fst (dequeue c d q) # queue_contents c (snd (dequeue c d q))"
    and "queue_inv c (snd (dequeue c d q))"
proof -
  have q: "length (m_data q) = unat c" "m_front q < c" "m_qsize q \<le> c" "m_qsize q \<noteq> 0"
    "unat (m_back q) = (unat (m_front q) + unat (m_qsize q)) mod unat c"
    using inv ne by (simp_all add: queue_inv_def queue_isEmpty_def)
  have s: "unat (m_qsize q) = Suc (unat (m_qsize q - 1))"
    using q(4) by (metis Suc_pred' unat_gt_0 unat_minus_one)
  have f: "unat (m_front q) < unat c" using q(2) by (simp add: word_less_nat_alt)
  have next_slot: "((unat (m_front q) + 1) mod unat c + k) mod unat c = (unat (m_front q) + Suc k) mod unat c" for k
    by (simp add: mod_add_left_eq)
  show "queue_contents c q = fst (dequeue c d q) # queue_contents c (snd (dequeue c d q))"
    unfolding queue_contents_def dequeue_def s
    using ne f next_slot unat_succ_mod [OF q(2)]
    by (simp add: upt_conv_Cons map_Suc_upt [symmetric] del: upt_Suc map_Suc_upt)
  have "(unat (m_front q) + 1) mod unat c < unat c" using f by simp
  moreover have "unat (m_qsize q - 1) \<le> unat c" using s q(3) by (simp add: word_le_nat_alt)
  ultimately show "queue_inv c (snd (dequeue c d q))"
    using ne q s next_slot [of "unat (m_qsize q - 1)"] unat_succ_mod [OF q(2)]
    by (simp add: queue_inv_def dequeue_def word_less_nat_alt word_le_nat_alt)
qed

interpretation ring: bounded_queue "enqueue c" "dequeue c d" "queue_contents c" "queue_inv c" "unat c" d
  for c :: u64 and d
proof
  fix q :: "'a CircularQueue" and x :: 'a
  assume inv: "queue_inv c q"
  have full: "unat (m_qsize q) < unat c \<longleftrightarrow> \<not> queue_isFull c q"
    using inv unat_size_succ(1) [of "m_qsize q" c] by (auto simp: queue_inv_def queue_isFull_def)
  show "queue_contents c (enqueue c x q) =
      (if length (queue_contents c q) < unat c then queue_contents c q @ [x] else queue_contents c q)"
    using queue_enqueue(1) [OF inv] full by (auto simp: enqueue_def)
  show "queue_inv c (enqueue c x q)"
    using queue_enqueue(2) [OF inv] inv by (cases "queue_isFull c q") (simp_all add: enqueue_def)
  have empty: "queue_isEmpty q \<longleftrightarrow> queue_contents c q = []"
    by (simp add: queue_isEmpty_def queue_contents_def unat_eq_0)
  show "fst (dequeue c d q) = (case queue_contents c q of [] \<Rightarrow> d | x # _ \<Rightarrow> x)"
  proof (cases "queue_isEmpty q")
    case True
    then show ?thesis using empty by (simp add: dequeue_def)
  next
    case False
    then show ?thesis by (simp add: queue_dequeue(1) [OF inv False, of d])
  qed
  show "queue_contents c (snd (dequeue c d q)) = tl (queue_contents c q)"
  proof (cases "queue_isEmpty q")
    case True
    then show ?thesis using empty by (simp add: dequeue_def)
  next
    case False
    then show ?thesis by (simp add: queue_dequeue(1) [OF inv False, of d])
  qed
  show "queue_inv c (snd (dequeue c d q))"
    using queue_dequeue(2) [OF inv] inv by (cases "queue_isEmpty q") (simp_all add: dequeue_def)
qed

text \<open>C16. \<^verbatim>\<open>kpp::CircularQueue\<close> is a FIFO queue: whatever sequence of \<^verbatim>\<open>enqueue\<close> and \<^verbatim>\<open>dequeue\<close> calls
  is made on a new queue, and whatever its uninitialised array held, the items that come out are
  those of a list of at most \<open>capacity\<close> items, where an item put into a full queue is dropped and an
  empty queue gives the default item.\<close>

theorem circular_queue_refines_fifo:
  fixes c :: u64
  assumes "length garbage = unat c" and "0 < c"
  shows "fst (queue_run (enqueue c) (dequeue c d) ops (CircularQueue_init garbage))
    = fst (fifo_run (unat c) d ops [])"
proof -
  have "queue_inv c (CircularQueue_init garbage)" "queue_contents c (CircularQueue_init garbage) = []"
    using assms by (simp_all add: queue_inv_def CircularQueue_init_def queue_contents_def)
  then show ?thesis using ring.queue_run_refines [of c "CircularQueue_init garbage" d ops] by simp
qed

theorem circular_queue_refines_fifo_witness:
  "fst (queue_run (enqueue 2) (dequeue 2 0) [Enqueue 5, Enqueue 6, Enqueue 7, Dequeue, Dequeue, Dequeue]
     (CircularQueue_init [1, 1])) = [5, 6, 0 :: nat]"
  using circular_queue_refines_fifo [of "[1, 1 :: nat]" 2 0
    "[Enqueue 5, Enqueue 6, Enqueue 7, Dequeue, Dequeue, Dequeue]"] by simp

end
