(* ===== verification/Line_Buffer.thy ===== *)
theory Line_Buffer
  imports Machine
begin

text \<open>
  The text of the terminal, \<^verbatim>\<open>Terminal::LineBuffer\<close> (\<^verbatim>\<open>Terminal.hpp\<close>, \<^verbatim>\<open>Terminal.cpp\<close>): a ring of 256
  lines of 200 characters. The array of lines has no initialiser, so its first contents are the
  argument \<open>garbage\<close> of \<open>LineBuffer_init\<close>. A character is its byte.

  The column of a store is below the length of a line in every state that satisfies \<open>lb_inv\<close>
  (\<open>lb_write_column\<close>), and every operation keeps \<open>lb_inv\<close>: the unchecked index of the code is in
  range wherever \<open>lb_write\<close> is used.
\<close>

section \<open>Data and operations\<close>

datatype ScrollMode = automatic | manual

definition s_maxColumns :: u64 where "s_maxColumns = 200"
definition s_maxLines :: u64 where "s_maxLines = 256"

record LineBuffer =
  lb_lineSize :: u64
  lb_visibleLines :: u64
  lb_lines :: "u8 list list"
  lb_front :: u64
  lb_size :: u64
  lb_firstVisibleLine :: u64
  lb_currentColumn :: u64

definition LineBuffer_init :: "u8 list list \<Rightarrow> LineBuffer" where
  "LineBuffer_init garbage =
     \<lparr>lb_lineSize = s_maxColumns, lb_visibleLines = 24, lb_lines = garbage, lb_front = 0, lb_size = 1,
      lb_firstVisibleLine = 0, lb_currentColumn = 0\<rparr>"

record WriteResult =
  lineWrapped :: bool
  needsViewportRedraw :: bool

definition setLineSize :: "u64 \<Rightarrow> LineBuffer \<Rightarrow> LineBuffer" where
  "setLineSize lineSize lb = lb\<lparr>lb_lineSize := min lineSize s_maxColumns\<rparr>"

definition setNumVisibleLines :: "u64 \<Rightarrow> LineBuffer \<Rightarrow> LineBuffer" where
  "setNumVisibleLines numVisibleLines lb = lb\<lparr>lb_visibleLines := min numVisibleLines s_maxLines\<rparr>"

definition kpp_abs :: "int \<Rightarrow> int" where
  "kpp_abs value = (if value < 0 then - value else value)"

definition lb_scrollDown :: "int \<Rightarrow> LineBuffer \<Rightarrow> LineBuffer" where
  "lb_scrollDown lines lb =
     (if lines \<ge> 0
      then lb\<lparr>lb_firstVisibleLine := min (lb_size lb - 1) (lb_firstVisibleLine lb + word_of_int lines)\<rparr>
      else lb\<lparr>lb_firstVisibleLine :=
        (if word_of_int (kpp_abs lines) > lb_firstVisibleLine lb then 0
         else lb_firstVisibleLine lb - word_of_int (kpp_abs lines))\<rparr>)"

text \<open>The part of \<^verbatim>\<open>LineBuffer::write\<close> that starts a new line.\<close>

definition lb_new_line :: "ScrollMode \<Rightarrow> LineBuffer \<Rightarrow> LineBuffer" where
  "lb_new_line scrollMode lb =
     (let lb = (if lb_size lb \<ge> s_maxLines
                then let lb = lb\<lparr>lb_front := (lb_front lb + 1) mod s_maxLines\<rparr>
                     in (if lb_firstVisibleLine lb = lb_front lb
                         then lb\<lparr>lb_firstVisibleLine := (lb_firstVisibleLine lb + 1) mod s_maxLines\<rparr>
                         else lb)
                else lb\<lparr>lb_size := lb_size lb + 1\<rparr>);
          lb = (if scrollMode = automatic
                then lb\<lparr>lb_firstVisibleLine := max (lb_firstVisibleLine lb)
                       (if lb_size lb > lb_visibleLines lb then lb_size lb - lb_visibleLines lb else 0)\<rparr>
                else lb)
      in lb\<lparr>lb_currentColumn := 0\<rparr>)"

definition lb_wraps :: "u8 \<Rightarrow> LineBuffer \<Rightarrow> bool" where
  "lb_wraps character lb \<longleftrightarrow> lb_currentColumn lb \<ge> lb_lineSize lb \<or> character = 10"

definition lb_put :: "u8 \<Rightarrow> LineBuffer \<Rightarrow> LineBuffer" where
  "lb_put character lb =
     (let slot = unat ((lb_front lb + lb_size lb - 1) mod s_maxLines)
      in if character \<noteq> 10
         then lb\<lparr>lb_lines := (lb_lines lb)[slot := (lb_lines lb ! slot)[unat (lb_currentColumn lb) := character]],
                 lb_currentColumn := lb_currentColumn lb + 1\<rparr>
         else lb)"

definition lb_write :: "u8 \<Rightarrow> ScrollMode \<Rightarrow> LineBuffer \<Rightarrow> WriteResult \<times> LineBuffer" where
  "lb_write character scrollMode lb =
     (let lineWrap = lb_wraps character lb;
          oldFirstVisibleLine = lb_firstVisibleLine lb;
          lb = (if lineWrap then lb_new_line scrollMode lb else lb);
          lb = lb_put character lb
      in (\<lparr>lineWrapped = lineWrap,
           needsViewportRedraw = (lb_firstVisibleLine lb \<noteq> oldFirstVisibleLine)\<rparr>, lb))"

definition firstVisibleLineIndex :: "LineBuffer \<Rightarrow> u64" where
  "firstVisibleLineIndex lb =
     (if lb_firstVisibleLine lb < lb_front lb
      then lb_firstVisibleLine lb + (s_maxLines - lb_front lb - 1)
      else lb_firstVisibleLine lb - lb_front lb)"

definition lastVisibleLineIndex :: "LineBuffer \<Rightarrow> u64" where
  "lastVisibleLineIndex lb =
     min (lb_size lb - 1) (firstVisibleLineIndex lb + lb_visibleLines lb - 1)"

definition getLine :: "u64 \<Rightarrow> LineBuffer \<Rightarrow> u8 list" where
  "getLine index lb = lb_lines lb ! unat ((lb_front lb + index) mod s_maxLines)"

text \<open>\<^verbatim>\<open>m_lineBuffer[m_front] = {}\<close> clears one line only.\<close>

definition lb_clear :: "LineBuffer \<Rightarrow> LineBuffer" where
  "lb_clear lb =
     (let lb = lb\<lparr>lb_front := 0, lb_size := 1, lb_firstVisibleLine := 0, lb_currentColumn := 0\<rparr>
      in lb\<lparr>lb_lines := (lb_lines lb)[unat (lb_front lb) := replicate (unat s_maxColumns) 0]\<rparr>)"

section \<open>The invariant\<close>

definition lb_inv :: "LineBuffer \<Rightarrow> bool" where
  "lb_inv lb \<longleftrightarrow> length (lb_lines lb) = 256 \<and> list_all (\<lambda>l. length l = 200) (lb_lines lb) \<and>
     unat (lb_front lb) < 256 \<and> 1 \<le> unat (lb_size lb) \<and> unat (lb_size lb) \<le> 256 \<and>
     unat (lb_lineSize lb) \<le> 200 \<and> unat (lb_visibleLines lb) \<le> 256 \<and>
     unat (lb_currentColumn lb) \<le> 200 \<and> unat (lb_firstVisibleLine lb) \<le> 256"

lemma lb_fields [simp]:
  "lb_lineSize (lb_put c lb) = lb_lineSize lb" "lb_visibleLines (lb_put c lb) = lb_visibleLines lb"
  "lb_front (lb_put c lb) = lb_front lb" "lb_size (lb_put c lb) = lb_size lb"
  "lb_firstVisibleLine (lb_put c lb) = lb_firstVisibleLine lb"
  "lb_lineSize (lb_new_line m lb) = lb_lineSize lb"
  "lb_visibleLines (lb_new_line m lb) = lb_visibleLines lb"
  "lb_lines (lb_new_line m lb) = lb_lines lb" "lb_currentColumn (lb_new_line m lb) = 0"
  by (simp_all add: lb_put_def lb_new_line_def Let_def)

lemma unat_mod_256: "unat ((a :: u64) mod 256) = unat a mod 256"
  by (simp add: unat_mod)

lemma lb_new_line_front:
  "lb_front (lb_new_line m lb) = (if lb_size lb \<ge> 256 then (lb_front lb + 1) mod 256 else lb_front lb)"
  "lb_size (lb_new_line m lb) = (if lb_size lb \<ge> 256 then lb_size lb else lb_size lb + 1)"
  by (simp_all add: lb_new_line_def Let_def s_maxLines_def)

lemma unat_Suc_small:
  fixes x :: u64 assumes "unat x < 1000" shows "unat (x + 1) = Suc (unat x)"
  using assms unat_add_no_wrap [of x 1] by simp

lemma lines_update:
  assumes "list_all P ls" and "P v" shows "list_all P (ls[k := v])"
  using assms set_update_subset_insert [of ls k v] by (auto simp: list_all_iff)

lemma lb_new_line_first:
  "lb_firstVisibleLine (lb_new_line m lb) =
     (let first = (if lb_size lb \<ge> 256 \<and> lb_firstVisibleLine lb = lb_front (lb_new_line m lb)
                   then (lb_firstVisibleLine lb + 1) mod 256 else lb_firstVisibleLine lb);
          sz = lb_size (lb_new_line m lb)
      in if m = automatic then max first (if sz > lb_visibleLines lb then sz - lb_visibleLines lb else 0)
         else first)"
  unfolding lb_new_line_front by (simp add: lb_new_line_def Let_def s_maxLines_def)

lemma lb_new_line_inv:
  assumes inv: "lb_inv lb" shows "lb_inv (lb_new_line m lb)"
proof -
  have sz: "lb_size lb \<ge> 256 \<longleftrightarrow> unat (lb_size lb) = 256"
    using inv by (auto simp: lb_inv_def word_le_nat_alt)
  have mod: "unat ((x :: u64) mod 256) < 256" for x by (simp add: unat_mod)
  have s: "unat (lb_size (lb_new_line m lb)) \<le> 256" "1 \<le> unat (lb_size (lb_new_line m lb))"
    using inv sz unat_Suc_small [of "lb_size lb"] by (auto simp: lb_new_line_front lb_inv_def)
  have max: "unat (max a b) \<le> 256" if "unat a \<le> 256" "unat b \<le> 256" for a b :: u64
    using that by (simp add: max_def)
  have sub: "unat ((if a > b then a - b else 0) :: u64) \<le> 256" if "unat a \<le> 256" for a b :: u64
    using that by (auto simp: unat_sub_if' word_less_nat_alt)
  have "unat (if P then (lb_firstVisibleLine lb + 1) mod 256 else lb_firstVisibleLine lb) \<le> 256" for P
    using inv mod [of "lb_firstVisibleLine lb + 1"] by (auto simp: lb_inv_def less_imp_le)
  then have "unat (lb_firstVisibleLine (lb_new_line m lb)) \<le> 256"
    unfolding lb_new_line_first Let_def
    using max [OF _ sub [OF s(1)]] by (cases "m = automatic") (simp_all only: if_True if_False simp_thms)
  then show ?thesis using inv s mod by (auto simp: lb_inv_def lb_new_line_front)
qed

text \<open>The column of a store is in range.\<close>

lemma lb_write_column:
  assumes "lb_inv lb"
  shows "unat (lb_currentColumn (if lb_wraps c lb then lb_new_line m lb else lb)) < 200"
  using assms by (auto simp: lb_wraps_def lb_inv_def word_le_nat_alt)

lemma lb_put_inv:
  assumes inv: "lb_inv lb" and col: "unat (lb_currentColumn lb) < 200" shows "lb_inv (lb_put c lb)"
proof -
  have "unat (lb_currentColumn lb + 1) \<le> 200" using col unat_Suc_small [of "lb_currentColumn lb"] by simp
  moreover have "list_all (\<lambda>l. length l = 200) ((lb_lines lb)[k := (lb_lines lb ! k)[j := c]])" if "k < 256" for k j
    using inv that by (intro lines_update) (auto simp: lb_inv_def list_all_length)
  moreover have "unat ((x :: u64) mod 256) < 256" for x by (simp add: unat_mod)
  ultimately show ?thesis
    using inv by (simp add: lb_inv_def lb_put_def s_maxLines_def Let_def)
qed

lemma lb_write_inv: "lb_inv lb \<Longrightarrow> lb_inv (snd (lb_write c m lb))"
  using lb_put_inv lb_new_line_inv lb_write_column [of lb c m] by (simp add: lb_write_def Let_def)

lemma lb_scrollDown_inv: "lb_inv lb \<Longrightarrow> lb_inv (lb_scrollDown n lb)"
proof -
  assume inv: "lb_inv lb"
  have "lb_size lb \<noteq> 0" using inv by (auto simp: lb_inv_def)
  then have "unat (lb_size lb - 1) \<le> 256" using inv by (auto simp: unat_minus_one lb_inv_def)
  then have "unat (min (lb_size lb - 1) x) \<le> 256" for x
    by (auto simp: min_def word_le_nat_alt)
  moreover have "unat (a - b) \<le> 256" if "unat a \<le> 256" "\<not> b > a" for a b :: u64
    using that by (simp add: unat_sub word_less_nat_alt word_le_nat_alt not_less)
  ultimately show ?thesis using inv by (simp add: lb_inv_def lb_scrollDown_def)
qed

lemma lb_clear_inv: "lb_inv lb \<Longrightarrow> lb_inv (lb_clear lb)"
  by (simp add: lb_inv_def lb_clear_def s_maxColumns_def lines_update)

section \<open>Every operation\<close>

datatype line_op = LineSize u64 | VisibleLines u64 | Scroll int | Put u8 ScrollMode | ClearLines

fun line_step :: "line_op \<Rightarrow> LineBuffer \<Rightarrow> LineBuffer" where
  "line_step (LineSize n) lb = setLineSize n lb"
| "line_step (VisibleLines n) lb = setNumVisibleLines n lb"
| "line_step (Scroll n) lb = lb_scrollDown n lb"
| "line_step (Put c m) lb = snd (lb_write c m lb)"
| "line_step ClearLines lb = lb_clear lb"

lemma line_step_inv: "lb_inv lb \<Longrightarrow> lb_inv (line_step x lb)"
proof (cases x)
  case (LineSize n)
  then show "lb_inv lb \<Longrightarrow> ?thesis"
    by (auto simp: lb_inv_def setLineSize_def s_maxColumns_def min_def word_le_nat_alt)
next
  case (VisibleLines n)
  then show "lb_inv lb \<Longrightarrow> ?thesis"
    by (auto simp: lb_inv_def setNumVisibleLines_def s_maxLines_def min_def word_le_nat_alt)
qed (simp_all add: lb_scrollDown_inv lb_write_inv lb_clear_inv)

lemma fold_line_step_inv: "lb_inv lb \<Longrightarrow> lb_inv (fold line_step ops lb)"
  by (induction ops arbitrary: lb) (simp_all add: line_step_inv)

text \<open>C24. Whatever operations are performed on a line buffer, whatever its characters were, its indices stay
  inside its arrays: it has 256 lines of 200 characters, \<^verbatim>\<open>getLine\<close> reads one of them for every index, and the
  next character is stored in a line and a column that exist.\<close>

theorem line_buffer_indices_valid:
  fixes ops :: "line_op list"
  assumes "length garbage = 256" "list_all (\<lambda>l. length l = 200) garbage"
  defines "lb \<equiv> fold line_step ops (LineBuffer_init garbage)"
  shows "length (lb_lines lb) = 256 \<and> (\<forall>i. getLine i lb \<in> set (lb_lines lb) \<and> length (getLine i lb) = 200) \<and>
    (\<forall>c m. let lb' = (if lb_wraps c lb then lb_new_line m lb else lb)
      in unat ((lb_front lb' + lb_size lb' - 1) mod s_maxLines) < 256 \<and> unat (lb_currentColumn lb') < 200)"
proof -
  have "lb_inv (LineBuffer_init garbage)"
    using assms(1,2) by (simp add: lb_inv_def LineBuffer_init_def s_maxColumns_def)
  then have inv: "lb_inv lb" unfolding lb_def by (rule fold_line_step_inv)
  then have l: "length (lb_lines lb) = 256" "list_all (\<lambda>l. length l = 200) (lb_lines lb)" by (simp_all add: lb_inv_def)
  have "getLine i lb \<in> set (lb_lines lb)" for i
    using l(1) by (simp add: getLine_def s_maxLines_def unat_mod_256)
  then show ?thesis
    using l lb_write_column [OF inv] by (auto simp: Let_def s_maxLines_def unat_mod_256 list_all_iff)
qed

theorem line_buffer_indices_valid_witness:
  "length (getLine 3 (fold line_step [LineSize 500, Put 65 automatic, Scroll (- 7), Put 10 manual, ClearLines]
     (LineBuffer_init (replicate 256 (replicate 200 7))))) = 200"
  using line_buffer_indices_valid [of "replicate 256 (replicate 200 7)"
      "[LineSize 500, Put 65 automatic, Scroll (- 7), Put 10 manual, ClearLines]"]
  by (simp only: length_replicate list_all_iff set_replicate_conv_if) auto

section \<open>The text it holds\<close>

text \<open>The reference: the lines of all the characters written so far, broken at \<open>w\<close> columns and at
  newlines, without a bound on their number.\<close>

definition line_break :: "nat \<Rightarrow> u8 \<Rightarrow> u8 list list \<Rightarrow> u8 list list" where
  "line_break w c ls =
     (let ls = (if w \<le> length (last ls) \<or> c = 10 then ls @ [[]] else ls)
      in if c = 10 then ls else butlast ls @ [last ls @ [c]])"

definition kept_lines :: "u8 list list \<Rightarrow> u8 list list" where
  "kept_lines ls = drop (length ls - 256) ls"

text \<open>The buffer holds the last 256 lines of a text: each line of the ring begins with the line of the
  text, and the next character goes behind the last one.\<close>

definition holds_text :: "LineBuffer \<Rightarrow> u8 list list \<Rightarrow> bool" where
  "holds_text lb ls \<longleftrightarrow> ls \<noteq> [] \<and> unat (lb_size lb) = length (kept_lines ls) \<and>
     unat (lb_currentColumn lb) = length (last ls) \<and>
     (\<forall>i < length (kept_lines ls).
        take (length (kept_lines ls ! i)) (getLine (of_nat i) lb) = kept_lines ls ! i)"

lemma length_kept_lines [simp]: "length (kept_lines ls) = min 256 (length ls)"
  by (simp add: kept_lines_def)

lemma kept_lines_snoc:
  "kept_lines (ls @ [x]) = (if length ls < 256 then kept_lines ls else tl (kept_lines ls)) @ [x]"
proof (cases "length ls < 256")
  case False
  then have "Suc (length ls - 256) = length ls - 255" by simp
  then have "tl (drop (length ls - 256) ls) = drop (length ls - 255) ls"
    by (metis drop_Suc tl_drop)
  then show ?thesis using False by (simp add: kept_lines_def)
qed (simp add: kept_lines_def)

lemma getLine_slot:
  assumes "lb_inv lb" and "i < 256"
  shows "getLine (of_nat i) lb = lb_lines lb ! ((unat (lb_front lb) + i) mod 256)"
proof -
  have "unat (of_nat i :: u64) = i" using assms(2) by (intro unat_of_nat_small) simp
  then have "unat (lb_front lb + of_nat i) = unat (lb_front lb) + i"
    using assms unat_add_no_wrap [of "lb_front lb" "of_nat i"] by (simp add: lb_inv_def)
  then show ?thesis by (simp add: getLine_def s_maxLines_def unat_mod)
qed

lemma getLine_new_line:
  assumes inv: "lb_inv lb" and "i < 256" and "unat (lb_size lb) = 256 \<Longrightarrow> i < 255"
  shows "getLine (of_nat i) (lb_new_line m lb)
    = getLine (of_nat (if unat (lb_size lb) = 256 then Suc i else i)) lb"
proof -
  have full: "lb_size lb \<ge> 256 \<longleftrightarrow> unat (lb_size lb) = 256"
    using inv by (auto simp: lb_inv_def word_le_nat_alt)
  have "unat (lb_front lb + 1) = Suc (unat (lb_front lb))"
    using inv by (intro unat_Suc_small) (simp add: lb_inv_def)
  moreover have "(Suc f mod 256 + i) mod 256 = Suc (f + i) mod 256" for f :: nat
    by (simp add: mod_add_left_eq)
  ultimately show ?thesis
    using assms full by (simp add: getLine_slot lb_new_line_inv lb_new_line_front unat_mod)
qed

lemma new_line_holds_text:
  assumes inv: "lb_inv lb" and t: "holds_text lb ls"
  shows "holds_text (lb_new_line m lb) (ls @ [[]])"
proof -
  have sz: "unat (lb_size lb) = min 256 (length ls)" using t by (simp add: holds_text_def)
  have full: "lb_size lb \<ge> 256 \<longleftrightarrow> 256 \<le> length ls"
    using sz by (auto simp: word_le_nat_alt)
  have "unat (lb_size (lb_new_line m lb)) = min 256 (Suc (length ls))"
    using full sz unat_Suc_small [of "lb_size lb"] by (auto simp: lb_new_line_front)
  moreover have "take (length (kept_lines (ls @ [[]]) ! i)) (getLine (of_nat i) (lb_new_line m lb))
      = kept_lines (ls @ [[]]) ! i" if i: "i < min 256 (Suc (length ls))" for i
  proof (cases "i < length (kept_lines (ls @ [[]])) - 1")
    case True
    let ?j = "if unat (lb_size lb) = 256 then Suc i else i"
    have lt: "Suc i < min 256 (Suc (length ls))" using True by simp
    then have "?j < length (kept_lines ls)" using sz by auto
    moreover have "kept_lines (ls @ [[]]) ! i = kept_lines ls ! ?j"
      using lt sz by (auto simp: kept_lines_snoc nth_append nth_tl min_def split: if_splits)
    moreover have "getLine (of_nat i) (lb_new_line m lb) = getLine (of_nat ?j) lb"
      using lt by (intro getLine_new_line [OF inv]) auto
    ultimately show ?thesis using t by (simp add: holds_text_def)
  next
    case False
    then have "kept_lines (ls @ [[]]) ! i = []"
      using i by (auto simp: kept_lines_snoc nth_append)
    then show ?thesis by simp
  qed
  ultimately show ?thesis by (simp add: holds_text_def)
qed

lemma kept_lines_butlast:
  assumes "ls \<noteq> []" shows "kept_lines (butlast ls @ [x]) = butlast (kept_lines ls) @ [x]"
    and "last (kept_lines ls) = last ls" and "kept_lines ls \<noteq> []"
  using assms by (cases ls rule: rev_cases; simp add: kept_lines_snoc last_append)+

lemma getLine_put:
  assumes inv: "lb_inv lb" and "c \<noteq> 10" and "i < unat (lb_size lb)"
  shows "getLine (of_nat i) (lb_put c lb) =
    (if Suc i = unat (lb_size lb) then (getLine (of_nat i) lb)[unat (lb_currentColumn lb) := c]
     else getLine (of_nat i) lb)"
proof -
  let ?f = "unat (lb_front lb)" and ?n = "unat (lb_size lb)"
  have n: "1 \<le> ?n" "?n \<le> 256" "?f < 256" using inv by (auto simp: lb_inv_def)
  have "unat (lb_front lb + lb_size lb) = ?f + ?n" using n by (intro unat_add_no_wrap) simp
  moreover from this have "lb_front lb + lb_size lb \<noteq> 0" using n by (metis add_is_0 not_one_le_zero unat_0)
  ultimately have "unat ((lb_front lb + lb_size lb - 1) mod 256) = (?f + (?n - 1)) mod 256"
    using n by (simp add: unat_mod unat_minus_one)
  moreover have "(?f + i) mod 256 = (?f + (?n - 1)) mod 256 \<longleftrightarrow> Suc i = ?n"
  proof
    assume "(?f + i) mod 256 = (?f + (?n - 1)) mod 256"
    then have "i = ?n - 1" using assms(3) n by (intro ring_slot_inj [of ?f i 256 "?n - 1"]) auto
    then show "Suc i = ?n" using n by simp
  next
    assume "Suc i = ?n"
    then have "i = ?n - 1" by simp
    then show "(?f + i) mod 256 = (?f + (?n - 1)) mod 256" by simp
  qed
  moreover have "getLine (of_nat i) (lb_put c lb) = lb_lines (lb_put c lb) ! ((?f + i) mod 256)"
  proof -
    have "unat (of_nat i :: u64) = i" using assms(3) n by (intro unat_of_nat_small) simp
    then have "unat (lb_front lb + of_nat i) = ?f + i"
      using assms(3) n unat_add_no_wrap [of "lb_front lb" "of_nat i"] by simp
    then show ?thesis by (simp add: getLine_def s_maxLines_def unat_mod)
  qed
  ultimately show ?thesis
    using assms n getLine_slot [OF inv, of i]
    by (auto simp: lb_put_def s_maxLines_def Let_def nth_list_update lb_inv_def)
qed

lemma put_holds_text:
  assumes inv: "lb_inv lb" and t: "holds_text lb ls" and c: "c \<noteq> 10"
    and col: "unat (lb_currentColumn lb) < 200"
  shows "holds_text (lb_put c lb) (butlast ls @ [last ls @ [c]])"
proof -
  note ne = t [unfolded holds_text_def, THEN conjunct1]
  note k = kept_lines_butlast [OF ne]
  have sz: "unat (lb_size lb) = length (kept_lines ls)" "unat (lb_currentColumn lb) = length (last ls)"
    using t by (simp_all add: holds_text_def)
  let ?ls = "butlast ls @ [last ls @ [c]]"
  have len: "length (kept_lines ?ls) = length (kept_lines ls)" using ne by simp
  have "take (length (kept_lines ?ls ! i)) (getLine (of_nat i) (lb_put c lb)) = kept_lines ?ls ! i"
    if i: "i < length (kept_lines ls)" for i
  proof (cases "Suc i = length (kept_lines ls)")
    case True
    have "length (butlast (kept_lines ls)) = i" using True by simp
    then have "kept_lines ?ls ! i = last ls @ [c]"
      unfolding k(1) by (metis nth_append_length)
    moreover have "kept_lines ls ! i = last ls"
      using True k(2,3) by (metis diff_Suc_1 last_conv_nth)
    then have "take (length (last ls)) (getLine (of_nat i) lb) = last ls"
      using t i unfolding holds_text_def by metis
    moreover have "length (getLine (of_nat i) lb) = 200"
      using inv i getLine_slot [OF inv, of i] by (auto simp: lb_inv_def list_all_length)
    ultimately show ?thesis
      using True i sz col by (simp add: getLine_put [OF inv c] take_Suc_conv_app_nth)
  next
    case False
    then have "i < length (butlast (kept_lines ls))" using i by (simp only: length_butlast)
    then have "kept_lines ?ls ! i = kept_lines ls ! i"
      unfolding k(1) by (simp only: nth_append nth_butlast if_True)
    then show ?thesis using False i t sz by (simp add: getLine_put [OF inv c] holds_text_def)
  qed
  moreover have "unat (lb_currentColumn (lb_put c lb)) = Suc (unat (lb_currentColumn lb))"
    using c col by (simp add: lb_put_def Let_def unat_Suc_small)
  ultimately show ?thesis using sz len by (simp add: holds_text_def)
qed

lemma lb_write_holds_text:
  assumes inv: "lb_inv lb" and t: "holds_text lb ls"
  shows "holds_text (snd (lb_write c m lb)) (line_break (unat (lb_lineSize lb)) c ls)"
proof -
  define lb1 where "lb1 = (if lb_wraps c lb then lb_new_line m lb else lb)"
  define ls1 where "ls1 = (if lb_wraps c lb then ls @ [[]] else ls)"
  have 1: "lb_inv lb1" "holds_text lb1 ls1" "unat (lb_currentColumn lb1) < 200"
    using inv t lb_new_line_inv new_line_holds_text lb_write_column [OF inv, of c m]
    by (simp_all add: lb1_def ls1_def)
  have "line_break (unat (lb_lineSize lb)) c ls = (if c = 10 then ls1 else butlast ls1 @ [last ls1 @ [c]])"
    using t by (simp add: line_break_def ls1_def lb_wraps_def holds_text_def Let_def word_le_nat_alt)
  moreover have "snd (lb_write c m lb) = lb_put c lb1" by (simp add: lb_write_def lb1_def Let_def)
  moreover have "lb_put 10 lb1 = lb1" by (simp add: lb_put_def Let_def)
  ultimately show ?thesis using put_holds_text [OF 1(1,2) _ 1(3)] 1(2) by (cases "c = 10") simp_all
qed

text \<open>Writing a string of characters.\<close>

definition lb_write_all :: "u8 list \<Rightarrow> LineBuffer \<Rightarrow> LineBuffer" where
  "lb_write_all cs lb = fold (\<lambda>c lb. snd (lb_write c automatic lb)) cs lb"

lemma lb_write_lineSize: "lb_lineSize (snd (lb_write c m lb)) = lb_lineSize lb"
  by (simp add: lb_write_def Let_def)

lemma lb_write_all_holds_text:
  assumes "lb_inv lb" and "holds_text lb ls"
  shows "lb_inv (lb_write_all cs lb) \<and>
    holds_text (lb_write_all cs lb) (fold (line_break (unat (lb_lineSize lb))) cs ls)"
  using assms
proof (induction cs arbitrary: lb ls)
  case (Cons c cs)
  show ?case
    using Cons.IH [OF lb_write_inv lb_write_holds_text, OF Cons.prems(1) Cons.prems, of c automatic]
    by (simp add: lb_write_all_def lb_write_lineSize)
qed (simp add: lb_write_all_def)

definition fresh_buffer :: "u8 list list \<Rightarrow> u64 \<Rightarrow> u64 \<Rightarrow> LineBuffer" where
  "fresh_buffer garbage columns rows = setNumVisibleLines rows (setLineSize columns (LineBuffer_init garbage))"

lemma fresh_buffer_inv:
  assumes "length garbage = 256" and "list_all (\<lambda>l. length l = 200) garbage"
  shows "lb_inv (fresh_buffer garbage columns rows)" "holds_text (fresh_buffer garbage columns rows) [[]]"
  using assms
  by (simp_all add: lb_inv_def fresh_buffer_def setNumVisibleLines_def setLineSize_def LineBuffer_init_def
      s_maxColumns_def s_maxLines_def holds_text_def kept_lines_def min_def word_le_nat_alt)

text \<open>C23. The terminal's line buffer keeps the last 256 lines of what was written: whatever the
  uninitialised array held, after any string the lines \<^verbatim>\<open>getLine(0)\<close>, \<^verbatim>\<open>getLine(1)\<close>, ... begin with
  the last 256 lines of the string broken at newlines and at the configured width (at most 200
  columns).\<close>

theorem line_buffer_keeps_last_lines:
  assumes "length garbage = 256" and "list_all (\<lambda>l. length l = 200) garbage"
  shows "let lines = kept_lines (fold (line_break (min (unat columns) 200)) cs [[]]);
             lb = lb_write_all cs (fresh_buffer garbage columns rows)
         in unat (lb_size lb) = length lines \<and>
            (\<forall>i < length lines. take (length (lines ! i)) (getLine (of_nat i) lb) = lines ! i)"
proof -
  have "unat (lb_lineSize (fresh_buffer garbage columns rows)) = min (unat columns) 200"
    by (simp add: fresh_buffer_def setNumVisibleLines_def setLineSize_def s_maxColumns_def min_def word_le_nat_alt)
  then show ?thesis
    using lb_write_all_holds_text [OF fresh_buffer_inv [OF assms, of columns rows], of cs]
    by (simp add: holds_text_def Let_def)
qed

theorem line_buffer_keeps_last_lines_witness:
  "let lb = lb_write_all [97, 98, 99, 10, 100] (fresh_buffer (replicate 256 (replicate 200 0xaa)) 2 24)
   in lb_size lb = 3 \<and> take 2 (getLine 0 lb) = [97, 98] \<and> take 1 (getLine 1 lb) = [99]"
proof -
  let ?lb = "lb_write_all [97, 98, 99, 10, 100] (fresh_buffer (replicate 256 (replicate 200 0xaa)) 2 24)"
  have "kept_lines (fold (line_break (min (unat (2 :: u64)) 200)) [97, 98, 99, 10, 100] [[]])
      = [[97, 98], [99], [100]]"
    by (simp add: line_break_def kept_lines_def)
  then have t: "unat (lb_size ?lb) = 3"
    "\<And>i. i < 3 \<Longrightarrow> take (length ([[97, 98], [99], [100 :: u8]] ! i)) (getLine (of_nat i) ?lb) = [[97, 98], [99], [100]] ! i"
    using line_buffer_keeps_last_lines [of "replicate 256 (replicate 200 0xaa)" 2 "[97, 98, 99, 10, 100]" 24]
    by (simp_all add: list_all_iff Let_def numeral_3_eq_3)
  have "lb_size ?lb = 3" using t(1) by (simp add: word_unat_eq_iff)
  then show ?thesis using t(2) [of 0] t(2) [of 1] by (simp add: Let_def numeral_2_eq_2)
qed

text \<open>A line that the ring reuses keeps its old text: when the buffer is full, the new last line
  still holds the characters of the line that was the oldest, and the redraw shows whatever of them
  lies behind the new text.\<close>

lemma reused_line_shows_old_text:
  assumes "lb_inv lb" and "lb_size lb = 256"
  shows "getLine 255 (snd (lb_write 10 m lb)) = getLine 0 lb"
proof -
  have "unat (lb_front lb + 1) = Suc (unat (lb_front lb))"
    using assms by (intro unat_Suc_small) (simp add: lb_inv_def)
  then have "unat ((lb_front lb + 1) mod 256) = Suc (unat (lb_front lb)) mod 256" by (simp add: unat_mod)
  moreover have "(Suc f mod 256 + 255) mod 256 = f mod 256" for f :: nat
    using mod_add_left_eq [of "Suc f" 256 255] mod_add_self2 [of f 256] by (simp only: add_Suc) simp
  moreover have "getLine 255 lb' = lb_lines lb' ! ((unat (lb_front lb') + 255) mod 256)"
    if "lb_inv lb'" for lb'
    using getLine_slot [OF that, of 255] by simp
  moreover have "snd (lb_write 10 m lb) = lb_new_line m lb"
    by (simp add: lb_write_def lb_wraps_def lb_put_def Let_def)
  ultimately show ?thesis
    using assms lb_new_line_inv [OF assms(1), of m] getLine_slot [OF assms(1), of 0]
    by (simp add: lb_new_line_front)
qed

definition full_buffer :: LineBuffer where
  "full_buffer = (fresh_buffer (replicate 256 (replicate 200 97)) 80 25)\<lparr>lb_size := 256\<rparr>"

lemma reused_line_shows_old_text_example:
  "getLine 255 (snd (lb_write 10 automatic full_buffer)) = replicate 200 97"
proof -
  have "lb_inv full_buffer" "lb_size full_buffer = 256" "getLine 0 full_buffer = replicate 200 97"
    using fresh_buffer_inv(1) [of "replicate 256 (replicate 200 97)" 80 25]
    by (simp_all add: full_buffer_def lb_inv_def list_all_iff getLine_def fresh_buffer_def
        setNumVisibleLines_def setLineSize_def LineBuffer_init_def)
  then show ?thesis using reused_line_shows_old_text [of full_buffer automatic] by simp
qed

end
