(* ===== verification/Terminal.thy ===== *)
theory Terminal
  imports Line_Buffer Kpp_Optional
begin

text \<open>
  The terminal (\<^verbatim>\<open>Terminal.hpp\<close>, \<^verbatim>\<open>Terminal.cpp\<close>, \<^verbatim>\<open>BitmapFont.hpp\<close>): a pixel buffer, a bitmap font, a
  paint cursor and the line buffer of the text. Pixels are indexed as \<^verbatim>\<open>m_pixels\<close> is; the bytes of the
  font are data of the build and an argument, indexed by their distance from \<^verbatim>\<open>data\<close> (which wraps, since
  a negative \<^verbatim>\<open>char\<close> is converted to \<^verbatim>\<open>size_t\<close>).
\<close>

section \<open>Framebuffer and font\<close>

record Framebuffer =
  fb_pixels :: "u64 \<Rightarrow> u32"
  fb_width :: u64
  fb_height :: u64

definition setPixel :: "u64 \<Rightarrow> u64 \<Rightarrow> u32 \<Rightarrow> Framebuffer \<Rightarrow> Framebuffer res" where
  "setPixel x y value fb =
     res_bind (kernel_assert (y < fb_height fb \<and> x < fb_width fb) ''Cursor out of bounds'' fb)
       (\<lambda>fb. ret (fb\<lparr>fb_pixels := (fb_pixels fb)(fb_width fb * y + x := value)\<rparr>))"

record BitmapFont =
  characterWidth :: u64
  characterHeight :: u64
  characterLeftPadding :: u64
  characterTopPadding :: u64
  characterRightPadding :: u64
  characterBottomPadding :: u64
  font_data :: "u64 \<Rightarrow> u8"

definition characterTotalWidth :: "BitmapFont \<Rightarrow> u64" where
  "characterTotalWidth f = characterWidth f + characterLeftPadding f + characterRightPadding f"

definition characterTotalHeight :: "BitmapFont \<Rightarrow> u64" where
  "characterTotalHeight f = characterHeight f + characterTopPadding f + characterBottomPadding f"

definition characterBitmap :: "u8 \<Rightarrow> BitmapFont \<Rightarrow> u64 \<Rightarrow> u8" where
  "characterBitmap character f line = font_data f (scast character * characterHeight f + line)"

definition terminalFont :: "(u64 \<Rightarrow> u8) \<Rightarrow> BitmapFont" where
  "terminalFont vga_font =
     \<lparr>characterWidth = 8, characterHeight = 16, characterLeftPadding = 0, characterTopPadding = 0,
      characterRightPadding = 0, characterBottomPadding = 0, font_data = vga_font\<rparr>"

section \<open>The terminal\<close>

record Terminal =
  m_columnsPerLine :: u64
  m_framebuffer :: Framebuffer
  m_font :: BitmapFont
  m_scrollMode :: ScrollMode
  cursor_x :: u64
  cursor_y :: u64
  m_lineBuffer :: LineBuffer

definition Terminal_init :: "u8 list list \<Rightarrow> Framebuffer \<Rightarrow> BitmapFont \<Rightarrow> Terminal" where
  "Terminal_init garbage framebuffer font =
     (let lb = LineBuffer_init garbage;
          lb = setLineSize (fb_width framebuffer div characterTotalWidth font) lb;
          lb = setNumVisibleLines (fb_height framebuffer div characterTotalHeight font) lb
      in \<lparr>m_columnsPerLine = 100, m_framebuffer = framebuffer, m_font = font, m_scrollMode = automatic,
          cursor_x = 0, cursor_y = 0, m_lineBuffer = lb\<rparr>)"

definition term_pixel :: "u64 \<Rightarrow> u64 \<Rightarrow> u32 \<Rightarrow> Terminal \<Rightarrow> Terminal res" where
  "term_pixel x y value t =
     res_bind (setPixel x y value (m_framebuffer t)) (\<lambda>fb. ret (t\<lparr>m_framebuffer := fb\<rparr>))"

text \<open>The loop that blackens the row from the cursor to the right edge.\<close>

definition blacken_rest :: "Terminal \<Rightarrow> Terminal res" where
  "blacken_rest t =
     for_up 1 (\<lambda>x t. for_up 1 (\<lambda>y. term_pixel x y 0) (cursor_y t)
                       (cursor_y t + characterTotalHeight (m_font t)) t)
       (cursor_x t) (fb_width (m_framebuffer t)) t"

definition paint_glyph :: "u8 \<Rightarrow> Terminal \<Rightarrow> Terminal res" where
  "paint_glyph character t =
     (let x0 = cursor_x t + characterLeftPadding (m_font t);
          y0 = cursor_y t + characterTopPadding (m_font t);
          characterBitWidth = characterWidth (m_font t)
      in for_up 1 (\<lambda>line t. for_up 1 (\<lambda>b t.
             if bit (characterBitmap character (m_font t) line) (unat (characterBitWidth - b - 1))
             then term_pixel (x0 + b) (y0 + line) 0xffffffff t
             else term_pixel (x0 + b) (y0 + line) 0 t) 0 characterBitWidth t)
           0 (characterHeight (m_font t)) t)"

definition paintCharacter :: "u8 \<Rightarrow> Terminal \<Rightarrow> Terminal res" where
  "paintCharacter character t =
     (if character = 10
      then res_bind (blacken_rest t) (\<lambda>t.
             let t = t\<lparr>cursor_x := 0\<rparr>
             in ret (if cursor_y t + characterTotalHeight (m_font t) < fb_height (m_framebuffer t)
                     then t\<lparr>cursor_y := cursor_y t + characterTotalHeight (m_font t)\<rparr> else t))
      else res_bind (paint_glyph character t) (\<lambda>t.
             ret (t\<lparr>cursor_x := cursor_x t + (characterWidth (m_font t)
                    + characterLeftPadding (m_font t) + characterRightPadding (m_font t))\<rparr>)))"

definition blacken_from :: "u64 \<Rightarrow> Terminal \<Rightarrow> Terminal res" where
  "blacken_from y0 t =
     for_up 1 (\<lambda>y t. for_up 1 (\<lambda>x. term_pixel x y 0) 0 (fb_width (m_framebuffer t)) t)
       y0 (fb_height (m_framebuffer t)) t"

definition paint_line :: "u64 \<Rightarrow> Terminal \<Rightarrow> Terminal res" where
  "paint_line line t =
     (let currentLine = getLine line (m_lineBuffer t)
      in res_bind (res_fold paintCharacter (takeWhile (\<lambda>c. c \<noteq> 0) currentLine) t) (\<lambda>t.
           if line = lastVisibleLineIndex (m_lineBuffer t) then blacken_rest t
           else paintCharacter 10 t))"

definition paintVisibleBuffer :: "Terminal \<Rightarrow> Terminal res" where
  "paintVisibleBuffer t =
     (let t = t\<lparr>cursor_x := 0, cursor_y := 0\<rparr>
      in res_bind (for_incl paint_line (firstVisibleLineIndex (m_lineBuffer t))
                     (lastVisibleLineIndex (m_lineBuffer t)) t)
           (\<lambda>t. blacken_from (cursor_y t + characterTotalHeight (m_font t)) t))"

text \<open>\<^verbatim>\<open>m_lineBuffer.write(character)\<close> takes the default scroll mode, not \<^verbatim>\<open>m_scrollMode\<close>.\<close>

definition Terminal_write :: "u8 \<Rightarrow> Terminal \<Rightarrow> Terminal res" where
  "Terminal_write character t =
     (let (result, lb) = lb_write character automatic (m_lineBuffer t);
          t = t\<lparr>m_lineBuffer := lb\<rparr>
      in if needsViewportRedraw result then paintVisibleBuffer t
         else res_bind (if lineWrapped result \<and> character \<noteq> 10 then paintCharacter 10 t else ret t)
                (paintCharacter character))"

definition Terminal_write_string :: "u8 list \<Rightarrow> Terminal \<Rightarrow> Terminal res" where
  "Terminal_write_string string t = res_fold Terminal_write string t"

definition Terminal_scrollDown :: "int \<Rightarrow> Terminal \<Rightarrow> Terminal res" where
  "Terminal_scrollDown lines t =
     paintVisibleBuffer (t\<lparr>m_lineBuffer := lb_scrollDown lines (m_lineBuffer t)\<rparr>)"

definition setScrollMode :: "ScrollMode \<Rightarrow> Terminal \<Rightarrow> Terminal" where
  "setScrollMode scrollMode t = t\<lparr>m_scrollMode := scrollMode\<rparr>"

definition clearViewport :: "Terminal \<Rightarrow> Terminal res" where
  "clearViewport t =
     res_bind (blacken_from 0 t) (\<lambda>t. ret (t\<lparr>cursor_x := 0, cursor_y := 0\<rparr>))"

definition Terminal_clear :: "Terminal \<Rightarrow> Terminal res" where
  "Terminal_clear t =
     res_bind (clearViewport t) (\<lambda>t. ret (t\<lparr>m_lineBuffer := lb_clear (m_lineBuffer t)\<rparr>))"

text \<open>\<^verbatim>\<open>KernelTerminal::initialize\<close>: the bootloader's first framebuffer gives the pixels and the size;
  a terminal has no destructor to run.\<close>

definition KernelTerminal_initialize ::
  "(u64 \<Rightarrow> u8) \<Rightarrow> u8 list list \<Rightarrow> Framebuffer \<Rightarrow> Terminal Optional \<Rightarrow> Terminal Optional" where
  "KernelTerminal_initialize vga_font garbage framebuffer inst =
     fst (Optional_emplace (\<lambda>_ w. w) (Terminal_init garbage framebuffer (terminalFont vga_font)) (inst, ()))"

section \<open>Pixels stay in the framebuffer\<close>

text \<open>Whatever a painting operation does when it returns, it leaves the text, the font, the size of the
  picture and every pixel beyond its end.\<close>

definition painted :: "Terminal \<Rightarrow> Terminal \<Rightarrow> bool" where
  "painted t t' \<longleftrightarrow> m_font t' = m_font t \<and> m_lineBuffer t' = m_lineBuffer t \<and>
     m_scrollMode t' = m_scrollMode t \<and>
     fb_width (m_framebuffer t') = fb_width (m_framebuffer t) \<and>
     fb_height (m_framebuffer t') = fb_height (m_framebuffer t) \<and>
     (\<forall>i. unat (fb_width (m_framebuffer t)) * unat (fb_height (m_framebuffer t)) \<le> unat i \<longrightarrow>
        fb_pixels (m_framebuffer t') i = fb_pixels (m_framebuffer t) i)"

lemma painted_refl [simp]: "painted t t"
  by (simp add: painted_def)

lemma painted_trans: "painted a b \<Longrightarrow> painted b c \<Longrightarrow> painted a c"
  by (simp add: painted_def)

lemma painted_cursor [simp]:
  "painted t (t'\<lparr>cursor_x := x\<rparr>) = painted t t'" "painted t (t'\<lparr>cursor_y := y\<rparr>) = painted t t'"
  by (simp_all add: painted_def)

text \<open>The picture is not larger than the address space.\<close>

definition fb_fits :: "Terminal \<Rightarrow> bool" where
  "fb_fits t \<longleftrightarrow> unat (fb_width (m_framebuffer t)) * unat (fb_height (m_framebuffer t)) < 2 ^ 64"

lemma pixel_index:
  fixes w h x y :: u64
  assumes "x < w" and "y < h" and "unat w * unat h < 2 ^ 64"
  shows "unat (w * y + x) < unat w * unat h" "unat (w * y + x) = unat w * unat y + unat x"
proof -
  have n: "unat x < unat w" "unat y < unat h" using assms by (simp_all add: word_less_nat_alt)
  then have "unat w * unat y + unat w \<le> unat w * unat h"
    by (metis Suc_leI add.commute mult_Suc_right mult_le_mono2)
  then have l: "unat w * unat y + unat x < unat w * unat h" using n by linarith
  then show e: "unat (w * y + x) = unat w * unat y + unat x"
    using assms(3) by (simp add: unat_word_ariths)
  show "unat (w * y + x) < unat w * unat h" using l e by simp
qed

lemma term_pixel_painted:
  assumes "term_pixel x y v t = ret t'" and "fb_fits t" shows "painted t t'"
proof -
  have b: "x < fb_width (m_framebuffer t)" "y < fb_height (m_framebuffer t)"
    using assms(1) by (auto simp: term_pixel_def setPixel_def kernel_assert_def split: if_splits)
  then have "unat (fb_width (m_framebuffer t) * y + x) <
      unat (fb_width (m_framebuffer t)) * unat (fb_height (m_framebuffer t))"
    using assms(2) unfolding fb_fits_def by (rule pixel_index(1))
  then show ?thesis
    using assms(1) b by (auto simp: term_pixel_def setPixel_def kernel_assert_def painted_def)
qed

definition paints :: "(Terminal \<Rightarrow> Terminal res) \<Rightarrow> bool" where
  "paints f \<longleftrightarrow> (\<forall>t t'. fb_fits t \<longrightarrow> f t = ret t' \<longrightarrow> painted t t')"

named_theorems paint_rules \<open>painting operations\<close>

lemma paintsD: "paints f \<Longrightarrow> f t = ret t' \<Longrightarrow> fb_fits t \<Longrightarrow> painted t t'"
  by (simp add: paints_def)

lemma painted_fits: "painted t t' \<Longrightarrow> fb_fits t \<Longrightarrow> fb_fits t'"
  by (simp add: painted_def fb_fits_def)

lemma painted_step:
  assumes "paints f" and "painted t s" and "f s = ret s'" and "fb_fits t" shows "painted t s'"
  using painted_trans [OF assms(2) paintsD [OF assms(1,3) painted_fits [OF assms(2,4)]]] .

lemma paints_pixel [paint_rules]: "paints (term_pixel x y v)"
  using term_pixel_painted by (simp add: paints_def)

lemma paints_if [paint_rules]: "paints f \<Longrightarrow> paints g \<Longrightarrow> paints (\<lambda>t. if P t then f t else g t)"
  by (simp add: paints_def)

lemma paints_ret [paint_rules]: "(\<And>t. painted t (f t)) \<Longrightarrow> paints (\<lambda>t. ret (f t))"
  by (auto simp: paints_def)

lemma paints_bind [paint_rules]:
  "paints f \<Longrightarrow> paints g \<Longrightarrow> paints (\<lambda>t. res_bind (f t) g)"
  by (auto simp: paints_def [of "\<lambda>t. res_bind (f t) g"] res_bind_eq_ret intro: painted_step dest: paintsD)

lemma paints_after: "paints f \<Longrightarrow> (\<And>t. painted t (g t)) \<Longrightarrow> paints (\<lambda>t. f (g t))"
  unfolding paints_def by (meson painted_fits painted_trans)

lemma paints_for_up [paint_rules]:
  assumes "\<And>a x. paints (body a x)" shows "paints (\<lambda>t. for_up 1 (body t) (lo t) (hi t) t)"
  unfolding paints_def
proof (intro allI impI)
  fix t t' assume "fb_fits t" "for_up 1 (body t) (lo t) (hi t) t = ret t'"
  then show "painted t t'"
    using painted_step [OF assms] by (elim for_up_keeps [where I = "painted t"]) auto
qed

lemma paints_res_fold [paint_rules]:
  assumes "\<And>x. paints (body x)" shows "paints (\<lambda>t. res_fold body (xs t) t)"
  unfolding paints_def
proof (intro allI impI)
  fix t t' assume "fb_fits t" "res_fold body (xs t) t = ret t'"
  then show "painted t t'"
    using painted_step [OF assms] by (elim res_fold_keeps [where I = "painted t"]) auto
qed

lemma paints_blacken [paint_rules]: "paints blacken_rest" "paints (blacken_from y)"
  unfolding blacken_rest_def blacken_from_def by (intro paint_rules)+

lemma paints_glyph [paint_rules]: "paints (paint_glyph c)"
  unfolding paint_glyph_def Let_def by (intro paint_rules)

lemma paints_paintCharacter [paint_rules]: "paints (paintCharacter c)"
  unfolding paintCharacter_def Let_def by (intro paint_rules) (simp_all add: painted_def)

lemma paints_line [paint_rules]: "paints (paint_line line)"
  unfolding paint_line_def Let_def by (intro paint_rules)

lemma paints_for_incl [paint_rules]:
  assumes "\<And>x. paints (body x)" shows "paints (\<lambda>t. for_incl body (lo t) (hi t) t)"
  unfolding paints_def
proof (intro allI impI)
  fix t t' assume "fb_fits t" "for_incl body (lo t) (hi t) t = ret t'"
  then show "painted t t'"
    using painted_step [OF assms] by (elim for_incl_keeps [where I = "painted t"]) auto
qed

lemma paints_visible [paint_rules]: "paints paintVisibleBuffer"
proof -
  have "paints (\<lambda>t. res_bind (for_incl paint_line (firstVisibleLineIndex (m_lineBuffer t))
      (lastVisibleLineIndex (m_lineBuffer t)) t)
      (\<lambda>t. blacken_from (cursor_y t + characterTotalHeight (m_font t)) t))"
    using paints_blacken(2) by (intro paint_rules) (simp add: paints_def)
  then have "paints (\<lambda>t. (\<lambda>t. res_bind (for_incl paint_line (firstVisibleLineIndex (m_lineBuffer t))
      (lastVisibleLineIndex (m_lineBuffer t)) t)
      (\<lambda>t. blacken_from (cursor_y t + characterTotalHeight (m_font t)) t)) (t\<lparr>cursor_x := 0, cursor_y := 0\<rparr>))"
    by (rule paints_after) simp
  then show ?thesis unfolding paintVisibleBuffer_def Let_def .
qed

section \<open>Every operation\<close>

datatype terminal_op = WriteChar u8 | ScrollDown int | SetScrollMode ScrollMode | ClearViewport | Clear

fun terminal_step :: "terminal_op \<Rightarrow> Terminal \<Rightarrow> Terminal res" where
  "terminal_step (WriteChar c) t = Terminal_write c t"
| "terminal_step (ScrollDown n) t = Terminal_scrollDown n t"
| "terminal_step (SetScrollMode m) t = ret (setScrollMode m t)"
| "terminal_step ClearViewport t = clearViewport t"
| "terminal_step Clear t = Terminal_clear t"

definition inside_picture :: "Framebuffer \<Rightarrow> Framebuffer \<Rightarrow> bool" where
  "inside_picture fb fb' \<longleftrightarrow> fb_width fb' = fb_width fb \<and> fb_height fb' = fb_height fb \<and>
     (\<forall>i. unat (fb_width fb) * unat (fb_height fb) \<le> unat i \<longrightarrow> fb_pixels fb' i = fb_pixels fb i)"

lemma painted_inside:
  "painted (t\<lparr>m_lineBuffer := lb\<rparr>) t' \<Longrightarrow> inside_picture (m_framebuffer t) (m_framebuffer t')"
  "painted t t' \<Longrightarrow> inside_picture (m_framebuffer t) (m_framebuffer t')"
  by (simp_all add: painted_def inside_picture_def)

lemma paints_clearViewport: "paints clearViewport"
  unfolding clearViewport_def by (intro paint_rules) simp

lemma terminal_step_inside:
  assumes "terminal_step x t = ret t'" and "fb_fits t"
  shows "inside_picture (m_framebuffer t) (m_framebuffer t')"
proof (cases x)
  case (WriteChar c)
  define r where "r = lb_write c automatic (m_lineBuffer t)"
  let ?t = "t\<lparr>m_lineBuffer := snd r\<rparr>"
  let ?paint = "\<lambda>t. if needsViewportRedraw (fst r) then paintVisibleBuffer t
    else res_bind (if lineWrapped (fst r) \<and> c \<noteq> 10 then paintCharacter 10 t else ret t) (paintCharacter c)"
  have "paints ?paint"
    by (intro paint_rules) simp
  moreover have "?paint ?t = ret t'"
    using assms(1) WriteChar by (simp only: terminal_step.simps Terminal_write_def r_def case_prod_unfold Let_def)
  moreover have "fb_fits ?t" using assms(2) by (simp add: fb_fits_def)
  ultimately have "painted ?t t'" by (rule paintsD)
  then show ?thesis by (rule painted_inside(1))
next
  case (ScrollDown n)
  have "fb_fits (t\<lparr>m_lineBuffer := lb_scrollDown n (m_lineBuffer t)\<rparr>)"
    using assms(2) by (simp add: fb_fits_def)
  then show ?thesis
    using assms(1) ScrollDown paintsD [OF paints_visible] painted_inside(1)
    by (simp add: Terminal_scrollDown_def) blast
next
  case (SetScrollMode m)
  then show ?thesis using assms(1) by (auto simp: setScrollMode_def inside_picture_def)
next
  case ClearViewport
  then show ?thesis using assms paintsD [OF paints_clearViewport] painted_inside(2) by simp
next
  case Clear
  then obtain t1 where "clearViewport t = ret t1" "m_framebuffer t' = m_framebuffer t1"
    using assms(1) by (auto simp: Terminal_clear_def res_bind_eq_ret)
  then show ?thesis using assms(2) paintsD [OF paints_clearViewport] painted_inside(2) by fastforce
qed

text \<open>C30. The terminal never writes outside of its picture: whatever sequence of writes, scrolls and
  clears is performed on a terminal in whatever state, as long as it returns no pixel beyond
  \<^verbatim>\<open>width * height\<close> has changed.\<close>

theorem terminal_stays_in_framebuffer:
  assumes "res_fold terminal_step ops t = ret t'"
    and "unat (fb_width (m_framebuffer t)) * unat (fb_height (m_framebuffer t)) < 2 ^ 64"
    and "unat (fb_width (m_framebuffer t)) * unat (fb_height (m_framebuffer t)) \<le> unat i"
  shows "fb_pixels (m_framebuffer t') i = fb_pixels (m_framebuffer t) i"
proof -
  let ?I = "\<lambda>s. inside_picture (m_framebuffer t) (m_framebuffer s)"
  have "?I t'"
  proof (rule res_fold_keeps [OF assms(1)])
    fix x s s' assume I: "?I s" and step: "terminal_step x s = ret s'"
    have "fb_fits s" using I assms(2) by (simp add: fb_fits_def inside_picture_def)
    then show "?I s'" using terminal_step_inside [OF step] I by (simp add: inside_picture_def)
  qed (simp add: inside_picture_def)
  then show ?thesis using assms(3) by (simp add: inside_picture_def)
qed

section \<open>Painting that returns\<close>

definition default_font :: "Terminal \<Rightarrow> bool" where
  "default_font t \<longleftrightarrow> m_font t = terminalFont (font_data (m_font t))"

lemma default_font_dims:
  assumes "default_font t"
  shows "characterWidth (m_font t) = 8" "characterHeight (m_font t) = 16" "characterLeftPadding (m_font t) = 0"
    "characterTopPadding (m_font t) = 0" "characterRightPadding (m_font t) = 0"
    "characterTotalHeight (m_font t) = 16"
  by (subst assms [unfolded default_font_def], simp add: terminalFont_def characterTotalHeight_def)+

text \<open>What painting keeps beside the pixels: everything but the cursor.\<close>

definition same_but_pixels :: "Terminal \<Rightarrow> Terminal \<Rightarrow> bool" where
  "same_but_pixels t t' \<longleftrightarrow> (\<exists>p. t' = t\<lparr>m_framebuffer := (m_framebuffer t)\<lparr>fb_pixels := p\<rparr>\<rparr>)"

lemma same_but_pixels_refl [simp]: "same_but_pixels t t"
  unfolding same_but_pixels_def by (rule exI [of _ "fb_pixels (m_framebuffer t)"]) simp

lemma same_but_pixels_fields:
  "same_but_pixels t t' \<Longrightarrow> cursor_x t' = cursor_x t \<and> cursor_y t' = cursor_y t \<and> m_font t' = m_font t \<and>
     m_lineBuffer t' = m_lineBuffer t \<and> fb_width (m_framebuffer t') = fb_width (m_framebuffer t) \<and>
     fb_height (m_framebuffer t') = fb_height (m_framebuffer t)"
  by (auto simp: same_but_pixels_def)

lemma term_pixel_returns:
  assumes "same_but_pixels t s" and "x < fb_width (m_framebuffer t)" and "y < fb_height (m_framebuffer t)"
  shows "\<exists>s'. term_pixel x y v s = ret s' \<and> same_but_pixels t s'"
  using assms
  by (auto simp: same_but_pixels_def term_pixel_def setPixel_def kernel_assert_def)

lemma blacken_rest_returns:
  assumes "default_font t" and "unat (cursor_y t) + 16 \<le> unat (fb_height (m_framebuffer t))"
  shows "\<exists>t'. blacken_rest t = ret t' \<and> same_but_pixels t t'"
  unfolding blacken_rest_def
proof (rule for_up_total)
  fix x s assume x: "x < fb_width (m_framebuffer t)" and s: "same_but_pixels t s"
  have y: "unat (cursor_y t + 16) = unat (cursor_y t) + 16"
    using assms(2) unat_less_2p [of "fb_height (m_framebuffer t)"] unat_add_no_wrap [of "cursor_y t" 16] by simp
  show "\<exists>s'. for_up 1 (\<lambda>y. term_pixel x y 0) (cursor_y s) (cursor_y s + characterTotalHeight (m_font s)) s = ret s'
      \<and> same_but_pixels t s'"
    using s
  proof (rule for_up_total [rotated])
    fix y u assume "y < cursor_y s + characterTotalHeight (m_font s)" and u: "same_but_pixels t u"
    then have "unat y < unat (cursor_y t) + 16"
      using same_but_pixels_fields [OF s] default_font_dims [OF assms(1)] assms(2) \<open>unat (cursor_y t + 16) = _\<close>
      by (simp add: word_less_nat_alt)
    then show "\<exists>s'. term_pixel x y 0 u = ret s' \<and> same_but_pixels t s'"
      using assms(2) x u by (intro term_pixel_returns) (simp_all add: word_less_nat_alt)
  qed
qed simp

lemma unat_cursor_add:
  fixes a b w :: u64 and n :: nat
  assumes "unat a + n \<le> unat w" and "unat b < n"
  shows "a + b < w"
proof -
  have "unat (a + b) = unat a + unat b"
    using assms unat_less_2p [of w] by (intro unat_add_no_wrap) simp
  then show ?thesis using assms by (simp add: word_less_nat_alt)
qed

lemma paint_glyph_returns:
  assumes f: "default_font t" and x: "unat (cursor_x t) + 8 \<le> unat (fb_width (m_framebuffer t))"
    and y: "unat (cursor_y t) + 16 \<le> unat (fb_height (m_framebuffer t))"
  shows "\<exists>t'. paint_glyph c t = ret t' \<and> same_but_pixels t t'"
  unfolding paint_glyph_def Let_def default_font_dims [OF f]
proof (rule for_up_total)
  fix line :: u64 and s assume line: "line < 16" and s: "same_but_pixels t s"
  show "\<exists>s'. for_up 1 (\<lambda>b t'. if bit (characterBitmap c (m_font t') line) (unat (8 - b - 1))
      then term_pixel (cursor_x t + 0 + b) (cursor_y t + 0 + line) 0xffffffff t'
      else term_pixel (cursor_x t + 0 + b) (cursor_y t + 0 + line) 0 t') 0 8 s = ret s' \<and> same_but_pixels t s'"
    using s
  proof (rule for_up_total [rotated])
    fix b :: u64 and u assume "b < 8" and u: "same_but_pixels t u"
    then have "cursor_x t + b < fb_width (m_framebuffer t)" "cursor_y t + line < fb_height (m_framebuffer t)"
      using line unat_cursor_add [OF x, of b] unat_cursor_add [OF y, of line]
      by (simp_all add: word_less_nat_alt)
    then show "\<exists>s'. (if bit (characterBitmap c (m_font u) line) (unat (8 - b - 1))
        then term_pixel (cursor_x t + 0 + b) (cursor_y t + 0 + line) 0xffffffff u
        else term_pixel (cursor_x t + 0 + b) (cursor_y t + 0 + line) 0 u) = ret s' \<and> same_but_pixels t s'"
      using term_pixel_returns [OF u] by simp
  qed
qed simp

text \<open>The text, the font and the size of the picture.\<close>

definition same_text :: "Terminal \<Rightarrow> Terminal \<Rightarrow> bool" where
  "same_text t t' \<longleftrightarrow> m_font t' = m_font t \<and> m_lineBuffer t' = m_lineBuffer t \<and>
     fb_width (m_framebuffer t') = fb_width (m_framebuffer t) \<and>
     fb_height (m_framebuffer t') = fb_height (m_framebuffer t)"

lemma same_text_trans: "same_text a b \<Longrightarrow> same_text b c \<Longrightarrow> same_text a c"
  by (simp add: same_text_def)

lemma same_text_font: "same_text t t' \<Longrightarrow> default_font t \<Longrightarrow> default_font t'"
  by (simp add: same_text_def default_font_def)

lemma paint_newline_returns:
  assumes f: "default_font t" and y: "unat (cursor_y t) + 16 \<le> unat (fb_height (m_framebuffer t))"
  shows "\<exists>t'. paintCharacter 10 t = ret t' \<and> same_text t t' \<and> cursor_x t' = 0 \<and>
    unat (cursor_y t') = (if unat (cursor_y t) + 16 < unat (fb_height (m_framebuffer t))
      then unat (cursor_y t) + 16 else unat (cursor_y t))"
proof -
  obtain t' where t': "blacken_rest t = ret t'" "same_but_pixels t t'"
    using blacken_rest_returns [OF f y] by blast
  have "unat (cursor_y t + 16) = unat (cursor_y t) + 16"
    using y unat_less_2p [of "fb_height (m_framebuffer t)"] unat_add_no_wrap [of "cursor_y t" 16] by simp
  then show ?thesis
    using t'(1) same_but_pixels_fields [OF t'(2)] default_font_dims [OF f]
    by (auto simp: paintCharacter_def Let_def same_text_def word_less_nat_alt)
qed

lemma paint_char_returns:
  assumes f: "default_font t" and c: "c \<noteq> 10"
    and x: "unat (cursor_x t) + 8 \<le> unat (fb_width (m_framebuffer t))"
    and y: "unat (cursor_y t) + 16 \<le> unat (fb_height (m_framebuffer t))"
  shows "\<exists>t'. paintCharacter c t = ret t' \<and> same_text t t' \<and> cursor_y t' = cursor_y t \<and>
    unat (cursor_x t') = unat (cursor_x t) + 8"
proof -
  obtain t' where t': "paint_glyph c t = ret t'" "same_but_pixels t t'"
    using paint_glyph_returns [OF f x y] by blast
  have "unat (cursor_x t + 8) = unat (cursor_x t) + 8"
    using x unat_less_2p [of "fb_width (m_framebuffer t)"] unat_add_no_wrap [of "cursor_x t" 8] by simp
  then show ?thesis
    using t'(1) same_but_pixels_fields [OF t'(2)] default_font_dims [OF f] c
    by (simp add: paintCharacter_def same_text_def)
qed

lemma paint_text_returns:
  assumes "default_font t" and "10 \<notin> set cs"
    and "unat (cursor_x t) + 8 * length cs \<le> unat (fb_width (m_framebuffer t))"
    and "unat (cursor_y t) + 16 \<le> unat (fb_height (m_framebuffer t))"
  shows "\<exists>t'. res_fold paintCharacter cs t = ret t' \<and> same_text t t' \<and> cursor_y t' = cursor_y t \<and>
    unat (cursor_x t') = unat (cursor_x t) + 8 * length cs"
  using assms
proof (induction cs arbitrary: t)
  case (Cons c cs)
  obtain t1 where t1: "paintCharacter c t = ret t1" "same_text t t1" "cursor_y t1 = cursor_y t"
      "unat (cursor_x t1) = unat (cursor_x t) + 8"
    using paint_char_returns [of t c] Cons.prems by auto
  then have "\<exists>t'. res_fold paintCharacter cs t1 = ret t' \<and> same_text t1 t' \<and> cursor_y t' = cursor_y t1 \<and>
      unat (cursor_x t') = unat (cursor_x t1) + 8 * length cs"
    using Cons.prems by (intro Cons.IH same_text_font [OF t1(2)]) (auto simp: same_text_def)
  then show ?case using t1 same_text_trans [OF t1(2)] by auto
qed (simp add: same_text_def)

text \<open>A line whose text ends within \<open>w\<close> columns.\<close>

definition line_ok :: "nat \<Rightarrow> u8 list \<Rightarrow> bool" where
  "line_ok w l \<longleftrightarrow> length l = 200 \<and> 10 \<notin> set l \<and> (\<forall>j < 200. w \<le> j \<longrightarrow> l ! j = 0)"

abbreviation shown :: "u8 list \<Rightarrow> u8 list" where
  "shown l \<equiv> takeWhile (\<lambda>c. c \<noteq> 0) l"

lemma line_ok_shown:
  assumes "line_ok w l" and "w \<le> 200" shows "length (shown l) \<le> w" and "10 \<notin> set (shown l)"
proof -
  show "10 \<notin> set (shown l)" using assms(1) by (auto simp: line_ok_def dest: set_takeWhileD)
  show "length (shown l) \<le> w"
  proof (rule ccontr)
    assume "\<not> length (shown l) \<le> w"
    then have w: "w < length (shown l)" by simp
    then have "shown l ! w \<noteq> 0" using set_takeWhileD [OF nth_mem [OF w]] by simp
    moreover have "w < 200" using w assms(1) length_takeWhile_le [of "\<lambda>c. c \<noteq> 0" l] by (simp add: line_ok_def)
    ultimately show False using assms(1) takeWhile_nth [OF w] by (simp add: line_ok_def)
  qed
qed

lemma paint_line_returns:
  assumes f: "default_font t" and l: "line_ok w (getLine line (m_lineBuffer t))" and "w \<le> 200"
    and x: "cursor_x t = 0" "8 * w \<le> unat (fb_width (m_framebuffer t))"
    and y: "unat (cursor_y t) + 16 \<le> unat (fb_height (m_framebuffer t))"
  defines "isLast \<equiv> line = lastVisibleLineIndex (m_lineBuffer t)"
  shows "\<exists>t'. paint_line line t = ret t' \<and> same_text t t' \<and>
    unat (cursor_x t') = (if isLast then 8 * length (shown (getLine line (m_lineBuffer t))) else 0) \<and>
    unat (cursor_y t') = (if isLast \<or> \<not> unat (cursor_y t) + 16 < unat (fb_height (m_framebuffer t))
      then unat (cursor_y t) else unat (cursor_y t) + 16)"
proof -
  let ?cs = "shown (getLine line (m_lineBuffer t))"
  note s = line_ok_shown [OF l \<open>w \<le> 200\<close>]
  obtain t1 where t1: "res_fold paintCharacter ?cs t = ret t1" "same_text t t1" "cursor_y t1 = cursor_y t"
      "unat (cursor_x t1) = 8 * length ?cs"
    using paint_text_returns [OF f s(2)] s(1) x y by auto
  have f1: "default_font t1" and y1: "unat (cursor_y t1) + 16 \<le> unat (fb_height (m_framebuffer t1))"
    and lb: "m_lineBuffer t1 = m_lineBuffer t" "fb_height (m_framebuffer t1) = fb_height (m_framebuffer t)"
    using t1 y same_text_font [OF t1(2) f] by (simp_all add: same_text_def)
  show ?thesis
  proof (cases isLast)
    case True
    obtain t2 where "blacken_rest t1 = ret t2" "same_but_pixels t1 t2"
      using blacken_rest_returns [OF f1 y1] by blast
    then show ?thesis
      using True t1 lb same_but_pixels_fields [of t1 t2] by (simp add: paint_line_def isLast_def same_text_def)
  next
    case False
    obtain t2 where "paintCharacter 10 t1 = ret t2" "same_text t1 t2" "cursor_x t2 = 0"
        "unat (cursor_y t2) = (if unat (cursor_y t1) + 16 < unat (fb_height (m_framebuffer t1))
          then unat (cursor_y t1) + 16 else unat (cursor_y t1))"
      using paint_newline_returns [OF f1 y1] by blast
    then show ?thesis
      using False t1 lb same_text_trans [OF t1(2)] by (simp add: paint_line_def isLast_def)
  qed
qed

lemma unat_of_nat_256: "n < 512 \<Longrightarrow> unat (of_nat n :: u64) = n"
  by (rule unat_of_nat_small) simp

lemma paint_lines_returns:
  assumes f: "default_font t" and ok: "\<And>j. j \<le> l \<Longrightarrow> line_ok w (getLine (of_nat j) (m_lineBuffer t))"
    and w: "w \<le> 200" "8 * w \<le> unat (fb_width (m_framebuffer t))"
    and l: "lastVisibleLineIndex (m_lineBuffer t) = of_nat l" "i \<le> l" "l < 256"
    and c: "cursor_x t = 0" "unat (cursor_y t) = 16 * r"
    and h: "16 * (r + (l - i)) + 16 \<le> unat (fb_height (m_framebuffer t))"
  shows "\<exists>t'. for_incl paint_line (of_nat i) (of_nat l) t = ret t' \<and> same_text t t' \<and>
    unat (cursor_x t') = 8 * length (shown (getLine (of_nat l) (m_lineBuffer t))) \<and>
    unat (cursor_y t') = 16 * (r + (l - i))"
  using assms
proof (induction "l - i" arbitrary: i r t)
  case 0
  then have [simp]: "i = l" by simp
  obtain t1 where t1: "paint_line (of_nat l) t = ret t1" "same_text t t1"
      "unat (cursor_x t1) = 8 * length (shown (getLine (of_nat l) (m_lineBuffer t)))"
      "unat (cursor_y t1) = unat (cursor_y t)"
    using paint_line_returns [OF 0(2) 0(3) 0(4) 0(9) 0(5), of l] 0(6,10,11) by auto
  have "\<not> of_nat l + 1 \<le> (of_nat l :: u64)"
    using 0(8) unat_of_nat_256 [of l] unat_of_nat_256 [of "Suc l"] by (simp add: word_le_nat_alt add.commute)
  then have "for_incl paint_line (of_nat l + 1) (of_nat l) t1 = ret t1" by (subst for_incl.simps) simp
  moreover have "for_incl paint_line (of_nat i) (of_nat l) t
      = res_bind (paint_line (of_nat l) t) (for_incl paint_line (of_nat l + 1) (of_nat l))"
    by (subst for_incl.simps) simp
  ultimately show ?case using t1 0(10) by simp
next
  case (Suc d)
  have il: "i < l" using Suc(2) by simp
  then have ne: "of_nat i \<noteq> (of_nat l :: u64)" and le: "of_nat i \<le> (of_nat l :: u64)"
    using Suc(9) unat_of_nat_256 [of l] unat_of_nat_256 [of i] by (auto simp: word_le_nat_alt)
  have room: "16 * r + 16 < unat (fb_height (m_framebuffer t))" using Suc(12) il by simp
  obtain t1 where t1: "paint_line (of_nat i) t = ret t1" "same_text t t1" "unat (cursor_x t1) = 0"
      "unat (cursor_y t1) = 16 * Suc r"
    using paint_line_returns [OF Suc(3) Suc(4) Suc(5) Suc(10) Suc(6), of i] Suc(7,11) il ne room by auto
  have lb: "m_lineBuffer t1 = m_lineBuffer t" "fb_width (m_framebuffer t1) = fb_width (m_framebuffer t)"
      "fb_height (m_framebuffer t1) = fb_height (m_framebuffer t)"
    using t1(2) by (simp_all add: same_text_def)
  have "\<exists>t'. for_incl paint_line (of_nat (Suc i)) (of_nat l) t1 = ret t' \<and> same_text t1 t' \<and>
      unat (cursor_x t') = 8 * length (shown (getLine (of_nat l) (m_lineBuffer t1))) \<and>
      unat (cursor_y t') = 16 * (Suc r + (l - Suc i))"
    using Suc il t1(3,4) same_text_font [OF t1(2) Suc(3)] by (intro Suc(1)) (simp_all add: lb unat_eq_0)
  moreover have "for_incl paint_line (of_nat i) (of_nat l) t
      = res_bind (paint_line (of_nat i) t) (for_incl paint_line (of_nat (Suc i)) (of_nat l))"
    using le by (subst for_incl.simps) (simp add: add.commute)
  moreover have "Suc r + (l - Suc i) = r + (l - i)" using il by simp
  ultimately show ?case using t1(1) lb same_text_trans [OF t1(2)] by auto
qed

section \<open>A buffer that has not overflowed\<close>

text \<open>Before the 257th line the ring starts at slot 0, the last rows are in view, and a line is blank
  behind its text.\<close>

definition line_width :: "LineBuffer \<Rightarrow> nat \<Rightarrow> nat" where
  "line_width lb k = (if k + 1 < unat (lb_size lb) then unat (lb_lineSize lb)
     else if k + 1 = unat (lb_size lb) then unat (lb_currentColumn lb) else 0)"

definition buf_ok :: "LineBuffer \<Rightarrow> bool" where
  "buf_ok lb \<longleftrightarrow> lb_inv lb \<and> lb_front lb = 0 \<and> 1 \<le> unat (lb_lineSize lb) \<and> 1 \<le> unat (lb_visibleLines lb) \<and>
     lb_currentColumn lb \<le> lb_lineSize lb \<and>
     unat (lb_firstVisibleLine lb) = unat (lb_size lb) - unat (lb_visibleLines lb) \<and>
     (\<forall>k < 256. line_ok (line_width lb k) (lb_lines lb ! k))"

lemma line_ok_mono: "line_ok w l \<Longrightarrow> w \<le> w' \<Longrightarrow> line_ok w' l"
  by (simp add: line_ok_def)

lemma buf_ok_new_line:
  assumes ok: "buf_ok lb" and room: "unat (lb_size lb) < 256"
  shows "buf_ok (lb_new_line automatic lb)" "unat (lb_size (lb_new_line automatic lb)) = Suc (unat (lb_size lb))"
    "lb_firstVisibleLine (lb_new_line automatic lb) \<noteq> lb_firstVisibleLine lb
       \<longleftrightarrow> unat (lb_visibleLines lb) \<le> unat (lb_size lb)"
proof -
  have inv: "lb_inv lb" and front: "lb_front lb = 0"
    and first: "unat (lb_firstVisibleLine lb) = unat (lb_size lb) - unat (lb_visibleLines lb)"
    using ok by (simp_all add: buf_ok_def)
  have small: "\<not> lb_size lb \<ge> 256" using room by (simp add: word_le_nat_alt)
  then show sz: "unat (lb_size (lb_new_line automatic lb)) = Suc (unat (lb_size lb))"
    using room by (simp add: lb_new_line_front unat_Suc_small)
  have sub: "unat (if b < a then a - b else (0 :: u64)) = unat a - unat b" for a b :: u64
    by (auto simp: unat_sub word_less_nat_alt order_less_imp_le word_le_nat_alt)
  have max: "unat (max a b) = max (unat a) (unat b)" for a b :: u64
    by (simp add: max_def word_le_nat_alt)
  have first': "unat (lb_firstVisibleLine (lb_new_line automatic lb))
      = Suc (unat (lb_size lb)) - unat (lb_visibleLines lb)"
    using small first sz unfolding lb_new_line_first Let_def by (simp add: max sub)
  then show "lb_firstVisibleLine (lb_new_line automatic lb) \<noteq> lb_firstVisibleLine lb
       \<longleftrightarrow> unat (lb_visibleLines lb) \<le> unat (lb_size lb)"
    using first by (auto simp: word_unat_eq_iff)
  have "line_ok (line_width (lb_new_line automatic lb) k) (lb_lines lb ! k)" if "k < 256" for k
  proof (rule line_ok_mono)
    show "line_ok (line_width lb k) (lb_lines lb ! k)" using ok that by (simp add: buf_ok_def)
    show "line_width lb k \<le> line_width (lb_new_line automatic lb) k"
      using ok sz by (auto simp: line_width_def buf_ok_def word_le_nat_alt)
  qed
  then show "buf_ok (lb_new_line automatic lb)"
    using ok sz first' small front lb_new_line_inv [OF inv]
    by (simp add: buf_ok_def lb_new_line_front word_le_nat_alt)
qed

lemma buf_ok_put:
  assumes ok: "buf_ok lb" and col: "lb_currentColumn lb < lb_lineSize lb"
  shows "buf_ok (lb_put c lb)"
    "unat (lb_currentColumn (lb_put c lb)) = (if c = 10 then unat (lb_currentColumn lb) else Suc (unat (lb_currentColumn lb)))"
proof -
  have inv: "lb_inv lb" using ok by (simp add: buf_ok_def)
  have c200: "unat (lb_currentColumn lb) < 200" using col inv by (simp add: lb_inv_def word_less_nat_alt)
  then show cc: "unat (lb_currentColumn (lb_put c lb)) = (if c = 10 then unat (lb_currentColumn lb) else Suc (unat (lb_currentColumn lb)))"
    by (simp add: lb_put_def Let_def unat_Suc_small)
  have sz: "1 \<le> unat (lb_size lb)" "unat (lb_size lb) \<le> 256" using inv by (simp_all add: lb_inv_def)
  have "lb_size lb \<noteq> 0" using sz by auto
  then have slot: "unat ((lb_front lb + lb_size lb - 1) mod 256) = unat (lb_size lb) - 1"
    using ok sz by (simp add: buf_ok_def unat_mod unat_minus_one)
  have "line_ok (line_width (lb_put c lb) k) (lb_lines (lb_put c lb) ! k)" if k: "k < 256" for k
  proof (cases "c \<noteq> 10 \<and> k = unat (lb_size lb) - 1")
    case True
    then have "line_ok (unat (lb_currentColumn lb)) (lb_lines lb ! k)"
      using ok k sz by (auto simp: buf_ok_def line_width_def)
    then have "line_ok (Suc (unat (lb_currentColumn lb))) ((lb_lines lb ! k)[unat (lb_currentColumn lb) := c])"
      using True set_update_subset_insert [of "lb_lines lb ! k" "unat (lb_currentColumn lb)" c]
      by (auto simp: line_ok_def nth_list_update)
    then show ?thesis
      using True k slot sz inv cc by (auto simp: line_width_def lb_put_def s_maxLines_def Let_def lb_inv_def)
  next
    case False
    then have "lb_lines (lb_put c lb) ! k = lb_lines lb ! k"
      using slot by (auto simp: lb_put_def s_maxLines_def Let_def)
    moreover have "line_width (lb_put c lb) k = line_width lb k"
      using False cc by (auto simp: line_width_def)
    ultimately show ?thesis using ok k by (simp add: buf_ok_def)
  qed
  moreover have "unat (lb_currentColumn (lb_put c lb)) \<le> unat (lb_lineSize lb)"
    using cc col by (simp add: word_less_nat_alt)
  ultimately show "buf_ok (lb_put c lb)"
    using ok lb_put_inv [OF inv c200] by (simp add: buf_ok_def word_le_nat_alt)
qed

lemma blacken_from_returns: "\<exists>t'. blacken_from y0 t = ret t' \<and> same_but_pixels t t'"
  unfolding blacken_from_def
proof (rule for_up_total)
  fix y s assume y: "y < fb_height (m_framebuffer t)" and s: "same_but_pixels t s"
  show "\<exists>s'. for_up 1 (\<lambda>x. term_pixel x y 0) 0 (fb_width (m_framebuffer s)) s = ret s' \<and> same_but_pixels t s'"
    using s
  proof (rule for_up_total [rotated])
    fix x u assume "x < fb_width (m_framebuffer s)" and u: "same_but_pixels t u"
    then show "\<exists>s'. term_pixel x y 0 u = ret s' \<and> same_but_pixels t s'"
      using y same_but_pixels_fields [OF s] by (intro term_pixel_returns) simp_all
  qed
qed simp

section \<open>A terminal that shows its last rows\<close>

definition screen_ok :: "Terminal \<Rightarrow> bool" where
  "screen_ok t \<longleftrightarrow> default_font t \<and> buf_ok (m_lineBuffer t) \<and>
     8 * unat (lb_lineSize (m_lineBuffer t)) \<le> unat (fb_width (m_framebuffer t)) \<and>
     16 * unat (lb_visibleLines (m_lineBuffer t)) \<le> unat (fb_height (m_framebuffer t))"

definition row_of :: "LineBuffer \<Rightarrow> nat" where
  "row_of lb = unat (lb_size lb) - 1 - unat (lb_firstVisibleLine lb)"

text \<open>The paint cursor is in the row of the line being written, not to the right of its column.\<close>

definition cursor_ok :: "Terminal \<Rightarrow> bool" where
  "cursor_ok t \<longleftrightarrow> unat (cursor_y t) = 16 * row_of (m_lineBuffer t) \<and>
     (\<exists>k \<le> unat (lb_currentColumn (m_lineBuffer t)). unat (cursor_x t) = 8 * k)"

lemma screen_ok_cong: "same_text t t' \<Longrightarrow> screen_ok t \<Longrightarrow> screen_ok t'"
  by (simp add: screen_ok_def same_text_def default_font_def)

lemma row_of_bound:
  assumes "screen_ok t" shows "16 * row_of (m_lineBuffer t) + 16 \<le> unat (fb_height (m_framebuffer t))"
  using assms by (auto simp: screen_ok_def buf_ok_def row_of_def lb_inv_def)

lemma visible_indices:
  assumes "buf_ok lb"
  shows "firstVisibleLineIndex lb = of_nat (unat (lb_firstVisibleLine lb))"
    "lastVisibleLineIndex lb = of_nat (unat (lb_size lb) - 1)"
    "unat (lb_firstVisibleLine lb) \<le> unat (lb_size lb) - 1" "unat (lb_size lb) - 1 < 256"
proof -
  have b: "lb_front lb = 0" "1 \<le> unat (lb_size lb)" "unat (lb_size lb) \<le> 256" "1 \<le> unat (lb_visibleLines lb)"
    "unat (lb_visibleLines lb) \<le> 256"
    "unat (lb_firstVisibleLine lb) = unat (lb_size lb) - unat (lb_visibleLines lb)"
    using assms by (simp_all add: buf_ok_def lb_inv_def)
  have nz: "lb_size lb \<noteq> 0" using b(2) by auto
  have f: "firstVisibleLineIndex lb = lb_firstVisibleLine lb"
    using b(1) by (simp add: firstVisibleLineIndex_def)
  then show "firstVisibleLineIndex lb = of_nat (unat (lb_firstVisibleLine lb))" by simp
  have "unat (lb_firstVisibleLine lb + lb_visibleLines lb) = unat (lb_firstVisibleLine lb) + unat (lb_visibleLines lb)"
    using b by (intro unat_add_no_wrap) simp
  moreover from this have "lb_firstVisibleLine lb + lb_visibleLines lb \<noteq> 0"
    using b(4) by (metis add_is_0 not_one_le_zero unat_0)
  ultimately have "lb_size lb - 1 \<le> firstVisibleLineIndex lb + lb_visibleLines lb - 1"
    using b nz by (simp add: f word_le_nat_alt unat_minus_one)
  then show "lastVisibleLineIndex lb = of_nat (unat (lb_size lb) - 1)"
    unfolding lastVisibleLineIndex_def unat_minus_one [OF nz, symmetric] by (simp add: min_def)
  show "unat (lb_firstVisibleLine lb) \<le> unat (lb_size lb) - 1" "unat (lb_size lb) - 1 < 256"
    using b by auto
qed

lemma getLine_front0:
  "buf_ok lb \<Longrightarrow> i < 256 \<Longrightarrow> getLine (of_nat i) lb = lb_lines lb ! i"
  using getLine_slot [of lb i] by (simp add: buf_ok_def)

lemma paintVisibleBuffer_returns:
  assumes ok: "screen_ok t"
  shows "\<exists>t'. paintVisibleBuffer t = ret t' \<and> same_text t t' \<and> cursor_ok t'"
proof -
  let ?lb = "m_lineBuffer t"
  let ?l = "unat (lb_size ?lb) - 1" and ?i = "unat (lb_firstVisibleLine ?lb)"
  let ?t = "t\<lparr>cursor_x := 0, cursor_y := 0\<rparr>"
  have buf: "buf_ok ?lb" using ok by (simp add: screen_ok_def)
  note v = visible_indices [OF buf]
  have lines: "line_ok (unat (lb_lineSize ?lb)) (getLine (of_nat j) ?lb)" if "j \<le> ?l" for j
  proof (rule line_ok_mono)
    show "line_ok (line_width ?lb j) (getLine (of_nat j) ?lb)"
      using buf that v(4) getLine_front0 [OF buf, of j] by (simp add: buf_ok_def)
    show "line_width ?lb j \<le> unat (lb_lineSize ?lb)"
      using buf by (auto simp: line_width_def buf_ok_def word_le_nat_alt)
  qed
  obtain t1 where t1: "for_incl paint_line (of_nat ?i) (of_nat ?l) ?t = ret t1" "same_text ?t t1"
      "unat (cursor_x t1) = 8 * length (shown (getLine (of_nat ?l) ?lb))" "unat (cursor_y t1) = 16 * row_of ?lb"
    using paint_lines_returns [of ?t ?l "unat (lb_lineSize ?lb)" ?i 0] v lines ok row_of_bound [OF ok]
    by (auto simp: screen_ok_def default_font_def buf_ok_def lb_inv_def row_of_def)
  obtain t2 where t2: "blacken_from (cursor_y t1 + characterTotalHeight (m_font t1)) t1 = ret t2" "same_but_pixels t1 t2"
    using blacken_from_returns by blast
  have "same_text t t2" using t1(2) same_but_pixels_fields [OF t2(2)] by (simp add: same_text_def)
  moreover have "line_ok (unat (lb_currentColumn ?lb)) (getLine (of_nat ?l) ?lb)"
    using buf v(4) getLine_front0 [OF buf, of ?l] by (auto simp: buf_ok_def line_width_def lb_inv_def)
  then have "length (shown (getLine (of_nat ?l) ?lb)) \<le> unat (lb_currentColumn ?lb)"
    using buf by (intro line_ok_shown(1)) (auto simp: buf_ok_def lb_inv_def)
  then have "cursor_ok t2"
    using t1 same_but_pixels_fields [OF t2(2)] by (auto simp: cursor_ok_def same_text_def)
  ultimately show ?thesis
    using t1(1) t2(1) v(1,2) by (simp add: paintVisibleBuffer_def Let_def)
qed

lemma Terminal_write_unfold:
  "Terminal_write c t =
     (let r = lb_write c automatic (m_lineBuffer t); t = t\<lparr>m_lineBuffer := snd r\<rparr>
      in if needsViewportRedraw (fst r) then paintVisibleBuffer t
         else res_bind (if lineWrapped (fst r) \<and> c \<noteq> 10 then paintCharacter 10 t else ret t)
                (paintCharacter c))"
  by (simp only: Terminal_write_def case_prod_unfold Let_def)

text \<open>A newline of the paint cursor that goes to the next row of the view.\<close>

lemma next_row_returns:
  assumes "screen_ok t" and "unat (cursor_y t) = 16 * r" and "row_of (m_lineBuffer t) = Suc r"
  shows "\<exists>t'. paintCharacter 10 t = ret t' \<and> same_text t t' \<and> cursor_x t' = 0 \<and>
    unat (cursor_y t') = 16 * row_of (m_lineBuffer t)"
  using paint_newline_returns [of t] row_of_bound [OF assms(1)] assms by (auto simp: screen_ok_def)

lemma paint_char_cursor_ok:
  assumes ok: "screen_ok t" and c: "c \<noteq> 10" and y: "unat (cursor_y t) = 16 * row_of (m_lineBuffer t)"
    and x: "unat (cursor_x t) = 8 * k" and k: "k < unat (lb_currentColumn (m_lineBuffer t))"
  shows "\<exists>t'. paintCharacter c t = ret t' \<and> same_text t t' \<and> cursor_ok t'"
proof -
  have "k < unat (lb_lineSize (m_lineBuffer t))"
    using ok k by (auto simp: screen_ok_def buf_ok_def word_le_nat_alt)
  then have "unat (cursor_x t) + 8 \<le> unat (fb_width (m_framebuffer t))"
    using ok x by (simp add: screen_ok_def)
  then obtain t' where "paintCharacter c t = ret t'" "same_text t t'" "cursor_y t' = cursor_y t"
      "unat (cursor_x t') = unat (cursor_x t) + 8"
    using paint_char_returns [of t c] ok c y row_of_bound [OF ok] by (auto simp: screen_ok_def)
  moreover from this have "cursor_ok t'"
    using x y k by (auto simp: cursor_ok_def same_text_def intro!: exI [of _ "Suc k"])
  ultimately show ?thesis by blast
qed

lemma Terminal_write_returns:
  assumes ok: "screen_ok t" and cur: "cursor_ok t"
    and room: "lb_wraps c (m_lineBuffer t) \<Longrightarrow> unat (lb_size (m_lineBuffer t)) < 256"
  shows "\<exists>t'. Terminal_write c t = ret t' \<and> screen_ok t' \<and> cursor_ok t' \<and>
    m_lineBuffer t' = snd (lb_write c automatic (m_lineBuffer t))"
proof -
  let ?lb = "m_lineBuffer t"
  define lb1 where "lb1 = (if lb_wraps c ?lb then lb_new_line automatic ?lb else ?lb)"
  define lb2 where "lb2 = lb_put c lb1"
  let ?t = "t\<lparr>m_lineBuffer := lb2\<rparr>"
  have buf: "buf_ok ?lb" using ok by (simp add: screen_ok_def)
  have b1: "buf_ok lb1" using buf buf_ok_new_line(1) room by (simp add: lb1_def)
  have col1: "lb_currentColumn lb1 < lb_lineSize lb1"
    using b1 by (auto simp: lb1_def lb_wraps_def buf_ok_def word_less_nat_alt word_le_nat_alt split: if_splits)
  note b2 = buf_ok_put [OF b1 col1, of c, folded lb2_def]
  have w: "lb_write c automatic ?lb = (\<lparr>lineWrapped = lb_wraps c ?lb,
      needsViewportRedraw = (lb_firstVisibleLine lb1 \<noteq> lb_firstVisibleLine ?lb)\<rparr>, lb2)"
    by (simp add: lb_write_def lb1_def lb2_def Let_def)
  have ok2: "screen_ok ?t"
    using ok b2(1) by (simp add: screen_ok_def default_font_def lb2_def lb1_def)
  have fin: ?thesis if "\<exists>t'. Terminal_write c t = ret t' \<and> same_text ?t t' \<and> cursor_ok t'"
    using that ok2 w by (auto simp: same_text_def screen_ok_def default_font_def)
  show ?thesis
  proof (cases "lb_firstVisibleLine lb1 = lb_firstVisibleLine ?lb")
    case False
    then show ?thesis
      using paintVisibleBuffer_returns [OF ok2] by (intro fin) (simp add: Terminal_write_unfold w Let_def)
  next
    case stay: True
    have y: "unat (cursor_y ?t) = 16 * row_of ?lb" using cur by (simp add: cursor_ok_def)
    show ?thesis
    proof (cases "lb_wraps c ?lb")
      case False
      then have "c \<noteq> 10" "lb1 = ?lb" by (auto simp: lb_wraps_def lb1_def)
      moreover obtain k where "k \<le> unat (lb_currentColumn ?lb)" "unat (cursor_x ?t) = 8 * k"
        using cur by (auto simp: cursor_ok_def)
      ultimately have "\<exists>t'. paintCharacter c ?t = ret t' \<and> same_text ?t t' \<and> cursor_ok t'"
        using b2(2) y by (intro paint_char_cursor_ok [OF ok2, where k = k]) (auto simp: row_of_def lb2_def)
      then show ?thesis using False stay by (intro fin) (simp add: Terminal_write_unfold w Let_def)
    next
      case True
      have "\<not> unat (lb_visibleLines ?lb) \<le> unat (lb_size ?lb)"
        using buf_ok_new_line(3) [OF buf room [OF True]] stay True by (simp add: lb1_def)
      then have row: "row_of (m_lineBuffer ?t) = Suc (row_of ?lb)"
        using buf_ok_new_line(2) [OF buf room [OF True]] True stay buf
        by (auto simp: row_of_def lb2_def lb1_def buf_ok_def lb_inv_def)
      obtain t1 where t1: "paintCharacter 10 ?t = ret t1" "same_text ?t t1" "cursor_x t1 = 0"
          "unat (cursor_y t1) = 16 * row_of lb2"
        using next_row_returns [OF ok2 y row] by auto
      have e: "Terminal_write c t = res_bind (if c \<noteq> 10 then paintCharacter 10 ?t else ret ?t) (paintCharacter c)"
        using stay True by (simp add: Terminal_write_unfold w Let_def)
      show ?thesis
      proof (cases "c = 10")
        case True
        have "Terminal_write c t = ret t1" unfolding e using True t1(1) by simp
        moreover have "cursor_ok t1" using t1 by (auto simp: cursor_ok_def same_text_def)
        ultimately show ?thesis using t1(2) by (intro fin) auto
      next
        case False
        have lb1: "lb_currentColumn lb1 = 0" using \<open>lb_wraps c ?lb\<close> by (simp add: lb1_def)
        have "screen_ok t1" using screen_ok_cong [OF t1(2) ok2] .
        then have "\<exists>t'. paintCharacter c t1 = ret t' \<and> same_text t1 t' \<and> cursor_ok t'"
          using t1 False b2(2) lb1
          by (intro paint_char_cursor_ok [where k = 0]) (auto simp: same_text_def)
        then show ?thesis
          using t1(1,2) False by (intro fin) (auto simp: e intro: same_text_trans)
      qed
    qed
  qed
qed

lemma line_break_length:
  "ls \<noteq> [] \<Longrightarrow> length (line_break w c ls) = length ls + (if w \<le> length (last ls) \<or> c = 10 then 1 else 0)"
  by (auto simp: line_break_def Let_def)

lemma line_break_ne: "line_break w c ls \<noteq> []" if "ls \<noteq> []"
  using line_break_length [OF that, of w c] that by (metis add_is_0 length_0_conv)

lemma fold_line_break_length: "ls \<noteq> [] \<Longrightarrow> length ls \<le> length (fold (line_break w) cs ls)"
proof (induction cs arbitrary: ls)
  case (Cons c cs)
  then show ?case
    using Cons.IH [OF line_break_ne [OF Cons.prems, of w c]] line_break_length [OF Cons.prems, of w c] by simp
qed simp

text \<open>A terminal on which a string still fits into the 256 lines.\<close>

definition room_for :: "u8 list \<Rightarrow> Terminal \<Rightarrow> bool" where
  "room_for cs t \<longleftrightarrow> screen_ok t \<and> cursor_ok t \<and> (\<exists>ls. holds_text (m_lineBuffer t) ls \<and>
     length (fold (line_break (unat (lb_lineSize (m_lineBuffer t)))) cs ls) \<le> 256)"

lemma room_for_write:
  assumes "room_for (c # cs) t"
  shows "\<exists>t'. Terminal_write c t = ret t' \<and> room_for cs t' \<and>
    m_lineBuffer t' = snd (lb_write c automatic (m_lineBuffer t))"
proof -
  let ?lb = "m_lineBuffer t" and ?w = "unat (lb_lineSize (m_lineBuffer t))"
  obtain ls where prems: "screen_ok t" "cursor_ok t" "holds_text ?lb ls"
      "length (fold (line_break ?w) (c # cs) ls) \<le> 256"
    using assms by (auto simp: room_for_def)
  have ls: "ls \<noteq> []" "unat (lb_currentColumn ?lb) = length (last ls)" "unat (lb_size ?lb) = min 256 (length ls)"
    using prems(3) by (simp_all add: holds_text_def)
  have "length (line_break ?w c ls) \<le> 256"
    using prems(4) fold_line_break_length [OF line_break_ne [OF ls(1), of ?w c], of ?w cs] by simp
  then have room: "unat (lb_size ?lb) < 256" if "lb_wraps c ?lb"
    using that ls line_break_length [OF ls(1), of ?w c] by (auto simp: lb_wraps_def word_le_nat_alt)
  obtain t1 where t1: "Terminal_write c t = ret t1" "screen_ok t1" "cursor_ok t1"
      "m_lineBuffer t1 = snd (lb_write c automatic ?lb)"
    using Terminal_write_returns [OF prems(1,2) room] by blast
  have "holds_text (m_lineBuffer t1) (line_break ?w c ls)"
    unfolding t1(4) using prems(1,3)
    by (intro lb_write_holds_text) (simp_all add: screen_ok_def buf_ok_def)
  then show ?thesis using t1 prems(4) by (auto simp: room_for_def lb_write_lineSize)
qed

lemma Terminal_write_string_returns:
  "room_for cs t \<Longrightarrow> \<exists>t'. Terminal_write_string cs t = ret t' \<and> m_lineBuffer t' = lb_write_all cs (m_lineBuffer t)"
proof (induction cs arbitrary: t)
  case Nil
  then show ?case by (simp add: Terminal_write_string_def lb_write_all_def)
next
  case (Cons c cs)
  obtain t1 where t1: "Terminal_write c t = ret t1" "room_for cs t1"
      "m_lineBuffer t1 = snd (lb_write c automatic (m_lineBuffer t))"
    using room_for_write [OF Cons.prems] by blast
  then show ?case using Cons.IH [OF t1(2)] by (simp add: Terminal_write_string_def lb_write_all_def)
qed

lemma write_string_room:
  "room_for (xs @ ys) t \<Longrightarrow>
     \<exists>t'. Terminal_write_string xs t = ret t' \<and> room_for ys t' \<and> m_lineBuffer t' = lb_write_all xs (m_lineBuffer t)"
proof (induction xs arbitrary: t)
  case Nil
  then show ?case by (simp add: Terminal_write_string_def lb_write_all_def)
next
  case (Cons c cs)
  obtain t1 where t1: "Terminal_write c t = ret t1" "room_for (cs @ ys) t1"
      "m_lineBuffer t1 = snd (lb_write c automatic (m_lineBuffer t))"
    using room_for_write [of c "cs @ ys" t] Cons.prems by auto
  then show ?case using Cons.IH [OF t1(2)] by (simp add: Terminal_write_string_def lb_write_all_def)
qed

definition blank_lines :: "u8 list list" where
  "blank_lines = replicate 256 (replicate 200 0)"

lemma Terminal_init_ok:
  fixes vga_font :: "u64 \<Rightarrow> u8" and fb :: Framebuffer
  assumes "8 \<le> unat (fb_width fb)" and "16 \<le> unat (fb_height fb)"
  defines "t \<equiv> Terminal_init blank_lines fb (terminalFont vga_font)"
  shows "screen_ok t" "cursor_ok t" "holds_text (m_lineBuffer t) [[]]"
    "m_lineBuffer t = fresh_buffer blank_lines (fb_width fb div 8) (fb_height fb div 16)"
    "unat (lb_lineSize (m_lineBuffer t)) = min (unat (fb_width fb) div 8) 200"
proof -
  show lb: "m_lineBuffer t = fresh_buffer blank_lines (fb_width fb div 8) (fb_height fb div 16)"
    by (simp add: t_def Terminal_init_def fresh_buffer_def terminalFont_def characterTotalWidth_def
        characterTotalHeight_def Let_def)
  have blank: "length blank_lines = 256" "list_all (\<lambda>l. length l = 200) blank_lines"
    by (simp_all add: blank_lines_def list_all_iff)
  note inv = fresh_buffer_inv [OF blank, of "fb_width fb div 8" "fb_height fb div 16"]
  show "holds_text (m_lineBuffer t) [[]]" unfolding lb by (rule inv(2))
  have d: "unat (fb_width fb div 8) = unat (fb_width fb) div 8" "unat (fb_height fb div 16) = unat (fb_height fb) div 16"
    by (simp_all add: unat_div)
  have f: "unat (lb_lineSize (fresh_buffer blank_lines (fb_width fb div 8) (fb_height fb div 16)))
      = min (unat (fb_width fb) div 8) 200"
    "unat (lb_visibleLines (fresh_buffer blank_lines (fb_width fb div 8) (fb_height fb div 16)))
      = min (unat (fb_height fb) div 16) 256"
    by (simp_all add: fresh_buffer_def setNumVisibleLines_def setLineSize_def s_maxColumns_def s_maxLines_def
        min_def word_le_nat_alt d)
  then show "unat (lb_lineSize (m_lineBuffer t)) = min (unat (fb_width fb) div 8) 200" by (simp add: lb)
  have g: "lb_front (m_lineBuffer t) = 0" "lb_size (m_lineBuffer t) = 1" "lb_firstVisibleLine (m_lineBuffer t) = 0"
    "lb_currentColumn (m_lineBuffer t) = 0" "lb_lines (m_lineBuffer t) = blank_lines"
    "m_framebuffer t = fb" "m_font t = terminalFont vga_font" "cursor_x t = 0" "cursor_y t = 0"
    by (simp_all add: lb fresh_buffer_def setNumVisibleLines_def setLineSize_def LineBuffer_init_def)
      (simp_all add: t_def Terminal_init_def)
  have "line_ok w (blank_lines ! k)" if "k < 256" for w k using that by (simp add: blank_lines_def line_ok_def)
  then have "buf_ok (m_lineBuffer t)"
    using assms(1,2) inv(1) f g by (auto simp: buf_ok_def lb)
  moreover have "8 * unat (lb_lineSize (m_lineBuffer t)) \<le> unat (fb_width fb)"
    "16 * unat (lb_visibleLines (m_lineBuffer t)) \<le> unat (fb_height fb)"
    using f by (auto simp: lb min_def)
  ultimately show "screen_ok t" using g by (simp add: screen_ok_def default_font_def terminalFont_def)
  show "cursor_ok t" using g by (simp add: cursor_ok_def row_of_def)
qed

lemma Terminal_init_room:
  assumes "8 \<le> unat (fb_width fb)" and "16 \<le> unat (fb_height fb)"
    and "length (fold (line_break (min (unat (fb_width fb) div 8) 200)) cs [[]]) \<le> 256"
  shows "room_for cs (Terminal_init blank_lines fb (terminalFont vga_font))"
  using Terminal_init_ok [OF assms(1,2), of vga_font] assms(3) unfolding room_for_def
  by (intro conjI exI [of _ "[[]]"]) simp_all

text \<open>C18. Output to a new terminal returns: on a picture of at least one character cell whose line
  buffer was blank, writing any string that makes at most 256 lines paints every character inside of
  the picture (no assertion of \<^verbatim>\<open>setPixel\<close> fails), however often it scrolls, and the text is in the line
  buffer.\<close>

theorem terminal_output_returns:
  assumes "8 \<le> unat (fb_width fb)" and "16 \<le> unat (fb_height fb)"
    and "length (fold (line_break (min (unat (fb_width fb) div 8) 200)) cs [[]]) \<le> 256"
  shows "\<exists>t'. Terminal_write_string cs (Terminal_init blank_lines fb (terminalFont vga_font)) = ret t' \<and>
    m_lineBuffer t' = lb_write_all cs (fresh_buffer blank_lines (fb_width fb div 8) (fb_height fb div 16))"
  using Terminal_write_string_returns [OF Terminal_init_room [OF assms, of vga_font]]
    Terminal_init_ok(4) [OF assms(1,2), of vga_font] by simp

definition small_screen :: Framebuffer where
  "small_screen = \<lparr>fb_pixels = (\<lambda>_. 0), fb_width = 20, fb_height = 40\<rparr>"

theorem terminal_output_returns_witness:
  "\<exists>t'. Terminal_write_string [97, 98, 99, 10, 100, 10, 10] (Terminal_init blank_lines small_screen (terminalFont (\<lambda>_. 0))) = ret t' \<and>
    m_lineBuffer t' = lb_write_all [97, 98, 99, 10, 100, 10, 10] (fresh_buffer blank_lines 2 2)"
  using terminal_output_returns [of small_screen "[97, 98, 99, 10, 100, 10, 10]" "\<lambda>_. 0"]
  by (simp add: small_screen_def line_break_def)

theorem terminal_stays_in_framebuffer_witness:
  "\<exists>t'. res_fold terminal_step [SetScrollMode manual, ClearViewport]
      (Terminal_init blank_lines small_screen (terminalFont (\<lambda>_. 0))) = ret t' \<and>
    fb_pixels (m_framebuffer t') 800 = 0"
proof -
  let ?t = "Terminal_init blank_lines small_screen (terminalFont (\<lambda>_. 0))"
  obtain t1 where "blacken_from 0 (setScrollMode manual ?t) = ret t1" using blacken_from_returns by blast
  then obtain t' where t': "res_fold terminal_step [SetScrollMode manual, ClearViewport] ?t = ret t'"
    by (simp add: clearViewport_def)
  have "m_framebuffer ?t = small_screen" by (simp add: Terminal_init_def Let_def)
  then show ?thesis
    using t' terminal_stays_in_framebuffer [OF t', of 800] by (auto simp: small_screen_def)
qed

section \<open>After the 256th line\<close>

lemma paint_glyph_panics:
  assumes f: "default_font t" and x: "unat (cursor_x t) + 8 \<le> unat (fb_width (m_framebuffer t))"
    and y: "unat (cursor_y t) \<le> unat (fb_height (m_framebuffer t))"
      "unat (fb_height (m_framebuffer t)) < unat (cursor_y t) + 16"
  shows "paint_glyph c t = kernel_panic ''Cursor out of bounds''"
  unfolding paint_glyph_def Let_def default_font_dims [OF f]
proof (rule for_up_panics [where I = "same_but_pixels t" and m = "fb_height (m_framebuffer t) - cursor_y t"])
  let ?m = "fb_height (m_framebuffer t) - cursor_y t"
  have m: "unat ?m = unat (fb_height (m_framebuffer t)) - unat (cursor_y t)"
    using y(1) by (simp add: unat_sub word_le_nat_alt)
  show "?m < 16" using m y by (simp add: word_less_nat_alt)
  fix s assume s: "same_but_pixels t s"
  note sf = same_but_pixels_fields [OF s]
  show "for_up 1 (\<lambda>b t'. if bit (characterBitmap c (m_font t') ?m) (unat (8 - b - 1))
      then term_pixel (cursor_x t + 0 + b) (cursor_y t + 0 + ?m) 0xffffffff t'
      else term_pixel (cursor_x t + 0 + b) (cursor_y t + 0 + ?m) 0 t') 0 8 s = kernel_panic ''Cursor out of bounds''"
    using sf by (subst for_up_step) (simp_all add: term_pixel_def setPixel_def kernel_assert_def)
next
  fix line s assume line: "line < fb_height (m_framebuffer t) - cursor_y t" and s: "same_but_pixels t s"
  have "unat (fb_height (m_framebuffer t) - cursor_y t) = unat (fb_height (m_framebuffer t)) - unat (cursor_y t)"
    using y(1) by (simp add: unat_sub word_le_nat_alt)
  then have l: "unat line < unat (fb_height (m_framebuffer t)) - unat (cursor_y t)"
    using line by (simp add: word_less_nat_alt)
  show "\<exists>s'. for_up 1 (\<lambda>b t'. if bit (characterBitmap c (m_font t') line) (unat (8 - b - 1))
      then term_pixel (cursor_x t + 0 + b) (cursor_y t + 0 + line) 0xffffffff t'
      else term_pixel (cursor_x t + 0 + b) (cursor_y t + 0 + line) 0 t') 0 8 s = ret s' \<and> same_but_pixels t s'"
    using s
  proof (rule for_up_total [rotated])
    fix b :: u64 and u assume "b < 8" and u: "same_but_pixels t u"
    then have "cursor_x t + b < fb_width (m_framebuffer t)"
      using unat_cursor_add [OF x, of b] by (simp add: word_less_nat_alt)
    moreover have "cursor_y t + line < fb_height (m_framebuffer t)"
      using l by (intro unat_cursor_add [where n = "unat (fb_height (m_framebuffer t)) - unat (cursor_y t)"]) auto
    ultimately show "\<exists>s'. (if bit (characterBitmap c (m_font u) line) (unat (8 - b - 1))
        then term_pixel (cursor_x t + 0 + b) (cursor_y t + 0 + line) 0xffffffff u
        else term_pixel (cursor_x t + 0 + b) (cursor_y t + 0 + line) 0 u) = ret s' \<and> same_but_pixels t s'"
      using term_pixel_returns [OF u] by simp
  qed
qed simp_all

text \<open>On a screen whose height is not a multiple of the character height, output panics soon
  after the line buffer is full: with 256 lines written, the view at the end of the buffer and the
  cursor in the last row, a newline no longer scrolls (the buffer's raw index of the first visible
  line is compared with a count of lines), the cursor moves to the incomplete row below, and the next
  character fails the assertion of \<^verbatim>\<open>setPixel\<close>.\<close>

lemma terminal_panics_when_buffer_full:
  assumes "default_font t" and "lb_size (m_lineBuffer t) = 256" and "lb_front (m_lineBuffer t) = 0"
    and "unat (lb_firstVisibleLine (m_lineBuffer t)) = 256 - unat (lb_visibleLines (m_lineBuffer t))"
    and "1 \<le> unat (lb_visibleLines (m_lineBuffer t))" "unat (lb_visibleLines (m_lineBuffer t)) < 255"
    and "16 * unat (lb_visibleLines (m_lineBuffer t)) < unat (fb_height (m_framebuffer t))"
    and "unat (fb_height (m_framebuffer t)) < 16 * unat (lb_visibleLines (m_lineBuffer t)) + 16"
    and "unat (cursor_y t) + 16 = 16 * unat (lb_visibleLines (m_lineBuffer t))"
    and "8 \<le> unat (fb_width (m_framebuffer t))" and "0 < lb_lineSize (m_lineBuffer t)" and "c \<noteq> 10"
  shows "Terminal_write_string [10, c] t = kernel_panic ''Cursor out of bounds''"
proof -
  let ?lb = "m_lineBuffer t" and ?lb1 = "lb_new_line automatic (m_lineBuffer t)"
  let ?t = "t\<lparr>m_lineBuffer := ?lb1\<rparr>"
  have v: "256 - lb_visibleLines ?lb = lb_firstVisibleLine ?lb"
    using assms(4,6) by (simp add: unat_sub word_le_nat_alt word_unat_eq_iff)
  have "lb_firstVisibleLine ?lb \<noteq> 1" using assms(4,6) by auto
  then have first: "lb_firstVisibleLine ?lb1 = lb_firstVisibleLine ?lb"
    unfolding lb_new_line_first Let_def using assms(2,3) v by (simp add: lb_new_line_front)
  have w1: "lb_write 10 automatic ?lb = (\<lparr>lineWrapped = True, needsViewportRedraw = False\<rparr>, ?lb1)"
    by (simp add: lb_write_def lb_wraps_def lb_put_def Let_def first)
  obtain t1 where t1: "paintCharacter 10 ?t = ret t1" "same_text ?t t1" "cursor_x t1 = 0"
      "unat (cursor_y t1) = 16 * unat (lb_visibleLines ?lb)"
    using paint_newline_returns [of ?t] assms(1,7,9) by (auto simp: default_font_def)
  have step1: "Terminal_write 10 t = ret t1" using t1(1) by (simp add: Terminal_write_unfold w1 Let_def)
  have lb1: "m_lineBuffer t1 = ?lb1" using t1(2) by (simp add: same_text_def)
  have "\<not> lb_wraps c ?lb1" using assms(11,12) by (simp add: lb_wraps_def)
  then have w2: "fst (lb_write c automatic ?lb1) = \<lparr>lineWrapped = False, needsViewportRedraw = False\<rparr>"
    by (simp add: lb_write_def Let_def)
  let ?t2 = "t1\<lparr>m_lineBuffer := snd (lb_write c automatic ?lb1)\<rparr>"
  have "paint_glyph c ?t2 = kernel_panic ''Cursor out of bounds''"
    using t1 assms(1,7,8,10) by (intro paint_glyph_panics) (auto simp: same_text_def default_font_def)
  then have "Terminal_write c t1 = kernel_panic ''Cursor out of bounds''"
    using assms(12) by (simp add: Terminal_write_unfold lb1 w2 Let_def paintCharacter_def)
  then show ?thesis using step1 by (simp add: Terminal_write_string_def)
qed

definition full_terminal :: Terminal where
  "full_terminal =
     (let t = Terminal_init blank_lines \<lparr>fb_pixels = (\<lambda>_. 0), fb_width = 640, fb_height = 1080\<rparr> (terminalFont (\<lambda>_. 0))
      in t\<lparr>cursor_y := 1056, m_lineBuffer := (m_lineBuffer t)\<lparr>lb_size := 256, lb_firstVisibleLine := 189\<rparr>\<rparr>)"

lemma terminal_panics_when_buffer_full_example:
  "Terminal_write_string [10, 97] full_terminal = kernel_panic ''Cursor out of bounds''"
  by (rule terminal_panics_when_buffer_full)
    (simp_all add: full_terminal_def Terminal_init_def terminalFont_def characterTotalHeight_def characterTotalWidth_def
      setNumVisibleLines_def setLineSize_def LineBuffer_init_def s_maxLines_def s_maxColumns_def Let_def default_font_def)

end
