(* ===== verification/Printf.thy ===== *)
theory Printf
  imports Terminal Kpp_String
begin

text \<open>
  Formatted output (\<^verbatim>\<open>printf.cpp\<close>, \<^verbatim>\<open>putchar.cpp\<close>, \<^verbatim>\<open>puts.cpp\<close>) on the kernel's terminal.

  A format is the bytes before its NUL. The variadic arguments are the 8-byte slots that \<^verbatim>\<open>va_arg\<close>
  reads one after the other, a function of their position; an \<^verbatim>\<open>int\<close> is the low half of its slot and a
  string the address of its first byte in memory.
\<close>

section \<open>Characters\<close>

definition kpp_putchar :: "int \<Rightarrow> Terminal Optional \<Rightarrow> (int \<times> Terminal Optional) res" where
  "kpp_putchar ic inst =
     (let c = word_of_int ic
      in res_bind (Terminal_write c (Optional_deref inst)) (\<lambda>t. ret (ic, inst\<lparr>buffer := t\<rparr>)))"

fun print_bytes :: "(int \<Rightarrow> 's \<Rightarrow> (int \<times> 's) res) \<Rightarrow> u8 list \<Rightarrow> 's \<Rightarrow> (bool \<times> 's) res" where
  "print_bytes putchar [] s = ret (True, s)"
| "print_bytes putchar (b # bytes) s =
     res_bind (putchar (uint b) s) (\<lambda>(r, s). if r = -1 then ret (False, s) else print_bytes putchar bytes s)"

section \<open>Numbers\<close>

definition hex_table :: "u8 list" where
  "hex_table = [48, 49, 50, 51, 52, 53, 54, 55, 56, 57, 97, 98, 99, 100, 101, 102]"

definition max_num_len :: int where "max_num_len = 128"

function dec_loop :: "int \<Rightarrow> u8 list \<Rightarrow> int \<Rightarrow> u8 list \<times> int" where
  "dec_loop num str str_start =
     (if num > 0
      then dec_loop (num div 10) (str[nat str_start := word_of_int (num mod 10) + 48]) (str_start - 1)
      else (str, str_start))"
  by pat_completeness auto

termination dec_loop
  by (relation "measure (\<lambda>(num, str, str_start). nat num)") (auto simp: nat_mono_iff)

definition decimal_string :: "int \<Rightarrow> u8 list" where
  "decimal_string num =
     (let str = replicate (nat max_num_len) 0;
          str_start = max_num_len - 1;
          (str, str_start) = (if num = 0 then (str[nat str_start := 48], str_start - 1)
                              else dec_loop num str str_start);
          str_start = str_start + 1
      in drop (nat str_start) str)"

function hex_loop :: "u64 \<Rightarrow> u8 list \<Rightarrow> int \<Rightarrow> u8 list \<times> int" where
  "hex_loop num str str_start =
     (if num > 0
      then hex_loop (num div 16) (str[nat str_start := hex_table ! unat (num mod 16)]) (str_start - 1)
      else (str, str_start))"
  by pat_completeness auto

termination hex_loop
  by (relation "measure (\<lambda>(num, str, str_start). unat num)") (auto simp: unat_div word_less_nat_alt)

definition hex_string :: "u64 \<Rightarrow> u8 list" where
  "hex_string num =
     (let str = replicate (nat max_num_len) 0;
          str_start = max_num_len - 1;
          str = str[nat str_start := word_of_int (max_num_len - 1)];
          (str, str_start) = (if num = 0 then (str[nat str_start := 48], str_start - 1)
                              else hex_loop num str str_start);
          str_start = str_start + 1
      in drop (nat str_start) str)"

section \<open>The format loop\<close>

definition string_bytes :: "memory \<Rightarrow> u64 \<Rightarrow> u64 \<Rightarrow> u8 list" where
  "string_bytes m str len = map (\<lambda>i. m (str + of_nat i)) [0..<unat len]"

definition arg_int :: "u64 \<Rightarrow> int" where
  "arg_int slot = sint (ucast slot :: u32)"

text \<open>The bytes printed at once: one character and those up to the next \<^verbatim>\<open>%\<close>.\<close>

definition plain_chunk :: "u8 list \<Rightarrow> u8 list" where
  "plain_chunk fmt = hd fmt # takeWhile (\<lambda>b. b \<noteq> 37) (tl fmt)"

function vprintf_loop ::
  "(int \<Rightarrow> 's \<Rightarrow> (int \<times> 's) res) \<Rightarrow> memory \<Rightarrow> (nat \<Rightarrow> u64) \<Rightarrow> u8 list \<Rightarrow> nat \<Rightarrow> u64 \<Rightarrow> 's \<Rightarrow> (int \<times> 's) res" where
  "vprintf_loop putchar m args [] n written s =
     ret (if written > 0x7fffffff then -1 else uint written, s)"
| "vprintf_loop putchar m args (c # rest) n written s =
     (if c \<noteq> 37 \<or> rest \<noteq> [] \<and> hd rest = 37
      then let format = (if c = 37 then rest else c # rest);
               chunk = plain_chunk format
           in res_bind (print_bytes putchar chunk s) (\<lambda>(ok, s).
                if \<not> ok then ret (-1, s)
                else vprintf_loop putchar m args (drop (length chunk) format) n
                       (written + of_nat (length chunk)) s)
      else if rest \<noteq> [] \<and> hd rest = 99
      then res_bind (print_bytes putchar [ucast (args n)] s) (\<lambda>(ok, s).
             if \<not> ok then ret (-1, s) else vprintf_loop putchar m args (tl rest) (Suc n) (written + 1) s)
      else if rest \<noteq> [] \<and> hd rest = 115
      then res_bind (strlen m (args n)) (\<lambda>len.
             res_bind (print_bytes putchar (string_bytes m (args n) len) s) (\<lambda>(ok, s).
             if \<not> ok then ret (-1, s) else vprintf_loop putchar m args (tl rest) (Suc n) (written + len) s))
      else if rest \<noteq> [] \<and> hd rest = 100
      then let str = decimal_string (arg_int (args n))
           in res_bind (print_bytes putchar str s) (\<lambda>(ok, s).
                if \<not> ok then ret (-1, s)
                else vprintf_loop putchar m args (tl rest) (Suc n) (written + of_nat (length str)) s)
      else if rest \<noteq> [] \<and> (hd rest = 120 \<or> hd rest = 112)
      then let str = hex_string (args n)
           in res_bind (print_bytes putchar str s) (\<lambda>(ok, s).
                if \<not> ok then ret (-1, s)
                else vprintf_loop putchar m args (tl rest) (Suc n) (written + of_nat (length str)) s)
      else vprintf_loop putchar m args rest n written s)"
  by pat_completeness auto

termination vprintf_loop
  by (relation "measure (\<lambda>(putchar, m, args, fmt, n, written, s). length fmt)")
    (auto simp: plain_chunk_def less_Suc_eq_le)

definition vprintf ::
  "memory \<Rightarrow> u8 list \<Rightarrow> (nat \<Rightarrow> u64) \<Rightarrow> Terminal Optional \<Rightarrow> (int \<times> Terminal Optional) res" where
  "vprintf m format args inst =
     vprintf_loop kpp_putchar m args (takeWhile (\<lambda>b. b \<noteq> 0) format) 0 0 inst"

definition kpp_printf ::
  "memory \<Rightarrow> u8 list \<Rightarrow> (nat \<Rightarrow> u64) \<Rightarrow> Terminal Optional \<Rightarrow> (int \<times> Terminal Optional) res" where
  "kpp_printf m format args inst = res_bind (vprintf m format args inst) (\<lambda>(written, inst). ret (written, inst))"

definition kpp_puts :: "memory \<Rightarrow> u64 \<Rightarrow> Terminal Optional \<Rightarrow> (int \<times> Terminal Optional) res" where
  "kpp_puts m string inst = kpp_printf m [37, 115, 10] ((\<lambda>_. 0)(0 := string)) inst"

definition kpp_getchar :: int where "kpp_getchar = 0"

section \<open>Digits\<close>

text \<open>The digits of a number, most significant first, and the number that digits denote.\<close>

function digits_of :: "nat \<Rightarrow> nat \<Rightarrow> nat list" where
  "digits_of b n = (if n < b \<or> b < 2 then [n] else digits_of b (n div b) @ [n mod b])"
  by pat_completeness auto

termination digits_of
  by (relation "measure snd") (auto simp: not_less intro!: div_less_dividend)

declare digits_of.simps [simp del]

definition number_of :: "nat \<Rightarrow> nat list \<Rightarrow> nat" where
  "number_of b ds = foldl (\<lambda>v d. v * b + d) 0 ds"

lemma number_of_digits: "number_of b (digits_of b n) = n"
proof (induction b n rule: digits_of.induct)
  case (1 b n)
  show ?case
  proof (cases "n < b \<or> b < 2")
    case True
    then show ?thesis by (simp add: digits_of.simps [of b n] number_of_def)
  next
    case False
    then have "number_of b (digits_of b n) = (n div b) * b + n mod b"
      using 1 by (simp add: digits_of.simps [of b n] number_of_def)
    then show ?thesis by simp
  qed
qed

lemma digits_of_length: "2 \<le> b \<Longrightarrow> n < b ^ k \<Longrightarrow> 0 < k \<Longrightarrow> length (digits_of b n) \<le> k"
proof (induction k arbitrary: n)
  case (Suc k)
  show ?case
  proof (cases "n < b")
    case True
    then show ?thesis by (simp add: digits_of.simps [of b n])
  next
    case False
    have "k \<noteq> 0" using False Suc.prems by (cases k) auto
    moreover have "n div b < b ^ k"
      using Suc.prems by (simp add: less_mult_imp_div_less mult.commute)
    ultimately show ?thesis using False Suc by (simp add: digits_of.simps [of b n])
  qed
qed simp

lemma digits_of_less: "2 \<le> b \<Longrightarrow> d \<in> set (digits_of b n) \<Longrightarrow> d < b"
proof (induction b n rule: digits_of.induct)
  case (1 b n)
  then show ?case by (cases "n < b") (auto simp: digits_of.simps [of b n])
qed

text \<open>The loop of both conversions: digits are stored from the end of the buffer downwards.\<close>

function digit_loop :: "nat \<Rightarrow> (nat \<Rightarrow> u8) \<Rightarrow> nat \<Rightarrow> u8 list \<Rightarrow> int \<Rightarrow> u8 list \<times> int" where
  "digit_loop b glyph n str start =
     (if 0 < n \<and> 2 \<le> b
      then digit_loop b glyph (n div b) (str[nat start := glyph (n mod b)]) (start - 1) else (str, start))"
  by pat_completeness auto

termination digit_loop
  by (relation "measure (\<lambda>(b, glyph, n, str, start). n)") (auto intro!: div_less_dividend)

declare digit_loop.simps [simp del] dec_loop.simps [simp del] hex_loop.simps [simp del]

definition dec_glyph :: "nat \<Rightarrow> u8" where "dec_glyph d = of_nat d + 48"
definition hex_glyph :: "nat \<Rightarrow> u8" where "hex_glyph d = hex_table ! d"

lemma dec_loop_digit_loop: "0 \<le> num \<Longrightarrow> dec_loop num str start = digit_loop 10 dec_glyph (nat num) str start"
proof (induction num str start rule: dec_loop.induct)
  case (1 num str start)
  show ?case
  proof (cases "num > 0")
    case True
    have "nat (num div 10) = nat num div 10" using 1 by (simp add: nat_div_distrib)
    moreover have "num mod 10 = int (nat num mod 10)" using True by (simp add: zmod_int)
    then have "word_of_int (num mod 10) + 48 = dec_glyph (nat num mod 10)"
      unfolding dec_glyph_def by (simp only: of_int_of_nat_eq)
    ultimately show ?thesis
      using 1 True by (simp add: dec_loop.simps [of num] digit_loop.simps [of 10 _ "nat num"])
  next
    case False
    then show ?thesis by (simp add: dec_loop.simps [of num] digit_loop.simps [of 10 _ 0])
  qed
qed

lemma hex_loop_digit_loop: "hex_loop num str start = digit_loop 16 hex_glyph (unat num) str start"
proof (induction num str start rule: hex_loop.induct)
  case (1 num str start)
  then show ?case
    by (simp add: hex_loop.simps [of num] digit_loop.simps [of 16 _ "unat num"] word_less_nat_alt unat_div
        unat_mod hex_glyph_def)
qed

lemma digit_loop_stores:
  assumes "2 \<le> b" and "0 < n" and "int (length (digits_of b n)) \<le> start + 1" and "start < int (length str)"
  shows "case digit_loop b glyph n str start of (str', start') \<Rightarrow>
    start' = start - int (length (digits_of b n)) \<and>
    drop (nat (start' + 1)) str' = map glyph (digits_of b n) @ drop (nat (start + 1)) str"
  using assms
proof (induction b glyph n str start rule: digit_loop.induct)
  case (1 b glyph n str start)
  let ?str = "str[nat start := glyph (n mod b)]"
  have start: "0 \<le> start" using 1(4) by (cases "digits_of b n") (auto simp: digits_of.simps [of b n] split: if_splits)
  have e: "digit_loop b glyph n str start = digit_loop b glyph (n div b) ?str (start - 1)"
    using 1(2,3) by (simp add: digit_loop.simps [of b glyph n])
  have put: "drop (nat start) ?str = glyph (n mod b) # drop (nat (start + 1)) str"
    using start 1(5) by (simp add: drop_update_cancel list_eq_iff_nth_eq nth_Cons' nat_add_distrib
        Cons_nth_drop_Suc [symmetric] nth_list_update)
  show ?case
  proof (cases "n < b")
    case True
    then have "digit_loop b glyph n str start = (?str, start - 1)"
      using e by (simp add: digit_loop.simps [of b glyph 0])
    then show ?thesis using True put by (simp add: digits_of.simps [of b n])
  next
    case False
    have d: "digits_of b n = digits_of b (n div b) @ [n mod b]"
      using False 1(2) by (simp add: digits_of.simps [of b n])
    have "0 < n div b" using False 1(2) by (simp add: div_greater_zero_iff)
    then have "case digit_loop b glyph (n div b) ?str (start - 1) of (str', start') \<Rightarrow>
        start' = start - 1 - int (length (digits_of b (n div b))) \<and>
        drop (nat (start' + 1)) str' = map glyph (digits_of b (n div b)) @ drop (nat (start - 1 + 1)) ?str"
      using 1(2,3,4,5) d by (intro 1(1)) simp_all
    then show ?thesis unfolding e using put by (auto simp: d split: prod.splits)
  qed
qed

lemma drop_replicate_snoc: "n < k \<Longrightarrow> drop n ((replicate k x)[n := y]) = y # replicate (k - Suc n) x"
  by (simp add: drop_update_cancel list_eq_iff_nth_eq nth_Cons' nth_list_update)

lemma decimal_string_digits:
  assumes "0 \<le> num" and "num < 2 ^ 31"
  shows "decimal_string num = map dec_glyph (digits_of 10 (nat num))"
proof (cases "num = 0")
  case True
  then show ?thesis
    by (simp add: decimal_string_def max_num_len_def digits_of.simps dec_glyph_def drop_replicate_snoc)
next
  case False
  have "nat num < 10 ^ 10" using assms(2) by (simp add: nat_less_iff)
  then have "length (digits_of 10 (nat num)) \<le> 10" by (intro digits_of_length) simp_all
  then show ?thesis
    using digit_loop_stores [of 10 "nat num" 127 "replicate 128 0" dec_glyph] False assms(1)
    by (auto simp: decimal_string_def max_num_len_def dec_loop_digit_loop split: prod.splits)
qed

lemma hex_string_digits: "hex_string num = map hex_glyph (digits_of 16 (unat num))"
proof (cases "num = 0")
  case True
  then show ?thesis
    by (simp add: hex_string_def max_num_len_def digits_of.simps hex_glyph_def hex_table_def drop_replicate_snoc)
next
  case False
  have "unat num < 16 ^ 16" using unat_less_2p [of num] by simp
  then have "length (digits_of 16 (unat num)) \<le> 16" by (intro digits_of_length) simp_all
  then show ?thesis
    using digit_loop_stores [of 16 "unat num" 127 "(replicate 128 0)[127 := 127]" hex_glyph] False
    by (auto simp: hex_string_def max_num_len_def hex_loop_digit_loop unat_gt_0 split: prod.splits)
qed

text \<open>Reading a digit.\<close>

definition digit_value :: "u8 \<Rightarrow> nat" where
  "digit_value c = (if 97 \<le> c then unat c - 87 else unat c - 48)"

lemma digit_value_glyph:
  "d < 10 \<Longrightarrow> digit_value (dec_glyph d) = d" "d < 16 \<Longrightarrow> digit_value (hex_glyph d) = d"
proof -
  have "list_all (\<lambda>d. digit_value (dec_glyph d) = d) [0..<10]"
    by (simp add: digit_value_def dec_glyph_def upt_rec)
  then show "d < 10 \<Longrightarrow> digit_value (dec_glyph d) = d" by (simp add: list_all_iff)
  have "list_all (\<lambda>d. digit_value (hex_glyph d) = d) [0..<16]"
    by (simp add: digit_value_def hex_glyph_def hex_table_def upt_rec)
  then show "d < 16 \<Longrightarrow> digit_value (hex_glyph d) = d" by (simp add: list_all_iff)
qed

text \<open>C33. Printed numbers read back: the text of \<^verbatim>\<open>%d\<close> for a non-negative \<^verbatim>\<open>int\<close>, read in base 10, and the
  text of \<^verbatim>\<open>%x\<close> and \<^verbatim>\<open>%p\<close> for any 64-bit value, read in base 16, are the number that was printed; a
  negative \<^verbatim>\<open>int\<close> is printed as the empty string.\<close>

theorem printed_numbers_read_back:
  assumes "num < 2 ^ 31"
  shows "(if 0 \<le> num then int (number_of 10 (map digit_value (decimal_string num))) = num
      else decimal_string num = []) \<and>
    number_of 16 (map digit_value (hex_string u)) = unat u"
proof -
  have "map digit_value (map dec_glyph ds) = ds" if "\<forall>d \<in> set ds. d < 10" for ds
    using that by (simp add: digit_value_glyph map_idI)
  then have dec: "map digit_value (map dec_glyph (digits_of 10 n)) = digits_of 10 n" for n
    using digits_of_less [of 10] by simp
  have "map digit_value (map hex_glyph ds) = ds" if "\<forall>d \<in> set ds. d < 16" for ds
    using that by (simp add: digit_value_glyph map_idI)
  then have hex: "map digit_value (map hex_glyph (digits_of 16 n)) = digits_of 16 n" for n
    using digits_of_less [of 16] by simp
  have "decimal_string num = []" if "num < 0"
    using that by (simp add: decimal_string_def max_num_len_def dec_loop.simps [of num])
  then show ?thesis
    using assms dec hex by (auto simp: decimal_string_digits hex_string_digits number_of_digits)
qed

theorem printed_numbers_read_back_witness:
  "int (number_of 10 (map digit_value (decimal_string 1207))) = 1207 \<and> decimal_string (-5) = [] \<and>
   number_of 16 (map digit_value (hex_string 0xdeadbeef)) = 0xdeadbeef"
  using printed_numbers_read_back [of 1207 "0xdeadbeef"] printed_numbers_read_back [of "-5" 0] by simp

section \<open>What is printed\<close>

text \<open>The reference: the output of a format, one character or directive at a time. It is a result since
  \<^verbatim>\<open>strlen\<close> of a string without a NUL does not return.\<close>

function render :: "memory \<Rightarrow> (nat \<Rightarrow> u64) \<Rightarrow> u8 list \<Rightarrow> nat \<Rightarrow> u8 list res" where
  "render m args [] n = ret []"
| "c \<noteq> 37 \<Longrightarrow> render m args (c # rest) n = res_bind (render m args rest n) (\<lambda>out. ret (c # out))"
| "render m args [37] n = ret []"
| "render m args (37 # f # rest) n =
     (if f = 37 then res_bind (render m args rest n) (\<lambda>out. ret (37 # out))
      else if f = 99 then res_bind (render m args rest (Suc n)) (\<lambda>out. ret (ucast (args n) # out))
      else if f = 115
      then res_bind (strlen m (args n)) (\<lambda>len. res_bind (render m args rest (Suc n)) (\<lambda>out.
             ret (string_bytes m (args n) len @ out)))
      else if f = 100
      then res_bind (render m args rest (Suc n)) (\<lambda>out. ret (decimal_string (arg_int (args n)) @ out))
      else if f = 120 \<or> f = 112
      then res_bind (render m args rest (Suc n)) (\<lambda>out. ret (hex_string (args n) @ out))
      else render m args (f # rest) n)"
  by (auto, metis neq_Nil_conv)

termination render
  by (relation "measure (\<lambda>(m, args, fmt, n). length fmt)") auto

lemma render_plain:
  "37 \<notin> set xs \<Longrightarrow> render m args (xs @ ys) n = res_bind (render m args ys n) (\<lambda>out. ret (xs @ out))"
  by (induction xs) (auto simp: res_bind_assoc)

lemma render_takeWhile:
  "render m args rest n = res_bind (render m args (dropWhile (\<lambda>b. b \<noteq> 37) rest) n)
     (\<lambda>out. ret (takeWhile (\<lambda>b. b \<noteq> 37) rest @ out))"
proof -
  have "37 \<notin> set (takeWhile (\<lambda>b. b \<noteq> 37) rest)" by (auto dest: set_takeWhileD)
  then show ?thesis
    using render_plain [of "takeWhile (\<lambda>b. b \<noteq> 37) rest" m args "dropWhile (\<lambda>b. b \<noteq> 37) rest" n] by simp
qed

text \<open>The chunks of the loop: what remains, and what they print.\<close>

lemma render_chunk:
  assumes "c \<noteq> 37 \<or> rest \<noteq> [] \<and> hd rest = 37"
  defines "format \<equiv> if c = 37 then rest else c # rest"
  shows "render m args (c # rest) n
    = res_bind (render m args (drop (length (plain_chunk format)) format) n) (\<lambda>out. ret (plain_chunk format @ out))"
proof (cases "c = 37")
  case True
  then obtain r where r: "rest = 37 # r" using assms by (cases rest) auto
  then have "render m args (c # rest) n = res_bind (render m args r n) (\<lambda>out. ret (37 # out))"
    using True by simp
  then show ?thesis
    unfolding format_def using True r render_takeWhile [of m args r n]
    by (simp add: plain_chunk_def res_bind_assoc dropWhile_eq_drop)
next
  case False
  then show ?thesis
    unfolding format_def using render_takeWhile [of m args rest n]
    by (simp add: plain_chunk_def res_bind_assoc dropWhile_eq_drop)
qed

text \<open>Putting bytes after \<open>written\<close> others, with the value \<^verbatim>\<open>vprintf\<close> returns.\<close>

definition emits :: "(u8 \<Rightarrow> 's \<Rightarrow> 's res) \<Rightarrow> u8 list \<Rightarrow> u64 \<Rightarrow> 's \<Rightarrow> (int \<times> 's) res" where
  "emits put out written s = res_bind (res_fold put out s)
     (\<lambda>s. ret (if written + of_nat (length out) > 0x7fffffff then -1 else uint (written + of_nat (length out)), s))"

lemma emits_append:
  "emits put (xs @ out) written s = res_bind (res_fold put xs s) (emits put out (written + of_nat (length xs)))"
  by (cases "res_fold put xs s" rule: res_cases) (simp_all add: emits_def res_fold_append algebra_simps)

lemma length_string_bytes [simp]: "of_nat (length (string_bytes m str len)) = len"
  by (simp add: string_bytes_def)

section \<open>The interface to the device\<close>

text \<open>What the formatting code relies on: a call of \<^verbatim>\<open>putchar\<close> with a byte puts that byte and returns it.\<close>

locale char_sink =
  fixes putchar :: "int \<Rightarrow> 's \<Rightarrow> (int \<times> 's) res" and put :: "u8 \<Rightarrow> 's \<Rightarrow> 's res"
  assumes putchar_put: "putchar (uint b) s = res_bind (put b s) (\<lambda>s. ret (uint b, s))"
begin

lemma print_bytes_fold: "print_bytes putchar bs s = res_bind (res_fold put bs s) (\<lambda>s. ret (True, s))"
proof (induction bs arbitrary: s)
  case (Cons b bs)
  have "uint b \<noteq> -1" using uint_ge_0 [of b] by linarith
  then show ?case by (simp add: putchar_put res_bind_assoc Cons)
qed simp

lemma print_bytes_then:
  "res_bind (print_bytes putchar bs s) (\<lambda>(ok, s). if \<not> ok then f s else g s) = res_bind (res_fold put bs s) g"
  by (simp add: print_bytes_fold res_bind_assoc)

lemma vprintf_loop_emits:
  "render m args fmt n = ret out \<Longrightarrow> vprintf_loop putchar m args fmt n written s = emits put out written s"
proof (induction "length fmt" arbitrary: fmt n out written s rule: less_induct)
  case less
  note IH = less.hyps and prem = less.prems
  show ?case
  proof (cases fmt)
    case Nil
    then show ?thesis using prem by (simp add: emits_def)
  next
    case (Cons c rest)
    show ?thesis
    proof (cases "c \<noteq> 37 \<or> rest \<noteq> [] \<and> hd rest = 37")
      case True
      define format where "format = (if c = 37 then rest else c # rest)"
      let ?chunk = "plain_chunk format"
      obtain o2 where o2: "render m args (drop (length ?chunk) format) n = ret o2" "out = ?chunk @ o2"
        using prem render_chunk [OF True, of m args n, folded format_def] Cons by (auto simp: res_bind_eq_ret)
      have "length (drop (length ?chunk) format) < length fmt"
        using Cons True by (auto simp: format_def plain_chunk_def)
      then have "vprintf_loop putchar m args (drop (length ?chunk) format) n (written + of_nat (length ?chunk))
          = emits put o2 (written + of_nat (length ?chunk))"
        using IH o2(1) by blast
      then show ?thesis
        unfolding Cons o2(2) emits_append
        using True by (simp add: print_bytes_then format_def [symmetric] Let_def)
    next
      case False
      then have c: "c = 37" and f: "rest \<noteq> [] \<Longrightarrow> hd rest \<noteq> 37" by auto
      show ?thesis
      proof (cases rest)
        case Nil
        then show ?thesis using prem Cons c by (simp add: emits_def)
      next
        case (Cons d r)
        have fmt: "fmt = 37 # d # r" and d: "d \<noteq> 37" using \<open>fmt = c # rest\<close> c Cons f by auto
        have dir: "vprintf_loop putchar m args r (Suc n) = emits put o2" if "render m args r (Suc n) = ret o2" for o2
          using IH [of r "Suc n"] that fmt by (intro ext) simp
        have skip: "vprintf_loop putchar m args (d # r) n written s = emits put out written s"
          if "render m args (d # r) n = ret out"
          using IH [of "d # r"] that fmt by simp
        consider "d = 99" | "d = 115" | "d = 100" | "d = 120 \<or> d = 112" | "d \<notin> {99, 115, 100, 120, 112}" by auto
        then show ?thesis
        proof cases
          case 1
          then obtain o2 where o2: "render m args r (Suc n) = ret o2" "out = [ucast (args n)] @ o2"
            using prem by (auto simp: fmt res_bind_eq_ret)
          show ?thesis
            unfolding o2(2) emits_append using 1 dir [OF o2(1)]
            by (simp add: fmt print_bytes_then del: print_bytes.simps)
        next
          case 2
          then obtain len o2 where o2: "strlen m (args n) = ret len" "render m args r (Suc n) = ret o2"
              "out = string_bytes m (args n) len @ o2"
            using prem by (auto simp: fmt res_bind_eq_ret)
          show ?thesis
            unfolding o2(3) emits_append using 2 dir [OF o2(2)] o2(1) by (simp add: fmt print_bytes_then)
        next
          case 3
          then obtain o2 where o2: "render m args r (Suc n) = ret o2" "out = decimal_string (arg_int (args n)) @ o2"
            using prem by (auto simp: fmt res_bind_eq_ret)
          show ?thesis
            unfolding o2(2) emits_append using 3 dir [OF o2(1)] by (simp add: fmt print_bytes_then Let_def)
        next
          case 4
          then obtain o2 where o2: "render m args r (Suc n) = ret o2" "out = hex_string (args n) @ o2"
            using prem by (auto simp: fmt res_bind_eq_ret)
          show ?thesis
            unfolding o2(2) emits_append using 4 dir [OF o2(1)] by (auto simp: fmt print_bytes_then Let_def)
        next
          case 5
          then show ?thesis using prem d skip by (simp add: fmt)
        qed
      qed
    qed
  qed
qed

end

text \<open>The kernel's \<^verbatim>\<open>putchar\<close> puts its byte on the terminal.\<close>

definition put_terminal :: "u8 \<Rightarrow> Terminal Optional \<Rightarrow> Terminal Optional res" where
  "put_terminal c inst = res_bind (Terminal_write c (Optional_deref inst)) (\<lambda>t. ret (inst\<lparr>buffer := t\<rparr>))"

interpretation console: char_sink kpp_putchar put_terminal
  by unfold_locales (simp add: kpp_putchar_def put_terminal_def res_bind_assoc)

lemma put_terminal_fold:
  "res_fold put_terminal bs inst = res_bind (Terminal_write_string bs (buffer inst)) (\<lambda>t. ret (inst\<lparr>buffer := t\<rparr>))"
proof (induction bs arbitrary: inst)
  case (Cons b bs)
  then show ?case
    by (cases "Terminal_write b (buffer inst)" rule: res_cases)
      (simp_all add: put_terminal_def Optional_deref_def Terminal_write_string_def)
qed (simp add: Terminal_write_string_def)

text \<open>C19. \<^verbatim>\<open>printf\<close>, which prints its format in chunks, writes the output of the reference to the terminal,
  character by character: plain text, \<^verbatim>\<open>%%\<close>, \<^verbatim>\<open>%c\<close>, \<^verbatim>\<open>%s\<close>, \<^verbatim>\<open>%d\<close>, \<^verbatim>\<open>%x\<close> and \<^verbatim>\<open>%p\<close>, a directive it does not know as
  the text behind the \<^verbatim>\<open>%\<close>, and nothing for a \<^verbatim>\<open>%\<close> at the end; and it returns the number of bytes, or -1
  when that does not fit an \<^verbatim>\<open>int\<close>.\<close>

theorem printf_writes_reference:
  assumes "render m args (takeWhile (\<lambda>b. b \<noteq> 0) format) 0 = ret out"
  shows "kpp_printf m format args inst =
    res_bind (Terminal_write_string out (Optional_deref inst)) (\<lambda>t.
      ret (if of_nat (length out) > (0x7fffffff :: u64) then -1 else uint (of_nat (length out) :: u64),
           inst\<lparr>buffer := t\<rparr>))"
proof -
  have "vprintf m format args inst = emits put_terminal out 0 inst"
    using console.vprintf_loop_emits [OF assms] by (simp add: vprintf_def)
  then show ?thesis
    by (simp add: kpp_printf_def emits_def put_terminal_fold res_bind_assoc Optional_deref_def)
qed

text \<open>The bytes of an ASCII string.\<close>

definition ascii :: "string \<Rightarrow> u8 list" where
  "ascii s = map of_char s"

theorem printf_writes_reference_witness:
  "\<exists>t. kpp_printf (\<lambda>_. 0) (ascii ''n=%d%%%q %x'') ((\<lambda>_. 0)(0 := 42, 1 := 0xbeef))
      (Optional_init (Terminal_init blank_lines \<lparr>fb_pixels = (\<lambda>_. 0), fb_width = 160, fb_height = 160\<rparr> (terminalFont (\<lambda>_. 0))))
    = ret (11, \<lparr>buffer = t, is_present = False\<rparr>)"
proof -
  let ?t = "Terminal_init blank_lines \<lparr>fb_pixels = (\<lambda>_. 0), fb_width = 160, fb_height = 160\<rparr> (terminalFont (\<lambda>_. 0))"
  let ?args = "(\<lambda>_. 0)(0 := 42, 1 := 0xbeef) :: nat \<Rightarrow> u64"
  have "arg_int 42 = 42" by (simp add: arg_int_def)
  moreover have "decimal_string 42 = [52, 50]"
    by (simp add: decimal_string_digits digits_of.simps dec_glyph_def)
  moreover have "hex_string 0xbeef = [98, 101, 101, 102]"
    by (simp add: hex_string_digits digits_of.simps hex_glyph_def hex_table_def)
  ultimately have r: "render (\<lambda>_. 0) ?args (takeWhile (\<lambda>b. b \<noteq> 0) (ascii ''n=%d%%%q %x'')) 0
      = ret [110, 61, 52, 50, 37, 113, 32, 98, 101, 101, 102]"
    by (simp add: ascii_def)
  have "room_for [110, 61, 52, 50, 37, 113, 32, 98, 101, 101, 102] ?t"
    by (rule Terminal_init_room) (simp_all add: line_break_def)
  then have "\<exists>t. Terminal_write_string [110, 61, 52, 50, 37, 113, 32, 98, 101, 101, 102] ?t = ret t"
    using Terminal_write_string_returns by blast
  then show ?thesis
    using printf_writes_reference [OF r, of "Optional_init ?t"] by (auto simp: Optional_init_def Optional_deref_def)
qed

end
