(* ===== verification/Interrupts.thy ===== *)
theory Interrupts
  imports Apic Descriptors Kpp_Queue Printf
begin

text \<open>
  Interrupts (\<^verbatim>\<open>idt.cpp\<close>) and the keyboard (\<^verbatim>\<open>KeyboardBuffer.hpp\<close>): the service routines, the table
  that \<^verbatim>\<open>idt_init\<close> builds, and the state machine that turns scan codes into keys.

  A service routine is a constructor of \<open>isr\<close>; where the linker puts its code is the argument
  \<open>isr_address\<close>. The build defines \<^verbatim>\<open>INTERPROCESSOR_INTERRUPT_TEST\<close> and not \<^verbatim>\<open>INTERRUPT_TEST\<close>.
\<close>

section \<open>Keys and the keyboard buffer\<close>

text \<open>\<^verbatim>\<open>Key\<close> is an \<^verbatim>\<open>int\<close>: the code casts every character of its table to it, named or not.\<close>

type_synonym Key = int

definition Key_None :: Key where "Key_None = 0"
definition Key_enter :: Key where "Key_enter = 10"
definition Key_backspace :: Key where "Key_backspace = 8"
definition Key_UpArrow :: Key where "Key_UpArrow = 0x100"
definition Key_DownArrow :: Key where "Key_DownArrow = Key_UpArrow + 1"
definition Key_LeftArrow :: Key where "Key_LeftArrow = Key_DownArrow + 1"
definition Key_RightArrow :: Key where "Key_RightArrow = Key_LeftArrow + 1"

text \<open>The enumerators, in the order of the source: those after \<^verbatim>\<open>RightArrow\<close> take the next values, up to
  \<^verbatim>\<open>RightAlt\<close>.\<close>

definition Key_values :: "Key list" where
  "Key_values =
     [Key_None] @ map uint (ascii ''abcdefghijklmnopqrstuvwxyz'') @ map uint (ascii ''ABCDEFGHIJKLMNOPQRSTUVWXYZ'') @
     map uint (ascii ''0123456789'') @ [32, 9, Key_enter, Key_backspace, 27] @
     map uint (ascii ''-=[]'') @ [92] @ map uint (ascii '';'') @ [39] @ map uint (ascii ''`,./'') @
     [Key_UpArrow, Key_DownArrow, Key_LeftArrow, Key_RightArrow] @ map (\<lambda>i. Key_RightArrow + int i) [1..<19]"

lemmas Key_defs = Key_None_def Key_enter_def Key_backspace_def Key_UpArrow_def Key_DownArrow_def
  Key_LeftArrow_def Key_RightArrow_def

definition s_maxSize :: u64 where "s_maxSize = 256"

definition keyboard_put :: "Key \<Rightarrow> Key CircularQueue \<Rightarrow> Key CircularQueue" where
  "keyboard_put c q = enqueue s_maxSize c q"

definition keyboard_get :: "Key CircularQueue \<Rightarrow> Key \<times> Key CircularQueue" where
  "keyboard_get q = dequeue s_maxSize Key_None q"

definition keyboard_hasData :: "Key CircularQueue \<Rightarrow> bool" where
  "keyboard_hasData q \<longleftrightarrow> \<not> queue_isEmpty q"

section \<open>State\<close>

record interrupt_state = apic_state +
  idt_bytes :: "u8 list"
  keyboardBuffer :: "Key CircularQueue"
  extended :: bool
  terminal :: "Terminal Optional"

section \<open>Scan codes\<close>

definition scancode_to_ascii :: "u8 list" where
  "scancode_to_ascii =
     [0, 27] @ ascii ''1234567890-='' @ [8, 9] @ ascii ''qwertyuiop[]'' @ [10, 0] @ ascii ''asdfghjkl;'' @
     [39] @ ascii ''`'' @ [0, 92] @ ascii ''zxcvbnm,./'' @ [0, 42, 0, 32] @ replicate 70 0"

text \<open>The lambda of \<^verbatim>\<open>isr_keyboard\<close> with its static flag.\<close>

definition scancode_to_key :: "u8 \<Rightarrow> bool \<Rightarrow> Key \<times> bool" where
  "scancode_to_key scancode ext =
     (if ext
      then (if scancode = 0x48 then Key_UpArrow
            else if scancode = 0x50 then Key_DownArrow
            else if scancode = 0x4B then Key_LeftArrow
            else if scancode = 0x4D then Key_RightArrow
            else Key_None, False)
      else if scancode = 0xE0 then (Key_None, True)
      else if scancode AND 0x80 \<noteq> 0 then (Key_None, False)
      else if scancode < 128 \<and> scancode_to_ascii ! unat scancode \<noteq> 0
      then (sint (scancode_to_ascii ! unat scancode), False)
      else (Key_None, False))"

section \<open>Service routines\<close>

datatype isr =
    isr_divide_error | isr_debug_exception | isr_nmi_interrupt | isr_breakpoint | isr_overflow
  | isr_bound_range_exceeded | isr_invalid_opcode | isr_device_not_available | isr_double_fault
  | isr_coprocessor_segment_overrun | isr_invalid_tss | isr_segment_not_present
  | isr_stack_segment_fault | isr_general_protection | isr_page_fault | isr_math_fault
  | isr_alignment_check | isr_machine_check | isr_simd_floating_point_exception
  | isr_virtualization_exception | isr_interprocessor_interrupt | isr_keyboard

definition run_isr_keyboard :: "devices \<Rightarrow> interrupt_state \<Rightarrow> interrupt_state res" where
  "run_isr_keyboard d s =
     (let (scan_code, s) = inb d 0x60 s;
          (key, ext) = scancode_to_key scan_code (extended s);
          s = s\<lparr>extended := ext, keyboardBuffer := keyboard_put key (keyboardBuffer s)\<rparr>
      in ret (sendEndOfInterrupt s))"

text \<open>\<open>cr2\<close> is the faulting address in the register of that name.\<close>

definition run_isr_page_fault :: "u64 \<Rightarrow> interrupt_state \<Rightarrow> interrupt_state res" where
  "run_isr_page_fault cr2 s =
     (let faulting_address = cr2
      in res_bind (paging_allocate_and_map faulting_address pageSize PageFlags_Write s)
           (\<lambda>s. ret (sendEndOfInterrupt s)))"

definition run_isr_interprocessor :: "interrupt_state \<Rightarrow> interrupt_state res" where
  "run_isr_interprocessor s =
     res_bind (kpp_printf (mem s) (ascii ''interprocessor interrupt test: PASSED\<newline>'') (\<lambda>_. 0) (terminal s))
       (\<lambda>(written, inst). ret (sendEndOfInterrupt (s\<lparr>terminal := inst\<rparr>)))"

text \<open>A routine that panics, which does not return, and would then signal the end of the interrupt.\<close>

definition isr_panic :: "string \<Rightarrow> interrupt_state \<Rightarrow> interrupt_state res" where
  "isr_panic msg s = res_bind (kernel_panic msg) (\<lambda>_ :: unit. ret (sendEndOfInterrupt s))"

definition run_isr_divide_error :: "interrupt_state \<Rightarrow> interrupt_state res" where
  "run_isr_divide_error s = isr_panic ''divide error\<newline>'' s"

definition run_isr_debug_exception :: "interrupt_state \<Rightarrow> interrupt_state res" where
  "run_isr_debug_exception s = isr_panic ''debug exception\<newline>'' s"

definition run_isr_nmi_interrupt :: "interrupt_state \<Rightarrow> interrupt_state res" where
  "run_isr_nmi_interrupt s = isr_panic ''nonmaskable external interrupt\<newline>'' s"

definition run_isr_breakpoint :: "interrupt_state \<Rightarrow> interrupt_state res" where
  "run_isr_breakpoint s = isr_panic ''breakpoint\<newline>'' s"

definition run_isr_overflow :: "interrupt_state \<Rightarrow> interrupt_state res" where
  "run_isr_overflow s = isr_panic ''overflow\<newline>'' s"

definition run_isr_bound_range_exceeded :: "interrupt_state \<Rightarrow> interrupt_state res" where
  "run_isr_bound_range_exceeded s = isr_panic ''bound range exceeded\<newline>'' s"

definition run_isr_invalid_opcode :: "interrupt_state \<Rightarrow> interrupt_state res" where
  "run_isr_invalid_opcode s = isr_panic ''invalid opcode\<newline>'' s"

definition run_isr_device_not_available :: "interrupt_state \<Rightarrow> interrupt_state res" where
  "run_isr_device_not_available s = isr_panic ''device not available\<newline>'' s"

definition run_isr_double_fault :: "interrupt_state \<Rightarrow> interrupt_state res" where
  "run_isr_double_fault s = isr_panic ''double fault\<newline>'' s"

definition run_isr_coprocessor_segment_overrun :: "interrupt_state \<Rightarrow> interrupt_state res" where
  "run_isr_coprocessor_segment_overrun s = isr_panic ''coprocessor segment overrun\<newline>'' s"

definition run_isr_invalid_tss :: "interrupt_state \<Rightarrow> interrupt_state res" where
  "run_isr_invalid_tss s = isr_panic ''invalid tss\<newline>'' s"

definition run_isr_segment_not_present :: "interrupt_state \<Rightarrow> interrupt_state res" where
  "run_isr_segment_not_present s = isr_panic ''segment not present\<newline>'' s"

definition run_isr_stack_segment_fault :: "interrupt_state \<Rightarrow> interrupt_state res" where
  "run_isr_stack_segment_fault s = isr_panic ''stack segment fault\<newline>'' s"

definition run_isr_general_protection :: "interrupt_state \<Rightarrow> interrupt_state res" where
  "run_isr_general_protection s = isr_panic ''general protection\<newline>error_code: %x'' s"

definition run_isr_math_fault :: "interrupt_state \<Rightarrow> interrupt_state res" where
  "run_isr_math_fault s = isr_panic ''math fault\<newline>'' s"

definition run_isr_alignment_check :: "interrupt_state \<Rightarrow> interrupt_state res" where
  "run_isr_alignment_check s = isr_panic ''alignment check\<newline>'' s"

definition run_isr_machine_check :: "interrupt_state \<Rightarrow> interrupt_state res" where
  "run_isr_machine_check s = isr_panic ''machine check\<newline>'' s"

definition run_isr_simd_floating_point_exception :: "interrupt_state \<Rightarrow> interrupt_state res" where
  "run_isr_simd_floating_point_exception s = isr_panic ''SIMD floating-point exception\<newline>'' s"

definition run_isr_virtualization_exception :: "interrupt_state \<Rightarrow> interrupt_state res" where
  "run_isr_virtualization_exception s = isr_panic ''virtualization exception\<newline>'' s"

lemmas exception_routines =
  run_isr_divide_error_def run_isr_debug_exception_def run_isr_nmi_interrupt_def
  run_isr_breakpoint_def run_isr_overflow_def run_isr_bound_range_exceeded_def
  run_isr_invalid_opcode_def run_isr_device_not_available_def run_isr_double_fault_def
  run_isr_coprocessor_segment_overrun_def run_isr_invalid_tss_def run_isr_segment_not_present_def
  run_isr_stack_segment_fault_def run_isr_general_protection_def run_isr_math_fault_def
  run_isr_alignment_check_def run_isr_machine_check_def run_isr_simd_floating_point_exception_def
  run_isr_virtualization_exception_def

text \<open>The routine at an address the table holds.\<close>

fun run_isr :: "devices \<Rightarrow> u64 \<Rightarrow> isr \<Rightarrow> interrupt_state \<Rightarrow> interrupt_state res" where
  "run_isr d cr2 isr_divide_error s = run_isr_divide_error s"
| "run_isr d cr2 isr_debug_exception s = run_isr_debug_exception s"
| "run_isr d cr2 isr_nmi_interrupt s = run_isr_nmi_interrupt s"
| "run_isr d cr2 isr_breakpoint s = run_isr_breakpoint s"
| "run_isr d cr2 isr_overflow s = run_isr_overflow s"
| "run_isr d cr2 isr_bound_range_exceeded s = run_isr_bound_range_exceeded s"
| "run_isr d cr2 isr_invalid_opcode s = run_isr_invalid_opcode s"
| "run_isr d cr2 isr_device_not_available s = run_isr_device_not_available s"
| "run_isr d cr2 isr_double_fault s = run_isr_double_fault s"
| "run_isr d cr2 isr_coprocessor_segment_overrun s = run_isr_coprocessor_segment_overrun s"
| "run_isr d cr2 isr_invalid_tss s = run_isr_invalid_tss s"
| "run_isr d cr2 isr_segment_not_present s = run_isr_segment_not_present s"
| "run_isr d cr2 isr_stack_segment_fault s = run_isr_stack_segment_fault s"
| "run_isr d cr2 isr_general_protection s = run_isr_general_protection s"
| "run_isr d cr2 isr_page_fault s = run_isr_page_fault cr2 s"
| "run_isr d cr2 isr_math_fault s = run_isr_math_fault s"
| "run_isr d cr2 isr_alignment_check s = run_isr_alignment_check s"
| "run_isr d cr2 isr_machine_check s = run_isr_machine_check s"
| "run_isr d cr2 isr_simd_floating_point_exception s = run_isr_simd_floating_point_exception s"
| "run_isr d cr2 isr_virtualization_exception s = run_isr_virtualization_exception s"
| "run_isr d cr2 isr_interprocessor_interrupt s = run_isr_interprocessor s"
| "run_isr d cr2 isr_keyboard s = run_isr_keyboard d s"

section \<open>The table\<close>

definition kernel_gate :: "(isr \<Rightarrow> u64) \<Rightarrow> isr \<Rightarrow> GateType \<Rightarrow> GateDescriptor" where
  "kernel_gate isr_address isr ty =
     \<lparr>interrupt_service_routine = isr_address isr,
      selector = \<lparr>requested_privilege_level = PL_kernel, table_type = DT_global, gdt_segment = Seg_kernel_code\<rparr>,
      interrupt_stack_table_offset = 0, gate_type = ty, required_privilege = PL_kernel\<rparr>"

definition system_idt_descriptors :: "(isr \<Rightarrow> u64) \<Rightarrow> GateDescriptor list" where
  "system_idt_descriptors isr_address =
     [kernel_gate isr_address isr_divide_error Gate_interrupt,
      kernel_gate isr_address isr_debug_exception Gate_interrupt,
      kernel_gate isr_address isr_nmi_interrupt Gate_interrupt,
      kernel_gate isr_address isr_breakpoint Gate_trap,
      kernel_gate isr_address isr_overflow Gate_interrupt,
      kernel_gate isr_address isr_bound_range_exceeded Gate_interrupt,
      kernel_gate isr_address isr_invalid_opcode Gate_interrupt,
      kernel_gate isr_address isr_device_not_available Gate_interrupt,
      kernel_gate isr_address isr_double_fault Gate_interrupt,
      kernel_gate isr_address isr_coprocessor_segment_overrun Gate_interrupt,
      kernel_gate isr_address isr_invalid_tss Gate_interrupt,
      kernel_gate isr_address isr_segment_not_present Gate_interrupt,
      kernel_gate isr_address isr_stack_segment_fault Gate_interrupt,
      kernel_gate isr_address isr_general_protection Gate_interrupt,
      kernel_gate isr_address isr_page_fault Gate_interrupt,
      kernel_gate isr_address isr_math_fault Gate_interrupt,
      kernel_gate isr_address isr_alignment_check Gate_interrupt,
      kernel_gate isr_address isr_machine_check Gate_interrupt,
      kernel_gate isr_address isr_simd_floating_point_exception Gate_interrupt,
      kernel_gate isr_address isr_virtualization_exception Gate_interrupt]"

definition user_idt_descriptors :: "(isr \<Rightarrow> u64) \<Rightarrow> GateDescriptor list" where
  "user_idt_descriptors isr_address = [kernel_gate isr_address isr_keyboard Gate_interrupt]"

text \<open>The loops over both arrays: gate \<open>i\<close> goes to vector \<open>i + base\<close>.\<close>

fun load_gates :: "u16 \<Rightarrow> GateDescriptor list \<Rightarrow> u8 list \<Rightarrow> u8 list option" where
  "load_gates i [] t = Some t"
| "load_gates i (g # gs) t = Option.bind (load_gate_descriptor i g t) (load_gates (i + 1) gs)"

text \<open>\<open>idt_address\<close> is where the linker places the table. The result is \<open>None\<close> when a store leaves the
  table.\<close>

definition idt_init :: "(isr \<Rightarrow> u64) \<Rightarrow> u64 \<Rightarrow> interrupt_state \<Rightarrow> interrupt_state option" where
  "idt_init isr_address idt_address s =
     do {
       t \<leftarrow> load_gates 0 (system_idt_descriptors isr_address) (idt_bytes s);
       t \<leftarrow> load_gates 0x30 (user_idt_descriptors isr_address) t;
       t \<leftarrow> load_gate_descriptor 0xff (kernel_gate isr_address isr_interprocessor_interrupt Gate_interrupt) t;
       Some (emit (Lidt (TableDescriptor_init IDTStructure_size idt_address)) (s\<lparr>idt_bytes := t\<rparr>))
     }"

section \<open>What the processor finds in the table\<close>

lemma load_gates_reads_back:
  assumes "unat i + length gs \<le> 256" and "length t = 4096"
  shows "\<exists>t'. load_gates i gs t = Some t' \<and> length t' = 4096 \<and>
    (\<forall>v. hw_read_gate t' v = (if unat i \<le> v \<and> v < unat i + length gs then hw_gate_for (gs ! (v - unat i))
                             else hw_read_gate t v))"
  using assms
proof (induction gs arbitrary: i t)
  case (Cons g gs)
  have i: "i < num_gates" using Cons.prems(1) by (simp add: num_gates_def word_less_nat_alt)
  obtain t1 where t1: "load_gate_descriptor i g t = Some t1" "length t1 = 4096"
      "\<And>v. hw_read_gate t1 v = (if v = unat i then hw_gate_for g else hw_read_gate t v)"
    using load_gate_reads_back [OF i Cons.prems(2), of g] by blast
  have u: "unat (i + 1) = Suc (unat i)"
    using Cons.prems(1) by (simp add: unat_word_ariths)
  obtain t2 where "load_gates (i + 1) gs t1 = Some t2" "length t2 = 4096"
      "\<And>v. hw_read_gate t2 v = (if unat (i + 1) \<le> v \<and> v < unat (i + 1) + length gs
         then hw_gate_for (gs ! (v - unat (i + 1))) else hw_read_gate t1 v)"
    using Cons.IH [of "i + 1" t1] Cons.prems(1) t1(2) u by auto
  then show ?case using t1 u by (auto simp: nth_Cons' intro!: exI [of _ t2])
qed auto

text \<open>The routine and the kind of gate for each vector.\<close>

definition vector_gate :: "(isr \<Rightarrow> u64) \<Rightarrow> nat \<Rightarrow> GateDescriptor option" where
  "vector_gate a v =
     (if v < 20 then Some (system_idt_descriptors a ! v)
      else if v = 0x30 then Some (kernel_gate a isr_keyboard Gate_interrupt)
      else if v = 0xff then Some (kernel_gate a isr_interprocessor_interrupt Gate_interrupt)
      else None)"

lemma length_system_idt_descriptors [simp]: "length (system_idt_descriptors a) = 20"
  by (simp add: system_idt_descriptors_def)

text \<open>C20. \<^verbatim>\<open>idt_init\<close> stays within the table and the processor then finds, at every vector, the routine the
  source lists for it as a present ring 0 gate in the kernel code segment (a trap gate for the
  breakpoint, interrupt gates otherwise): the exceptions at 0 to 19, the keyboard at 0x30 and the
  interprocessor interrupt at 0xff; every other gate is absent. The operand of \<^verbatim>\<open>lidt\<close> describes the
  4096 bytes of the table.\<close>

theorem idt_init_installs_handlers:
  assumes "idt_bytes s = IDTStructure_init"
  shows "\<exists>s' operand. idt_init a idt_address s = Some s' \<and>
    (\<forall>v < 256. case vector_gate a v of
         Some g \<Rightarrow> hw_read_gate (idt_bytes s') v = hw_gate_for g
       | None \<Rightarrow> \<not> hw_present (hw_read_gate (idt_bytes s') v)) \<and>
    io_trace s' = io_trace s @ [Lidt operand] \<and> hw_table_operand operand = (4095, idt_address)"
proof -
  have len: "length (idt_bytes s) = 4096"
    using assms by (simp add: IDTStructure_init_def IDTStructure_size_def gate_size_def num_gates_def)
  obtain t1 where t1: "load_gates 0 (system_idt_descriptors a) (idt_bytes s) = Some t1" "length t1 = 4096"
      "\<And>v. hw_read_gate t1 v = (if v < 20 then hw_gate_for (system_idt_descriptors a ! v) else hw_read_gate (idt_bytes s) v)"
    using load_gates_reads_back [of 0 "system_idt_descriptors a", OF _ len] by auto
  obtain t2 where t2: "load_gates 0x30 (user_idt_descriptors a) t1 = Some t2" "length t2 = 4096"
      "\<And>v. hw_read_gate t2 v = (if v = 0x30 then hw_gate_for (kernel_gate a isr_keyboard Gate_interrupt) else hw_read_gate t1 v)"
    using load_gates_reads_back [of "0x30" "user_idt_descriptors a", OF _ t1(2)]
    by (auto simp: user_idt_descriptors_def)
  obtain t3 where t3: "load_gate_descriptor 0xff (kernel_gate a isr_interprocessor_interrupt Gate_interrupt) t2 = Some t3"
      "\<And>v. hw_read_gate t3 v = (if v = 0xff then hw_gate_for (kernel_gate a isr_interprocessor_interrupt Gate_interrupt)
         else hw_read_gate t2 v)"
    using load_gate_reads_back [of "0xff" t2, OF _ t2(2)] by (auto simp: num_gates_def)
  have zero: "\<not> hw_present (hw_read_gate (idt_bytes s) v)" if "v < 256" for v
    using that by (simp add: assms hw_read_gate_def hw_gate_of_def IDTStructure_init_def IDTStructure_size_def
        gate_size_def num_gates_def)
  have "hw_table_operand (TableDescriptor_init IDTStructure_size idt_address) = (4095, idt_address)"
    by (simp add: table_operand IDTStructure_size_def gate_size_def num_gates_def)
  then show ?thesis
    using t1(1,3) t2(1,3) t3 zero by (auto simp: idt_init_def vector_gate_def emit_def)
qed

definition example_interrupts :: interrupt_state where
  "example_interrupts = apic_state.extend example_acpi
     \<lparr>idt_bytes = IDTStructure_init, keyboardBuffer = CircularQueue_init (replicate 256 7), extended = False,
      terminal = Optional_init (Terminal_init blank_lines small_screen (terminalFont (\<lambda>_. 0)))\<rparr>"

lemma example_interrupts_simps [simp]:
  "idt_bytes example_interrupts = IDTStructure_init" "extended example_interrupts = False"
  "keyboardBuffer example_interrupts = CircularQueue_init (replicate 256 7)"
  "io_trace example_interrupts = []" "lapic_baseAddress example_interrupts = 0"
  by (simp_all add: example_interrupts_def apic_state.defs example_acpi_def io_state.defs example_io_def
      paging_state.defs)

theorem idt_init_installs_handlers_witness:
  "\<exists>s'. idt_init (\<lambda>i. if i = isr_keyboard then 0x1234 else 0) 0x9000 example_interrupts = Some s' \<and>
    hw_offset (hw_read_gate (idt_bytes s') 0x30) = 0x1234 \<and> \<not> hw_present (hw_read_gate (idt_bytes s') 0x20)"
proof -
  let ?a = "\<lambda>i. if i = isr_keyboard then 0x1234 else 0 :: u64"
  obtain s' where s': "idt_init ?a 0x9000 example_interrupts = Some s'"
      "\<forall>v < 256. case vector_gate ?a v of Some g \<Rightarrow> hw_read_gate (idt_bytes s') v = hw_gate_for g
         | None \<Rightarrow> \<not> hw_present (hw_read_gate (idt_bytes s') v)"
    using idt_init_installs_handlers [of example_interrupts ?a "0x9000"] by auto
  show ?thesis
    using s'(1) s'(2) [rule_format, of "0x30"] s'(2) [rule_format, of "0x20"]
    by (simp add: vector_gate_def hw_gate_for_def kernel_gate_def)
qed

section \<open>The keyboard\<close>

text \<open>Interrupts of the keyboard, one after the other.\<close>

fun keyboard_irqs :: "devices \<Rightarrow> nat \<Rightarrow> interrupt_state \<Rightarrow> interrupt_state res" where
  "keyboard_irqs d 0 s = ret s"
| "keyboard_irqs d (Suc n) s = res_bind (run_isr d 0 isr_keyboard s) (keyboard_irqs d n)"

text \<open>The scan codes the device gives, and what the device sees of an interrupt: the data port is read,
  and the local APIC at \<open>base\<close> is told of the end.\<close>

fun irq_codes :: "devices \<Rightarrow> u64 \<Rightarrow> nat \<Rightarrow> io_event list \<Rightarrow> u8 list" where
  "irq_codes d base 0 tr = []"
| "irq_codes d base (Suc n) tr =
     (let c = port_in d tr 0x60 in c # irq_codes d base n (tr @ [Inb 0x60 c, MmioWrite (base + 0xb0) 0]))"

fun decode :: "bool \<Rightarrow> u8 list \<Rightarrow> Key list \<times> bool" where
  "decode ext [] = ([], ext)"
| "decode ext (c # cs) =
     (let (k, ext) = scancode_to_key c ext; (ks, ext) = decode ext cs in (k # ks, ext))"

lemma run_isr_keyboard_simp:
  "run_isr d cr2 isr_keyboard s =
    (let c = port_in d (io_trace s) 0x60
     in ret (s\<lparr>io_trace := io_trace s @ [Inb 0x60 c, MmioWrite (lapic_baseAddress s + 0xb0) 0],
               extended := snd (scancode_to_key c (extended s)),
               keyboardBuffer := keyboard_put (fst (scancode_to_key c (extended s))) (keyboardBuffer s)\<rparr>))"
  by (simp add: run_isr_keyboard_def inb_def emit_def Let_def case_prod_unfold sendEndOfInterrupt_def
      lapic_write_def mmio_write_def LAPIC_EOI_REGISTER_def)

abbreviation buffered :: "interrupt_state \<Rightarrow> Key list" where
  "buffered s \<equiv> queue_contents s_maxSize (keyboardBuffer s)"

lemma take_snoc_256: "take 256 (xs @ y # ys) = take 256 ((if length xs < 256 then xs @ [y] else xs) @ ys)"
  if "length xs \<le> 256"
proof (cases "length xs < 256")
  case True
  then have "256 - length xs = Suc (255 - length xs)" by simp
  then show ?thesis using True by simp
next
  case False
  then show ?thesis using that by simp
qed

lemma keyboard_irqs_buffer:
  assumes "queue_inv s_maxSize (keyboardBuffer s)" and "codes = irq_codes d (lapic_baseAddress s) n (io_trace s)"
  shows "\<exists>s'. keyboard_irqs d n s = ret s' \<and>
    buffered s' = take 256 (buffered s @ fst (decode (extended s) codes)) \<and>
    extended s' = snd (decode (extended s) codes) \<and>
    io_trace s' = io_trace s @ concat (map (\<lambda>c. [Inb 0x60 c, MmioWrite (lapic_baseAddress s + 0xb0) 0]) codes)"
  unfolding assms(2) using assms(1)
proof (induction n arbitrary: s)
  case 0
  then have "length (buffered s) \<le> 256" by (simp add: queue_inv_def s_maxSize_def word_le_nat_alt)
  then show ?case using 0 by simp
next
  case (Suc n)
  define c where "c = port_in d (io_trace s) 0x60"
  define s1 where "s1 = s\<lparr>io_trace := io_trace s @ [Inb 0x60 c, MmioWrite (lapic_baseAddress s + 0xb0) 0],
               extended := snd (scancode_to_key c (extended s)),
               keyboardBuffer := keyboard_put (fst (scancode_to_key c (extended s))) (keyboardBuffer s)\<rparr>"
  have run: "run_isr d 0 isr_keyboard s = ret s1"
    by (simp add: run_isr_keyboard_simp s1_def c_def Let_def del: run_isr.simps)
  have inv: "queue_inv s_maxSize (keyboardBuffer s1)"
    using ring.invar_enq [OF Suc.prems] by (simp add: s1_def keyboard_put_def)
  have len: "length (buffered s) \<le> 256"
    using Suc.prems by (simp add: queue_inv_def s_maxSize_def word_le_nat_alt)
  have b1: "buffered s1 = (if length (buffered s) < 256
      then buffered s @ [fst (scancode_to_key c (extended s))] else buffered s)"
    using ring.contents_enq [OF Suc.prems] by (simp add: s1_def keyboard_put_def s_maxSize_def)
  define codes where "codes = irq_codes d (lapic_baseAddress s1) n (io_trace s1)"
  have codes: "irq_codes d (lapic_baseAddress s) (Suc n) (io_trace s) = c # codes"
    by (simp add: codes_def s1_def c_def Let_def)
  obtain s' where s': "keyboard_irqs d n s1 = ret s'" "buffered s' = take 256 (buffered s1 @ fst (decode (extended s1) codes))"
      "extended s' = snd (decode (extended s1) codes)"
      "io_trace s' = io_trace s1 @ concat (map (\<lambda>c. [Inb 0x60 c, MmioWrite (lapic_baseAddress s1 + 0xb0) 0]) codes)"
    using Suc.IH [OF inv] unfolding codes_def by blast
  have dec: "fst (decode (extended s) (c # codes)) = fst (scancode_to_key c (extended s)) # fst (decode (extended s1) codes)"
    "snd (decode (extended s) (c # codes)) = snd (decode (extended s1) codes)"
    by (simp_all add: s1_def case_prod_unfold Let_def)
  have "buffered s' = take 256 (buffered s @ fst (decode (extended s) (c # codes)))"
    unfolding s'(2) b1 dec using take_snoc_256 [OF len] by simp
  moreover have "io_trace s1 = io_trace s @ [Inb 0x60 c, MmioWrite (lapic_baseAddress s + 0xb0) 0]"
    "lapic_baseAddress s1 = lapic_baseAddress s" by (simp_all add: s1_def)
  ultimately show ?case unfolding codes keyboard_irqs.simps run using s' dec by simp
qed

text \<open>C21. Any number of keyboard interrupts return. Each reads one scan code and signals the end of the
  interrupt once; the decoded keys are put behind those in the buffer, in order, one per scan code (also
  for a release, as the key \<^verbatim>\<open>None\<close>), up to 256 keys: when the buffer is full it is the newest key that
  is lost.\<close>

theorem keyboard_interrupts_buffer_keys:
  assumes "queue_inv s_maxSize (keyboardBuffer s)" and "codes = irq_codes d (lapic_baseAddress s) n (io_trace s)"
  shows "\<exists>s'. keyboard_irqs d n s = ret s' \<and>
    queue_contents s_maxSize (keyboardBuffer s')
      = take 256 (queue_contents s_maxSize (keyboardBuffer s) @ fst (decode (extended s) codes)) \<and>
    extended s' = snd (decode (extended s) codes) \<and>
    io_trace s' = io_trace s @ concat (map (\<lambda>c. [Inb 0x60 c, MmioWrite (lapic_baseAddress s + 0xb0) 0]) codes)"
  by (rule keyboard_irqs_buffer [OF assms])

text \<open>A device whose data port holds the code of the key \<open>a\<close>, pressed and held.\<close>

theorem keyboard_interrupts_buffer_keys_witness:
  "\<exists>s'. keyboard_irqs (example_devices\<lparr>port_in := (\<lambda>_ _. 0x1e)\<rparr>) 3 example_interrupts = ret s' \<and>
    queue_contents s_maxSize (keyboardBuffer s') = [97, 97, 97]"
proof -
  have inv: "queue_inv s_maxSize (keyboardBuffer example_interrupts)"
    by (simp add: queue_inv_def CircularQueue_init_def s_maxSize_def)
  have "scancode_to_key 0x1e False = (97, False)"
    by (simp add: scancode_to_key_def scancode_to_ascii_def ascii_def)
  then show ?thesis
    using keyboard_interrupts_buffer_keys [OF inv refl, of "example_devices\<lparr>port_in := (\<lambda>_ _. 0x1e)\<rparr>" 3]
    by (auto simp: numeral_3_eq_3 Let_def queue_contents_def CircularQueue_init_def)
qed

lemma bit_8_numeral: "bit (0x80 :: u8) n \<longleftrightarrow> n = 7"
proof -
  have "(0x80 :: u8) = push_bit 7 1" by simp
  then show ?thesis by (simp only: bit_push_bit_iff bit_1_iff) auto
qed

lemma press_code:
  fixes k :: u8 assumes "k < 0x80" shows "k AND 0x80 = 0" and "k \<noteq> 0xE0"
proof -
  have "drop_bit 7 k = 0" using assms by (simp add: drop_bit_eq_div div_word_less)
  then have "\<not> bit (drop_bit 7 k) 0" by simp
  then have b: "\<not> bit k 7" by (simp add: bit_drop_bit_eq)
  have "\<not> bit (k AND 0x80) n" for n
    using b by (cases "n = 7") (simp_all only: bit_and_iff bit_8_numeral simp_thms)
  then show "k AND 0x80 = 0" by (simp add: bit_eq_iff)
  show "k \<noteq> 0xE0" using assms by auto
qed

lemma release_code:
  fixes k :: u8 assumes "k < 0x80" shows "(k OR 0x80) AND 0x80 \<noteq> 0" and "k OR 0x80 = 0xE0 \<Longrightarrow> k = 0x60"
proof -
  have "bit ((k OR 0x80) AND 0x80) 7" by (simp add: bit_and_iff bit_or_iff bit_8_numeral)
  then show "(k OR 0x80) AND 0x80 \<noteq> 0" by auto
  have "take_bit 7 k = k"
    using assms by (simp add: take_bit_eq_mod mod_word_less)
  moreover have "take_bit 7 (k OR 0x80) = take_bit 7 k"
    by (rule bit_word_eqI) (auto simp: bit_take_bit_iff bit_or_iff bit_8_numeral)
  ultimately show "k = 0x60" if "k OR 0x80 = 0xE0" using that by simp
qed

text \<open>Typed text is decoded: pressing and releasing keys that the table knows, one after the other,
  gives their characters in order, whatever the keys are, and no release is mistaken for the prefix of
  an extended key.\<close>

lemma typed_keys_are_decoded:
  assumes "\<forall>k \<in> set keys. k < 0x80 \<and> scancode_to_ascii ! unat k \<noteq> 0"
  shows "filter (\<lambda>k. k \<noteq> Key_None) (fst (decode False (concat (map (\<lambda>k. [k, k OR 0x80]) keys))))
      = map (\<lambda>k. sint (scancode_to_ascii ! unat k)) keys \<and>
    \<not> snd (decode False (concat (map (\<lambda>k. [k, k OR 0x80]) keys)))"
  using assms
proof (induction keys)
  case (Cons k keys)
  have k: "k < 0x80" "scancode_to_ascii ! unat k \<noteq> 0" using Cons.prems by simp_all
  have "scancode_to_ascii ! unat (0x60 :: u8) = 0" by (simp add: scancode_to_ascii_def ascii_def)
  then have "k \<noteq> 0x60" using k(2) by auto
  note code = press_code [OF k(1)] release_code [OF k(1)]
  have press: "scancode_to_key k False = (sint (scancode_to_ascii ! unat k), False)"
    using k code by (auto simp: scancode_to_key_def)
  have release: "scancode_to_key (k OR 0x80) False = (Key_None, False)"
    using \<open>k \<noteq> 0x60\<close> code by (auto simp: scancode_to_key_def)
  have "sint (scancode_to_ascii ! unat k) \<noteq> Key_None" using k(2) by (simp add: Key_None_def signed_eq_0_iff)
  then show ?case using Cons press release by (simp add: case_prod_unfold Let_def)
qed simp

lemma typed_keys_are_decoded_example:
  "filter (\<lambda>k. k \<noteq> Key_None) (fst (decode False [0x23, 0xa3, 0x17, 0x97])) = [104, 105]"
proof -
  have "scancode_to_ascii ! 0x23 = 104" "scancode_to_ascii ! 0x17 = 105"
    by (simp_all add: scancode_to_ascii_def ascii_def)
  then show ?thesis using typed_keys_are_decoded [of "[0x23, 0x17]"] by simp
qed

text \<open>Every key that the state machine gives is an enumerator of \<^verbatim>\<open>Key\<close>, but for the asterisk of the
  numeric block, which the table has and the enumeration has not.\<close>

lemma table_keys_named: "list_all (\<lambda>c. sint c = 42 \<or> sint c \<in> set Key_values) scancode_to_ascii"
  by (simp add: scancode_to_ascii_def Key_values_def ascii_def Key_defs) (simp add: list_all_iff)

lemma scancode_keys_named:
  "fst (scancode_to_key c ext) = 42 \<or> fst (scancode_to_key c ext) \<in> set Key_values"
proof -
  have "key = 42 \<or> key \<in> set Key_values" if "c < 128" "key = sint (scancode_to_ascii ! unat c)" for key
  proof -
    have "length scancode_to_ascii = 128" by (simp add: scancode_to_ascii_def ascii_def)
    then show ?thesis using table_keys_named that by (simp add: list_all_length word_less_nat_alt)
  qed
  moreover have "{Key_None, Key_UpArrow, Key_DownArrow, Key_LeftArrow, Key_RightArrow} \<subseteq> set Key_values"
    by (simp add: Key_values_def)
  ultimately show ?thesis by (auto simp: scancode_to_key_def)
qed

lemma asterisk_unnamed: "fst (scancode_to_key 0x37 False) = 42 \<and> 42 \<notin> set Key_values"
proof
  show "fst (scancode_to_key 0x37 False) = 42" by (simp add: scancode_to_key_def scancode_to_ascii_def ascii_def)
  have "list_all (\<lambda>k. k \<noteq> 42) Key_values"
    by (simp add: Key_values_def ascii_def Key_defs) (simp add: list_all_iff)
  then show "42 \<notin> set Key_values" by (auto simp: list_all_iff)
qed

text \<open>C34. The routines for exceptions other than the page fault panic; a routine that returns (page fault,
  keyboard, interprocessor interrupt) has, as its last access to a device, signalled the end of the
  interrupt to the local APIC.\<close>

theorem handlers_panic_or_acknowledge:
  "(i \<notin> {isr_page_fault, isr_keyboard, isr_interprocessor_interrupt} \<longrightarrow> (\<exists>m. run_isr d cr2 i s = kernel_panic m)) \<and>
   (run_isr d cr2 i s = ret s' \<longrightarrow> last (io_trace s') = MmioWrite (lapic_baseAddress s' + 0xb0) 0)"
proof -
  have eoi: "last (io_trace (sendEndOfInterrupt u)) = MmioWrite (lapic_baseAddress (sendEndOfInterrupt u) + 0xb0) 0"
    for u :: interrupt_state
    by (simp add: sendEndOfInterrupt_def lapic_write_def mmio_write_def emit_def LAPIC_EOI_REGISTER_def)
  show ?thesis
    by (cases i) (auto simp: exception_routines isr_panic_def run_isr_page_fault_def run_isr_interprocessor_def run_isr_keyboard_def
        Let_def case_prod_unfold res_bind_eq_ret eoi)
qed

theorem handlers_panic_or_acknowledge_witness:
  "run_isr example_devices 0 isr_divide_error example_interrupts = kernel_panic ''divide error\<newline>'' \<and>
   (\<exists>s'. run_isr example_devices 0 isr_keyboard example_interrupts = ret s' \<and>
     last (io_trace s') = MmioWrite (lapic_baseAddress s' + 0xb0) 0)"
proof -
  obtain s' where "run_isr example_devices 0 isr_keyboard example_interrupts = ret s'"
    by (simp add: run_isr_keyboard_def Let_def case_prod_unfold)
  then show ?thesis
    using handlers_panic_or_acknowledge [of isr_keyboard example_devices 0 example_interrupts s']
    by (simp add: exception_routines isr_panic_def del: run_isr.simps(22))
qed

end
