(* ===== verification/Shell.thy ===== *)
theory Shell
  imports Interrupts
begin

text \<open>
  The command line of \<^verbatim>\<open>kernel_main\<close> (\<^verbatim>\<open>main.cpp\<close>): an endless loop that takes keys from the keyboard
  buffer, edits a 256-byte array on the stack and runs commands. The array lies at the address
  \<open>input\<close> of the machine's memory and is not initialised. Keyboard interrupts arrive between any two
  iterations of the loop: \<open>shell_step\<close> interleaves them.
\<close>

section \<open>Commands\<close>

definition store8 :: "u64 \<Rightarrow> u8 \<Rightarrow> 'z machine_scheme \<Rightarrow> 'z machine_scheme" where
  "store8 p v s = s\<lparr>mem := (mem s)(cell_of (hhdm_offset s) p := v)\<rparr>"

text \<open>\<^verbatim>\<open>kpp::printf\<close> with the arguments in a list of slots.\<close>

definition shell_printf :: "u8 list \<Rightarrow> u64 list \<Rightarrow> interrupt_state \<Rightarrow> interrupt_state res" where
  "shell_printf format args s =
     res_bind (kpp_printf (load8 s) format (\<lambda>n. if n < length args then args ! n else 0) (terminal s))
       (\<lambda>(written, inst). ret (s\<lparr>terminal := inst\<rparr>))"

definition shell_putchar :: "int \<Rightarrow> interrupt_state \<Rightarrow> interrupt_state res" where
  "shell_putchar ic s = res_bind (kpp_putchar ic (terminal s)) (\<lambda>(r, inst). ret (s\<lparr>terminal := inst\<rparr>))"

text \<open>An endless loop around \<^verbatim>\<open>hlt\<close>.\<close>

partial_function (option) kernel_hang :: "unit \<Rightarrow> 'a res" where
  "kernel_hang u = kernel_hang u"

text \<open>A call on the terminal object.\<close>

definition on_terminal :: "(Terminal \<Rightarrow> Terminal res) \<Rightarrow> interrupt_state \<Rightarrow> interrupt_state res" where
  "on_terminal f s =
     res_bind (f (Optional_deref (terminal s))) (\<lambda>t. ret (s\<lparr>terminal := (terminal s)\<lparr>buffer := t\<rparr>\<rparr>))"

definition handle_command :: "u64 \<Rightarrow> int \<Rightarrow> interrupt_state \<Rightarrow> interrupt_state res" where
  "handle_command input len s =
     (if len = 0 then ret s
      else if strncmp_literal s input (ascii ''help'') = 0
      then res_bind (shell_printf (ascii ''Available commands:\<newline>'') [] s) (\<lambda>s.
           res_bind (shell_printf (ascii ''  help - Show this help message\<newline>'') [] s) (\<lambda>s.
           res_bind (shell_printf (ascii ''  echo <message> - Echo the message back\<newline>'') [] s)
             (shell_printf (ascii ''  exit - Exit the shell\<newline>'') [])))
      else if strncmp_literal s input (ascii ''echo '') = 0
      then shell_printf (ascii ''%s\<newline>'') [input + 5] s
      else if strncmp_literal s input (ascii ''exit'') = 0
      then res_bind (shell_printf (ascii ''Exiting shell...\<newline>'') [] s) (\<lambda>s. kernel_hang ())
      else if strncmp_literal s input (ascii ''clear'') = 0
      then on_terminal Terminal_clear s
      else shell_printf (ascii ''Unknown command: %s\<newline>'') [input] s)"

section \<open>One iteration of the input loop\<close>

text \<open>The result tells whether the line is finished.\<close>

definition shell_key :: "u64 \<Rightarrow> int \<Rightarrow> interrupt_state \<Rightarrow> (bool \<times> int \<times> interrupt_state) res" where
  "shell_key input pos s =
     (let (key, q) = keyboard_get (keyboardBuffer s);
          s = s\<lparr>keyboardBuffer := q\<rparr>
      in if key = Key_enter
         then res_bind (shell_putchar 10 s) (\<lambda>s. ret (True, pos, store8 (input + word_of_int pos) 0 s))
         else if key = Key_backspace
         then if pos > 0
              then let pos = pos - 1 in res_bind (shell_printf [8, 32, 8] [] s) (\<lambda>s. ret (False, pos, s))
              else ret (False, pos, s)
         else if key = Key_LeftArrow
         then ret (False, if pos > 0 then pos - 1 else pos, s)
         else if key = Key_RightArrow
         then ret (False, if pos < 256 - 1 \<and> load8 s (input + word_of_int pos) \<noteq> 0 then pos + 1 else pos, s)
         else if key = Key_UpArrow \<or> key = Key_DownArrow
         then res_bind (on_terminal (Terminal_scrollDown (if key = Key_UpArrow then -1 else 1)) s) (\<lambda>s. ret (False, pos, s))
         else if key \<noteq> Key_None \<and> pos < 256 - 1
         then let c = word_of_int key :: u8;
                  s = store8 (input + word_of_int pos) c s
              in res_bind (shell_putchar (sint c) s) (\<lambda>s. ret (False, pos + 1, s))
         else ret (False, pos, s))"

definition shell_prompt :: "interrupt_state \<Rightarrow> interrupt_state res" where
  "shell_prompt s = shell_printf (ascii ''davOS> '') [] s"

section \<open>The loop and the keyboard interrupt\<close>

inductive shell_step :: "devices \<Rightarrow> u64 \<Rightarrow> int \<times> interrupt_state \<Rightarrow> int \<times> interrupt_state \<Rightarrow> bool"
  for d input where
  irq: "run_isr d 0 isr_keyboard s = ret s' \<Longrightarrow> shell_step d input (pos, s) (pos, s')"
| key: "shell_key input pos s = ret (False, pos', s') \<Longrightarrow> shell_step d input (pos, s) (pos', s')"
| line: "shell_key input pos s = ret (True, pos', s1) \<Longrightarrow> handle_command input pos' s1 = ret s2 \<Longrightarrow>
    shell_prompt s2 = ret s3 \<Longrightarrow> shell_step d input (pos, s) (0, s3)"

inductive_cases shell_stepE: "shell_step d input c c'"

section \<open>The array is not left\<close>

text \<open>Output changes the terminal only.\<close>

lemma output_changes_terminal:
  "shell_printf format args s = ret s' \<Longrightarrow> \<exists>inst. s' = s\<lparr>terminal := inst\<rparr>"
  "shell_putchar c s = ret s' \<Longrightarrow> \<exists>inst. s' = s\<lparr>terminal := inst\<rparr>"
  "on_terminal f s = ret s' \<Longrightarrow> \<exists>inst. s' = s\<lparr>terminal := inst\<rparr>"
  "shell_prompt s = ret s' \<Longrightarrow> \<exists>inst. s' = s\<lparr>terminal := inst\<rparr>"
  by (auto simp: shell_printf_def shell_putchar_def on_terminal_def shell_prompt_def res_bind_eq_ret)

lemma kernel_hang_not_ret: "kernel_hang u \<noteq> ret x"
proof
  assume "kernel_hang u = ret x"
  then have "kernel_hang u = Some (Inr x)" by (simp add: ret_def)
  then have "False" by (rule kernel_hang.raw_induct [rotated]) blast
  then show False .
qed

lemma handle_command_changes_terminal:
  assumes "handle_command input n s = ret s'" shows "\<exists>inst. s' = s\<lparr>terminal := inst\<rparr>"
proof -
  have trans: "\<exists>inst. c = a\<lparr>terminal := inst\<rparr>"
    if "\<exists>inst. b = a\<lparr>terminal := inst\<rparr>" "\<exists>inst. c = b\<lparr>terminal := inst\<rparr>" for a b c :: interrupt_state
    using that by auto
  show ?thesis
    using assms
    by (auto simp: handle_command_def res_bind_eq_ret kernel_hang_not_ret split: if_splits
        intro: trans exI [of _ "terminal s"] dest!: output_changes_terminal)
qed

text \<open>The bytes of the array.\<close>

definition in_array :: "u64 \<Rightarrow> interrupt_state \<Rightarrow> u64 \<Rightarrow> bool" where
  "in_array input s p \<longleftrightarrow> (\<exists>i < 256. p = cell_of (hhdm_offset s) (input + of_nat i))"

definition array_only :: "u64 \<Rightarrow> interrupt_state \<Rightarrow> interrupt_state \<Rightarrow> bool" where
  "array_only input s s' \<longleftrightarrow> hhdm_offset s' = hhdm_offset s \<and> idt_bytes s' = idt_bytes s \<and>
     (\<forall>p. \<not> in_array input s p \<longrightarrow> mem s' p = mem s p)"

lemma array_only_trans: "array_only input a b \<Longrightarrow> array_only input b c \<Longrightarrow> array_only input a c"
  by (simp add: array_only_def in_array_def)

lemma array_only_simps [simp]:
  "array_only input s s" "array_only input s (s'\<lparr>terminal := inst\<rparr>) = array_only input s s'"
  "array_only input s (s'\<lparr>keyboardBuffer := q\<rparr>) = array_only input s s'"
  by (simp_all add: array_only_def)

lemma array_only_store:
  assumes "0 \<le> pos" and "pos \<le> 255" and "array_only input s s'"
  shows "array_only input s (store8 (input + word_of_int pos) c s')"
proof -
  have "word_of_int pos = (of_nat (nat pos) :: u64)" using assms(1) by (metis int_nat_eq of_int_of_nat_eq)
  then have "in_array input s (cell_of (hhdm_offset s) (input + word_of_int pos))"
    using assms(1,2) by (auto simp: in_array_def intro!: exI [of _ "nat pos"])
  then show ?thesis using assms(3) by (auto simp: array_only_def store8_def)
qed

lemma shell_key_bounds:
  assumes "shell_key input pos s = ret (fin, pos', s')" and "0 \<le> pos" and "pos \<le> 255"
  shows "0 \<le> pos' \<and> pos' \<le> 255 \<and> array_only input s s'"
proof -
  have store: "array_only input s (store8 (input + word_of_int pos) c (s\<lparr>keyboardBuffer := q\<rparr>))" for c q
    using assms(2,3) by (intro array_only_store) simp_all
  have store': "array_only input s (store8 (input + word_of_int pos) c (s\<lparr>keyboardBuffer := q, terminal := inst\<rparr>))" for c q inst
    using assms(2,3) by (intro array_only_store) simp_all
  show ?thesis
    using assms(1,2,3) store store'
    by (auto simp: shell_key_def case_prod_unfold Let_def res_bind_eq_ret split: if_splits
        dest!: output_changes_terminal)
qed

lemma shell_step_bounds:
  assumes "shell_step d input (pos, s) (pos', s')" and "0 \<le> pos" and "pos \<le> 255"
  shows "0 \<le> pos' \<and> pos' \<le> 255 \<and> array_only input s s'"
  using assms(1)
proof (cases rule: shell_step.cases)
  case irq
  then show ?thesis
    using assms(2,3) by (auto simp: run_isr_keyboard_simp Let_def array_only_def simp del: run_isr.simps)
next
  case key
  then show ?thesis using shell_key_bounds assms(2,3) by blast
next
  case (line p s1 s2)
  then have "array_only input s s1" using shell_key_bounds [OF _ assms(2,3)] by blast
  then show ?thesis
    using line handle_command_changes_terminal output_changes_terminal(4) by fastforce
qed

text \<open>C17. The command line stays within its array: however keys, commands and keyboard interrupts
  interleave, the position is between 0 and 255 and no byte of memory outside of the 256 bytes of the
  array has changed.\<close>

theorem shell_stays_in_array:
  assumes "(shell_step d input)\<^sup>*\<^sup>* (0, s) (pos, s')"
  shows "0 \<le> pos \<and> pos \<le> 255 \<and>
    (\<forall>p. (\<forall>i < 256. p \<noteq> cell_of (hhdm_offset s) (input + of_nat i)) \<longrightarrow> mem s' p = mem s p)"
proof -
  have "0 \<le> fst c \<and> fst c \<le> 255 \<and> array_only input s (snd c)" if "(shell_step d input)\<^sup>*\<^sup>* (0, s) c" for c
    using that
  proof (induction rule: rtranclp_induct)
    case (step b c)
    then show ?case
      using shell_step_bounds [of d input "fst b" "snd b" "fst c" "snd c"] array_only_trans by auto
  qed simp
  from this [OF assms] show ?thesis by (auto simp: array_only_def in_array_def)
qed

section \<open>Typing a line\<close>

text \<open>Iterations of the input loop up to the end of the line.\<close>

fun shell_iterate :: "u64 \<Rightarrow> nat \<Rightarrow> int \<Rightarrow> interrupt_state \<Rightarrow> (bool \<times> int \<times> interrupt_state) res" where
  "shell_iterate input 0 pos s = ret (False, pos, s)"
| "shell_iterate input (Suc n) pos s =
     res_bind (shell_key input pos s) (\<lambda>(fin, pos, s).
       if fin then ret (True, pos, s) else shell_iterate input n pos s)"

lemma shell_iterate_add:
  "shell_iterate input m pos s = ret (False, pos1, s1) \<Longrightarrow>
    shell_iterate input (m + n) pos s = shell_iterate input n pos1 s1"
proof (induction m arbitrary: pos s)
  case (Suc m)
  then show ?case by (auto simp: res_bind_eq_ret split: if_splits)
qed simp

text \<open>Keys waiting in the buffer.\<close>

definition waiting :: "Key list \<Rightarrow> interrupt_state \<Rightarrow> bool" where
  "waiting ks s \<longleftrightarrow> queue_inv s_maxSize (keyboardBuffer s) \<and> queue_contents s_maxSize (keyboardBuffer s) = ks"

lemma waiting_get:
  assumes "waiting (k # ks) s"
  obtains q where "keyboard_get (keyboardBuffer s) = (k, q)" "queue_inv s_maxSize q" "queue_contents s_maxSize q = ks"
proof -
  have inv: "queue_inv s_maxSize (keyboardBuffer s)" "queue_contents s_maxSize (keyboardBuffer s) = k # ks"
    using assms by (simp_all add: waiting_def)
  show ?thesis
    using that [of "snd (dequeue s_maxSize Key_None (keyboardBuffer s))"]
      ring.deq_item [OF inv(1), of Key_None] ring.contents_deq [OF inv(1), of Key_None] ring.invar_deq [OF inv(1), of Key_None]
    by (simp add: inv(2) keyboard_get_def prod_eq_iff)
qed

abbreviation screen :: "interrupt_state \<Rightarrow> Terminal" where
  "screen s \<equiv> buffer (terminal s)"

abbreviation screen_text :: "interrupt_state \<Rightarrow> LineBuffer" where
  "screen_text s \<equiv> m_lineBuffer (screen s)"

text \<open>Formatted output on a terminal with room for it, and a message without directives.\<close>

lemma shell_printf_render:
  assumes "render (load8 s) (\<lambda>n. if n < length args then args ! n else 0) (takeWhile (\<lambda>b. b \<noteq> 0) format) 0 = ret out"
    and "room_for (out @ cs) (screen s)"
  shows "\<exists>t. shell_printf format args s = ret (s\<lparr>terminal := (terminal s)\<lparr>buffer := t\<rparr>\<rparr>) \<and> room_for cs t \<and>
    m_lineBuffer t = lb_write_all out (screen_text s)"
proof -
  obtain t where "Terminal_write_string out (screen s) = ret t" "room_for cs t"
    "m_lineBuffer t = lb_write_all out (screen_text s)"
    using write_string_room [OF assms(2)] by blast
  then show ?thesis
    using console.vprintf_loop_emits [OF assms(1)]
    by (auto simp: shell_printf_def kpp_printf_def vprintf_def emits_def put_terminal_fold)
qed

definition plain_text :: "u8 list \<Rightarrow> bool" where
  "plain_text cs \<longleftrightarrow> list_all (\<lambda>c. c \<noteq> 0 \<and> c \<noteq> 37) cs"

lemma shell_printf_plain:
  assumes "plain_text xs" "room_for (xs @ ys) (screen s)"
  shows "\<exists>t. shell_printf xs args s = ret (s\<lparr>terminal := (terminal s)\<lparr>buffer := t\<rparr>\<rparr>) \<and> room_for ys t \<and>
    m_lineBuffer t = lb_write_all xs (screen_text s)"
proof -
  have xs: "takeWhile (\<lambda>b. b \<noteq> 0) xs = xs" "37 \<notin> set xs"
    using assms(1) by (auto simp: plain_text_def list_all_iff)
  have "render m args' (takeWhile (\<lambda>b. b \<noteq> 0) xs) 0 = ret xs" for m args'
    unfolding xs(1) using render_plain [OF xs(2), of m args' "[]" 0] by simp
  then show ?thesis by (rule shell_printf_render [OF _ assms(2)])
qed

definition printable :: "Key \<Rightarrow> bool" where
  "printable k \<longleftrightarrow> 32 \<le> k \<and> k < 127"

lemma putchar_room:
  assumes "room_for (word_of_int c # cs) (screen s)"
  shows "\<exists>inst. shell_putchar c s = ret (s\<lparr>terminal := inst\<rparr>) \<and> room_for cs (buffer inst) \<and>
    m_lineBuffer (buffer inst) = lb_write_all [word_of_int c] (screen_text s)"
  using room_for_write [OF assms] by (auto simp: shell_putchar_def kpp_putchar_def Optional_deref_def Let_def lb_write_all_def)

lemma type_key:
  assumes w: "waiting (k # ks) s" and k: "printable k" and pos: "pos < 255"
    and room: "room_for (word_of_int k # cs) (screen s)"
  shows "\<exists>s'. shell_key input pos s = ret (False, pos + 1, s') \<and> waiting ks s' \<and> room_for cs (screen s') \<and>
    screen_text s' = lb_write_all [word_of_int k] (screen_text s) \<and> hhdm_offset s' = hhdm_offset s \<and>
    mem s' = (mem s)(cell_of (hhdm_offset s) (input + word_of_int pos) := word_of_int k)"
proof -
  obtain q where q: "keyboard_get (keyboardBuffer s) = (k, q)" "queue_inv s_maxSize q" "queue_contents s_maxSize q = ks"
    using waiting_get [OF w] .
  define s1 where "s1 = store8 (input + word_of_int pos) (word_of_int k) (s\<lparr>keyboardBuffer := q\<rparr>)"
  have "room_for (word_of_int (sint (word_of_int k :: u8)) # cs) (screen s1)"
    using room by (simp add: s1_def store8_def)
  then obtain inst where out: "shell_putchar (sint (word_of_int k :: u8)) s1 = ret (s1\<lparr>terminal := inst\<rparr>)" "room_for cs (buffer inst)"
      "m_lineBuffer (buffer inst) = lb_write_all [word_of_int k] (screen_text s)"
    using putchar_room [of "sint (word_of_int k :: u8)" cs s1] by (auto simp: s1_def store8_def)
  have "shell_key input pos s = ret (False, pos + 1, s1\<lparr>terminal := inst\<rparr>)"
    using k pos out(1) unfolding shell_key_def q(1) by (simp add: printable_def Key_defs s1_def Let_def)
  then show ?thesis using q(2,3) out(2,3) by (simp add: waiting_def s1_def store8_def)
qed

text \<open>The array holds the text typed so far.\<close>

definition typed :: "u64 \<Rightarrow> Key list \<Rightarrow> interrupt_state \<Rightarrow> bool" where
  "typed input ks s \<longleftrightarrow> (\<forall>i < length ks. load8 s (input + of_nat i) = word_of_int (ks ! i))"

text \<open>The array is not reached through the direct map.\<close>

definition own_array :: "u64 \<Rightarrow> interrupt_state \<Rightarrow> bool" where
  "own_array input s \<longleftrightarrow> (\<forall>i < 256. cell_of (hhdm_offset s) (input + of_nat i) = input + of_nat i)"

lemma array_index_inj:
  fixes input :: u64
  assumes "i < 256" and "j < 256" shows "input + of_nat i = input + of_nat j \<longleftrightarrow> i = j"
proof -
  have "unat (of_nat i :: u64) = i" "unat (of_nat j :: u64) = j" using assms by (simp_all add: unat_of_nat_256)
  then have "(of_nat i :: u64) = of_nat j \<longleftrightarrow> i = j" by metis
  then show ?thesis by simp
qed

text \<open>A key \<^verbatim>\<open>None\<close>, which stands for a release or a prefix, is taken from the buffer and skipped.\<close>

abbreviation strokes :: "Key list \<Rightarrow> Key list" where
  "strokes ks \<equiv> filter (\<lambda>k. k \<noteq> Key_None) ks"

lemma none_key:
  assumes "waiting (Key_None # ks) s"
  shows "\<exists>q. shell_key input pos s = ret (False, pos, s\<lparr>keyboardBuffer := q\<rparr>) \<and> waiting ks (s\<lparr>keyboardBuffer := q\<rparr>)"
proof -
  obtain q where q: "keyboard_get (keyboardBuffer s) = (Key_None, q)" "queue_inv s_maxSize q" "queue_contents s_maxSize q = ks"
    using waiting_get [OF assms] .
  have "shell_key input pos s = ret (False, pos, s\<lparr>keyboardBuffer := q\<rparr>)"
    unfolding shell_key_def q(1) by (simp add: Key_defs)
  moreover have "waiting ks (s\<lparr>keyboardBuffer := q\<rparr>)" using q(2,3) by (simp add: waiting_def)
  ultimately show ?thesis by blast
qed

lemma type_keys:
  assumes "waiting (ks @ rest) s" and "list_all printable (strokes ks)" and "length old + length (strokes ks) \<le> 255"
    and "room_for (map word_of_int (strokes ks) @ cs) (screen s)" and "own_array input s" and "typed input old s"
  shows "\<exists>s'. shell_iterate input (length ks) (int (length old)) s = ret (False, int (length old + length (strokes ks)), s') \<and>
    waiting rest s' \<and> room_for cs (screen s') \<and> hhdm_offset s' = hhdm_offset s \<and> typed input (old @ strokes ks) s' \<and>
    screen_text s' = lb_write_all (map word_of_int (strokes ks)) (screen_text s)"
  using assms
proof (induction ks arbitrary: old s)
  case (Cons k ks)
  show ?case
  proof (cases "k = Key_None")
    case True
    then obtain q where q: "shell_key input (int (length old)) s = ret (False, int (length old), s\<lparr>keyboardBuffer := q\<rparr>)"
        "waiting (ks @ rest) (s\<lparr>keyboardBuffer := q\<rparr>)"
      using none_key [of "ks @ rest" s input "int (length old)"] Cons.prems(1) by auto
    then show ?thesis
      using Cons.IH [OF q(2), of old] Cons.prems True by (simp add: own_array_def typed_def load8_def)
  next
    case False
    then obtain s1 where s1: "shell_key input (int (length old)) s = ret (False, int (length old) + 1, s1)" "waiting (ks @ rest) s1"
        "room_for (map word_of_int (strokes ks) @ cs) (screen s1)" "hhdm_offset s1 = hhdm_offset s"
        "screen_text s1 = lb_write_all [word_of_int k] (screen_text s)"
        "mem s1 = (mem s)(cell_of (hhdm_offset s) (input + word_of_int (int (length old))) := word_of_int k)"
      using type_key [of k "ks @ rest" s "int (length old)" "map word_of_int (strokes ks) @ cs" input] Cons.prems by auto
    have own: "own_array input s1" using Cons.prems(5) s1(4) by (simp add: own_array_def)
    have "typed input (old @ [k]) s1"
      using Cons.prems(3,5,6) s1(4,6) array_index_inj [of _ "length old" input] False
      by (auto simp: typed_def own_array_def load8_def nth_append less_Suc_eq)
    then have "\<exists>s'. shell_iterate input (length ks) (int (length (old @ [k]))) s1
          = ret (False, int (length (old @ [k]) + length (strokes ks)), s') \<and>
        waiting rest s' \<and> room_for cs (screen s') \<and> hhdm_offset s' = hhdm_offset s1 \<and> typed input ((old @ [k]) @ strokes ks) s' \<and>
        screen_text s' = lb_write_all (map word_of_int (strokes ks)) (screen_text s1)"
      using Cons.prems own s1 False by (intro Cons.IH) auto
    then show ?thesis using s1(1,4,5) False by (simp add: add.commute lb_write_all_def)
  qed
qed (simp add: lb_write_all_def)

lemma left_keys:
  assumes "waiting (ks @ rest) s" and "list_all (\<lambda>k. k = Key_LeftArrow) (strokes ks)" and "int (length (strokes ks)) \<le> pos"
  shows "\<exists>s'. shell_iterate input (length ks) pos s = ret (False, pos - int (length (strokes ks)), s') \<and> waiting rest s' \<and>
    hhdm_offset s' = hhdm_offset s \<and> mem s' = mem s \<and> terminal s' = terminal s"
  using assms
proof (induction ks arbitrary: pos s)
  case (Cons k ks)
  show ?case
  proof (cases "k = Key_None")
    case True
    then obtain q where q: "shell_key input pos s = ret (False, pos, s\<lparr>keyboardBuffer := q\<rparr>)"
        "waiting (ks @ rest) (s\<lparr>keyboardBuffer := q\<rparr>)"
      using none_key [of "ks @ rest" s input pos] Cons.prems(1) by auto
    then show ?thesis using Cons.IH [OF q(2)] Cons.prems True by simp
  next
    case False
    then have k: "k = Key_LeftArrow" using Cons.prems(2) by simp
    then have "waiting (Key_LeftArrow # ks @ rest) s" using Cons.prems(1) by simp
    then obtain q where q: "keyboard_get (keyboardBuffer s) = (Key_LeftArrow, q)" "queue_inv s_maxSize q"
        "queue_contents s_maxSize q = ks @ rest"
      by (rule waiting_get)
    have "shell_key input pos s = ret (False, pos - 1, s\<lparr>keyboardBuffer := q\<rparr>)"
      using Cons.prems(3) False unfolding shell_key_def q(1) by (simp add: Key_defs)
    moreover have "waiting (ks @ rest) (s\<lparr>keyboardBuffer := q\<rparr>)" using q by (simp add: waiting_def)
    ultimately show ?thesis
      using Cons.IH [of "s\<lparr>keyboardBuffer := q\<rparr>" "pos - 1"] Cons.prems(2,3) False by (simp add: algebra_simps)
  qed
qed simp

lemma enter_key:
  assumes "waiting (Key_enter # rest) s" and "room_for (10 # cs) (screen s)"
  shows "\<exists>s'. shell_iterate input 1 pos s = ret (True, pos, s') \<and> waiting rest s' \<and> room_for cs (screen s') \<and>
    screen_text s' = lb_write_all [10] (screen_text s) \<and>
    hhdm_offset s' = hhdm_offset s \<and> mem s' = (mem s)(cell_of (hhdm_offset s) (input + word_of_int pos) := 0)"
proof -
  obtain q where q: "keyboard_get (keyboardBuffer s) = (Key_enter, q)" "queue_inv s_maxSize q" "queue_contents s_maxSize q = rest"
    using waiting_get [OF assms(1)] .
  obtain inst where out: "shell_putchar 10 (s\<lparr>keyboardBuffer := q\<rparr>) = ret (s\<lparr>keyboardBuffer := q, terminal := inst\<rparr>)"
      "room_for cs (buffer inst)" "m_lineBuffer (buffer inst) = lb_write_all [10] (screen_text s)"
    using putchar_room [of 10 cs "s\<lparr>keyboardBuffer := q\<rparr>"] assms(2) by auto
  have "shell_key input pos s
      = ret (True, pos, store8 (input + word_of_int pos) 0 (s\<lparr>keyboardBuffer := q, terminal := inst\<rparr>))"
    using out(1) unfolding shell_key_def q(1) by simp
  then show ?thesis using q(2,3) out(2,3) by (simp add: waiting_def store8_def)
qed

definition example_shell :: interrupt_state where
  "example_shell = example_interrupts"

lemma example_shell_simps [simp]:
  "hhdm_offset example_shell = 0xffff800000000000"
  "screen example_shell = Terminal_init blank_lines small_screen (terminalFont (\<lambda>_. 0))"
  "extended example_shell = False" "io_trace example_shell = []"
  by (simp_all add: example_shell_def example_interrupts_def apic_state.defs example_acpi_def io_state.defs example_io_def
      paging_state.defs example_kernel_def Optional_init_def)

lemma example_shell_array: "own_array 0x500000 example_shell"
proof -
  have "unat (0x500000 + of_nat i :: u64) = 0x500000 + i" if "i < 256" for i
    using that unat_add_no_wrap [of "0x500000" "of_nat i"] unat_of_nat_256 [of i] by simp
  then show ?thesis by (simp add: own_array_def)
qed

theorem shell_stays_in_array_witness:
  "\<exists>pos s'. (shell_step example_devices 0x500000)\<^sup>*\<^sup>* (0, example_shell) (pos, s') \<and> pos = 0 \<and> mem s' 0x400000 = mem example_shell 0x400000"
proof -
  obtain s' where s': "run_isr example_devices 0 isr_keyboard example_shell = ret s'"
    by (simp add: run_isr_keyboard_simp Let_def del: run_isr.simps)
  then have step: "(shell_step example_devices 0x500000)\<^sup>*\<^sup>* (0, example_shell) (0, s')"
    by (intro r_into_rtranclp shell_step.irq)
  have "(0x400000 :: u64) \<noteq> 0x500000 + of_nat i" if "i < 256" for i
    using that unat_add_no_wrap [of "0x500000" "of_nat i"] unat_of_nat_256 [of i] by (auto simp: word_unat_eq_iff)
  then have "mem s' 0x400000 = mem example_shell 0x400000"
    using shell_stays_in_array [OF step] example_shell_array by (auto simp: own_array_def)
  then show ?thesis using step by blast
qed

end
