(* ===== verification/Free_List.thy ===== *)
theory Free_List
  imports Machine
begin

text \<open>
  The free-list allocator (\<^verbatim>\<open>FreeListAllocator.cpp\<close>) with its CRTP base (\<^verbatim>\<open>Allocator.h\<close>): a list of free
  blocks in the managed memory itself. A free block begins with \<^verbatim>\<open>size, next, prev\<close> (24 bytes), a used
  one with \<^verbatim>\<open>size, magic\<close> (16 bytes). The operations take and return the pointer \<^verbatim>\<open>head\<close> beside the machine.
\<close>

section \<open>Headers\<close>

definition magic_constant :: u64 where "magic_constant = 0x11223344aabbccdd"

definition sizeof_used :: u64 where "sizeof_used = 16"
definition sizeof_free :: u64 where "sizeof_free = 24"

abbreviation block_size :: "'z machine_scheme \<Rightarrow> u64 \<Rightarrow> u64" where "block_size s p \<equiv> load64 s p"
abbreviation block_next :: "'z machine_scheme \<Rightarrow> u64 \<Rightarrow> u64" where "block_next s p \<equiv> load64 s (p + 8)"
abbreviation block_prev :: "'z machine_scheme \<Rightarrow> u64 \<Rightarrow> u64" where "block_prev s p \<equiv> load64 s (p + 16)"
abbreviation used_magic :: "'z machine_scheme \<Rightarrow> u64 \<Rightarrow> u64" where "used_magic s p \<equiv> load64 s (p + 8)"

definition new_used :: "u64 \<Rightarrow> u64 \<Rightarrow> 'z machine_scheme \<Rightarrow> 'z machine_scheme" where
  "new_used p sz s = store64 (p + 8) magic_constant (store64 p sz s)"

definition new_free :: "u64 \<Rightarrow> u64 \<Rightarrow> u64 \<Rightarrow> u64 \<Rightarrow> 'z machine_scheme \<Rightarrow> 'z machine_scheme" where
  "new_free p sz nxt prv s = store64 (p + 16) prv (store64 (p + 8) nxt (store64 p sz s))"

definition can_fit :: "u64 \<Rightarrow> u64 \<Rightarrow> 'z machine_scheme \<Rightarrow> bool" where
  "can_fit request p s \<longleftrightarrow> request + sizeof_used \<le> block_size s p"

definition perfect_fit :: "u64 \<Rightarrow> u64 \<Rightarrow> 'z machine_scheme \<Rightarrow> bool" where
  "perfect_fit request p s \<longleftrightarrow> request + sizeof_used = block_size s p"

definition real_size :: "u64 \<Rightarrow> 'z machine_scheme \<Rightarrow> u64" where
  "real_size p s = block_size s p + sizeof_free"

definition unlink :: "u64 \<Rightarrow> 'z machine_scheme \<Rightarrow> 'z machine_scheme" where
  "unlink p s =
     (let s = (if block_prev s p \<noteq> 0 then store64 (block_prev s p + 8) (block_next s p) s else s)
      in if block_next s p \<noteq> 0 then store64 (block_next s p + 16) (block_prev s p) s else s)"

definition reserve_end :: "u64 \<Rightarrow> u64 \<Rightarrow> 'z machine_scheme \<Rightarrow> u64 \<times> 'z machine_scheme" where
  "reserve_end request p s =
     (let allocation_size = request + sizeof_used;
          free_block_end = p + sizeof_free + block_size s p;
          allocation_address = free_block_end - allocation_size;
          s = new_used allocation_address request s;
          s = store64 p (block_size s p - allocation_size) s
      in (allocation_address, s))"

definition reserve_entire :: "u64 \<Rightarrow> u64 \<Rightarrow> 'z machine_scheme \<Rightarrow> u64 \<times> 'z machine_scheme" where
  "reserve_entire request p s = (let s = unlink p s; s = new_used p request s in (p, s))"

definition coalesce_next :: "u64 \<Rightarrow> 'z machine_scheme \<Rightarrow> 'z machine_scheme" where
  "coalesce_next p s =
     (if block_next s p \<noteq> 0 \<and> block_next s p = p + real_size p s
      then let s = store64 p (block_size s p + real_size (block_next s p) s) s
           in store64 (p + 8) (block_next s (block_next s p)) s
      else s)"

definition coalesce_prev :: "u64 \<Rightarrow> 'z machine_scheme \<Rightarrow> 'z machine_scheme" where
  "coalesce_prev p s =
     (if block_prev s p \<noteq> 0 \<and> p = block_prev s p + real_size (block_prev s p) s
      then let prv = block_prev s p;
               s = store64 prv (block_size s prv + real_size p s) s
           in store64 (prv + 8) (block_next s p) s
      else s)"

section \<open>Operations\<close>

partial_function (option) find_fit :: "u64 \<Rightarrow> 'z machine_scheme \<Rightarrow> u64 \<Rightarrow> u64 res" where
  "find_fit request s node =
     (if node \<noteq> 0 \<and> \<not> can_fit request node s then find_fit request s (block_next s node) else ret node)"

definition allocate_impl ::
  "u64 \<Rightarrow> u64 \<times> 'z machine_scheme \<Rightarrow> (u64 \<times> u64 \<times> 'z machine_scheme) res" where
  "allocate_impl request = (\<lambda>(head, s).
     res_bind (find_fit request s head) (\<lambda>node.
     if node = 0 then kernel_panic ''ran out of virtual memory!\<newline>''
     else if perfect_fit request node s
     then let (allocated, s) = reserve_entire request node s;
              head = (if node = head then block_next s node else head)
          in ret (allocated + sizeof_used, head, s)
     else let (allocated, s) = reserve_end request node s
          in ret (allocated + sizeof_used, head, s)))"

partial_function (option) find_position ::
  "u64 \<Rightarrow> 'z machine_scheme \<Rightarrow> u64 \<Rightarrow> u64 \<Rightarrow> (u64 \<times> u64) res" where
  "find_position used_block s node prv =
     (if node \<noteq> 0 \<and> node < used_block then find_position used_block s (block_next s node) node
      else ret (node, prv))"

definition deallocate_impl ::
  "u64 \<Rightarrow> u64 \<times> 'z machine_scheme \<Rightarrow> (u64 \<times> 'z machine_scheme) res" where
  "deallocate_impl base = (\<lambda>(head, s).
     let used_block = base - sizeof_used
     in if used_magic s used_block \<noteq> magic_constant then kernel_panic ''invalid memory free\<newline>''
        else res_bind (find_position used_block s head 0) (\<lambda>(node, prv).
          let s = new_free used_block (block_size s used_block + sizeof_used - sizeof_free) node prv s;
              (head, s) = (if prv = 0 then (used_block, s) else (head, store64 (prv + 8) used_block s));
              s = (if node \<noteq> 0 then store64 (node + 16) used_block s else s);
              s = coalesce_next used_block s;
              s = coalesce_prev used_block s
          in ret (head, s)))"

definition add_memory_impl ::
  "u64 \<Rightarrow> u64 \<Rightarrow> u64 \<times> 'z machine_scheme \<Rightarrow> (u64 \<times> 'z machine_scheme) res" where
  "add_memory_impl base sz = (\<lambda>(head, s).
     let s = new_used base sz s; allocated = base + sizeof_used
     in deallocate_impl allocated (head, s))"

definition get_size_impl :: "u64 \<Rightarrow> u64 \<times> 'z machine_scheme \<Rightarrow> u64" where
  "get_size_impl base = (\<lambda>(head, s). block_size s (base - sizeof_used))"

text \<open>The base class (\<^verbatim>\<open>Allocator.h\<close>) forwards to the derived one; the size that \<^verbatim>\<open>deallocate\<close> may be given is not used.\<close>

definition Allocator_allocate ::
  "u64 \<Rightarrow> u64 \<times> 'z machine_scheme \<Rightarrow> (u64 \<times> u64 \<times> 'z machine_scheme) res" where [simp]:
  "Allocator_allocate sz = allocate_impl sz"

definition Allocator_deallocate ::
  "u64 \<Rightarrow> u64 \<Rightarrow> u64 \<times> 'z machine_scheme \<Rightarrow> (u64 \<times> 'z machine_scheme) res" where [simp]:
  "Allocator_deallocate ptr sz = deallocate_impl ptr"

definition Allocator_add_memory ::
  "u64 \<Rightarrow> u64 \<Rightarrow> u64 \<times> 'z machine_scheme \<Rightarrow> (u64 \<times> 'z machine_scheme) res" where [simp]:
  "Allocator_add_memory ptr sz = add_memory_impl ptr sz"

definition Allocator_get_size :: "u64 \<Rightarrow> u64 \<times> 'z machine_scheme \<Rightarrow> u64" where [simp]:
  "Allocator_get_size ptr = get_size_impl ptr"

section \<open>Accesses to headers\<close>

text \<open>Bytes \<open>a\<close> to \<open>a + t\<close> neither wrap nor meet the direct map, whose addresses name other cells.\<close>

definition within :: "u64 \<Rightarrow> nat \<Rightarrow> nat \<Rightarrow> bool" where
  "within off a t \<longleftrightarrow> a + t < 2 ^ 64 \<and> (a + t \<le> unat off \<or> unat off + 2 ^ 32 \<le> a)"

lemma cell_of_within:
  assumes "hhdm_ok off" "within off a t" "a \<le> unat p" "unat p < a + t"
  shows "cell_of off p = p"
proof -
  have "\<not> unat (p - off) < 2 ^ 32"
  proof (cases "unat off \<le> unat p")
    case True
    then have "unat (p - off) = unat p - unat off" by (simp add: unat_sub_if')
    then show ?thesis using assms True by (auto simp: within_def)
  next
    case False
    then have "unat (p - off) = unat p + 2 ^ 64 - unat off" by (simp add: unat_sub_if')
    then show ?thesis using assms by (auto simp: hhdm_ok_def)
  qed
  then show ?thesis by (simp add: cell_of_def)
qed

lemma sep8_apart:
  fixes p q :: u64
  assumes "unat p + 8 \<le> unat q \<or> unat q + 8 \<le> unat p" "unat p + 8 \<le> 2 ^ 64" "unat q + 8 \<le> 2 ^ 64"
  shows "sep8 p q"
  using assms by (auto simp: sep8_def unat_sub_if')

lemma load_store_apart:
  assumes ok: "hhdm_ok (hhdm_offset s)"
    and "within (hhdm_offset s) a t" "a \<le> unat p" "unat p + 8 \<le> a + t"
    and "within (hhdm_offset s) b u" "b \<le> unat q" "unat q + 8 \<le> b + u"
    and "unat p + 8 \<le> unat q \<or> unat q + 8 \<le> unat p"
  shows "load64 (store64 q v s) p = load64 s p"
proof -
  have "cell_of (hhdm_offset s) p = p" using assms by (intro cell_of_within [OF ok assms(2)]) simp_all
  moreover have "cell_of (hhdm_offset s) q = q" using assms by (intro cell_of_within [OF ok assms(5)]) simp_all
  moreover have "sep8 p q" using assms by (intro sep8_apart) (auto simp: within_def)
  ultimately show ?thesis by (intro load_store_sep) simp
qed

text \<open>The offset of a field of a header.\<close>

lemma unat_field:
  assumes "unat (a :: u64) + 24 < 2 ^ 64" shows "unat (a + 8) = unat a + 8" "unat (a + 16) = unat a + 16" "unat (a + 24) = unat a + 24"
  using assms unat_add_no_wrap [of a 8] unat_add_no_wrap [of a 16] unat_add_no_wrap [of a 24] by simp_all

definition apart :: "u64 \<Rightarrow> u64 \<Rightarrow> bool" where
  "apart a b \<longleftrightarrow> unat a + 24 \<le> unat b \<or> unat b + 24 \<le> unat a"

lemma header_store:
  assumes "hhdm_ok (hhdm_offset s)" "within (hhdm_offset s) (unat a) 24" "within (hhdm_offset s) (unat b) 24"
    and "apart a b" and "i \<in> {0, 8, 16}" "j \<in> {0, 8, 16}"
  shows "load64 (store64 (b + j) v s) (a + i) = load64 s (a + i)"
proof -
  have a: "unat a + 24 < 2 ^ 64" and b: "unat b + 24 < 2 ^ 64" using assms by (auto simp: within_def)
  show ?thesis
    by (rule load_store_apart [OF assms(1,2) _ _ assms(3)])
      (use assms(4-6) unat_field [OF a] unat_field [OF b] in \<open>auto simp: apart_def\<close>)
qed

lemma header_store_own:
  assumes "hhdm_ok (hhdm_offset s)" "within (hhdm_offset s) (unat a) 24" and "i \<in> {0, 8, 16}" "j \<in> {0, 8, 16}" "i \<noteq> j"
  shows "load64 (store64 (a + j) v s) (a + i) = load64 s (a + i)"
proof -
  have a: "unat a + 24 < 2 ^ 64" using assms by (auto simp: within_def)
  show ?thesis
    by (rule load_store_apart [OF assms(1,2) _ _ assms(2)])
      (use assms(3-5) unat_field [OF a] in auto)
qed

section \<open>The list of free blocks\<close>

text \<open>The blocks on the way from \<open>h\<close> to \<open>t\<close> along \<^verbatim>\<open>next\<close>.\<close>

fun next_path :: "'z machine_scheme \<Rightarrow> u64 \<Rightarrow> u64 list \<Rightarrow> u64 \<Rightarrow> bool" where
  "next_path s h [] t \<longleftrightarrow> h = t"
| "next_path s h (a # as) t \<longleftrightarrow> h = a \<and> a \<noteq> 0 \<and> next_path s (block_next s a) as t"

lemma next_path_append: "next_path s h (xs @ ys) t \<longleftrightarrow> (\<exists>m. next_path s h xs m \<and> next_path s m ys t)"
  by (induction xs arbitrary: h) auto

lemma next_path_cong:
  "(\<And>a. a \<in> set as \<Longrightarrow> block_next s' a = block_next s a) \<Longrightarrow> next_path s' h as t = next_path s h as t"
  by (induction as arbitrary: h) auto

text \<open>A block as its address and the bytes it takes, header included.\<close>

definition blocks :: "'z machine_scheme \<Rightarrow> u64 list \<Rightarrow> (nat \<times> nat) list" where
  "blocks s as = map (\<lambda>a. (unat a, unat (block_size s a) + 24)) as"

lemma blocks_simps [simp]:
  "blocks s [] = []" "blocks s (a # as) = (unat a, unat (block_size s a) + 24) # blocks s as"
  "blocks s (xs @ ys) = blocks s xs @ blocks s ys"
  by (simp_all add: blocks_def)

lemma blocks_cong: "(\<And>a. a \<in> set as \<Longrightarrow> block_size s' a = block_size s a) \<Longrightarrow> blocks s' as = blocks s as"
  by (simp add: blocks_def)

text \<open>The blocks ascend and no two touch, so that none could be merged.\<close>

abbreviation gapped :: "(nat \<times> nat) list \<Rightarrow> bool" where
  "gapped bs \<equiv> sorted_wrt (\<lambda>(a, t) (b, u). a + t < b) bs"

definition blocks_ok :: "u64 \<Rightarrow> (nat \<times> nat) list \<Rightarrow> bool" where
  "blocks_ok off bs \<longleftrightarrow> gapped bs \<and> list_all (\<lambda>(a, t). within off a t) bs"

definition free_list :: "'z machine_scheme \<Rightarrow> u64 \<Rightarrow> u64 list \<Rightarrow> bool" where
  "free_list s head as \<longleftrightarrow>
     hhdm_ok (hhdm_offset s) \<and> next_path s head as 0 \<and> blocks_ok (hhdm_offset s) (blocks s as)"

lemma blocks_ok_shrink:
  "blocks_ok off (xs @ (a, t) # ys) \<Longrightarrow> t' \<le> t \<Longrightarrow> blocks_ok off (xs @ (a, t') # ys)"
  by (fastforce simp: blocks_ok_def sorted_wrt_append within_def)

section \<open>Allocation\<close>

lemma find_fit_none: "next_path s h as 0 \<Longrightarrow> (\<forall>a\<in>set as. \<not> can_fit request a s) \<Longrightarrow> find_fit request s h = ret 0"
proof (induction as arbitrary: h)
  case Nil
  then show ?case by (simp add: find_fit.simps)
next
  case (Cons a as)
  then have "find_fit request s (block_next s a) = ret 0" by simp
  then show ?case using Cons.prems by (subst find_fit.simps) simp
qed

lemma find_fit_first:
  "next_path s h (xs @ a # ys) 0 \<Longrightarrow> (\<forall>b\<in>set xs. \<not> can_fit request b s) \<Longrightarrow> can_fit request a s
     \<Longrightarrow> find_fit request s h = ret a"
proof (induction xs arbitrary: h)
  case Nil
  then show ?case by (subst find_fit.simps) simp
next
  case (Cons b xs)
  then have "find_fit request s (block_next s b) = ret a" by simp
  then show ?case using Cons.prems by (subst find_fit.simps) simp
qed

lemma unat_request: "unat request + 16 < 2 ^ 64 \<Longrightarrow> unat (request + 16 :: u64) = unat request + 16"
  using unat_add_no_wrap [of request 16] by simp

lemma can_fit_iff:
  "unat request + 16 < 2 ^ 64 \<Longrightarrow> can_fit request p s \<longleftrightarrow> unat request + 16 \<le> unat (block_size s p)"
  by (simp add: can_fit_def sizeof_used_def word_le_nat_alt unat_request)

lemma perfect_fit_iff:
  "unat request + 16 < 2 ^ 64 \<Longrightarrow> perfect_fit request p s \<longleftrightarrow> unat request + 16 = unat (block_size s p)"
  by (simp add: perfect_fit_def sizeof_used_def word_unat_eq_iff unat_request)

text \<open>The end of a block is carved off: the header of the new block lies in the old one.\<close>

lemma reserve_end_carves:
  fixes s :: "'z machine_scheme"
  assumes ok: "hhdm_ok (hhdm_offset s)"
    and blk: "within (hhdm_offset s) (unat a) (unat (block_size s a) + 24)"
    and fit: "unat request + 16 \<le> unat (block_size s a)"
  obtains x s' where "reserve_end request a s = (x, s')"
    "unat x = unat a + 24 + unat (block_size s a) - (unat request + 16)"
    "unat (block_size s' a) = unat (block_size s a) - (unat request + 16)"
    "block_size s' x = request" "used_magic s' x = magic_constant" "hhdm_offset s' = hhdm_offset s"
    "\<And>p. within (hhdm_offset s) (unat p) 8 \<Longrightarrow>
       unat p + 8 \<le> unat a \<or> unat a + 8 \<le> unat p \<and> unat p + 8 \<le> unat a + 24 \<or> unat a + 24 + unat (block_size s a) \<le> unat p
       \<Longrightarrow> load64 s' p = load64 s p"
proof -
  let ?n = "unat (block_size s a)"
  define x where "x = a + sizeof_free + block_size s a - (request + sizeof_used)"
  define s1 where "s1 = new_used x request s"
  define s' where "s' = store64 a (block_size s1 a - (request + sizeof_used)) s1"
  have r: "unat (request + 16) = unat request + 16"
    using fit unat_less_2p [of "block_size s a"] by (intro unat_request) simp
  have lim: "unat a + (?n + 24) < 2 ^ 64" using blk by (simp add: within_def)
  then have "unat (a + 24 + block_size s a) = unat a + 24 + ?n"
    using unat_add_no_wrap [of a 24] unat_add_no_wrap [of "a + 24" "block_size s a"] by simp
  then have x: "unat x = unat a + 24 + ?n - (unat request + 16)"
    using fit r unat_sub [of "request + 16" "a + 24 + block_size s a"]
    by (simp only: x_def sizeof_free_def sizeof_used_def word_le_nat_alt)
  then have x8: "unat (x + 8) = unat x + 8"
    using lim unat_add_no_wrap [of x 8] fit by simp
  have st: "load64 (store64 q v m) p = load64 m p"
    if "hhdm_offset m = hhdm_offset s" "within (hhdm_offset s) (unat p) 8" "unat a \<le> unat q" "unat q + 8 \<le> unat a + (?n + 24)"
      "unat p + 8 \<le> unat q \<or> unat q + 8 \<le> unat p" for p q v and m :: "'z machine_scheme"
    using that ok blk by (intro load_store_apart [of m "unat p" 8 p "unat a" "?n + 24"]) auto
  have hd: "within (hhdm_offset s) (unat p) 8" if "unat a \<le> unat p" "unat p + 8 \<le> unat a + (?n + 24)" for p :: u64
    using that blk by (auto simp: within_def)
  have same: "load64 s1 p = load64 s p"
    if "within (hhdm_offset s) (unat p) 8" "unat p + 8 \<le> unat x \<or> unat x + 16 \<le> unat p" for p
  proof -
    have "load64 s1 p = load64 (store64 x request s) p"
      unfolding s1_def new_used_def by (rule st) (use that x x8 fit in auto)
    also have "\<dots> = load64 s p" by (rule st) (use that x fit in auto)
    finally show ?thesis .
  qed
  have sz: "block_size s1 a = block_size s a" using x fit by (intro same hd) auto
  have far: "load64 s' p = load64 s1 p"
    if "within (hhdm_offset s) (unat p) 8" "unat p + 8 \<le> unat a \<or> unat a + 8 \<le> unat p" for p
    unfolding s'_def by (rule st) (use that in \<open>auto simp: s1_def new_used_def\<close>)
  show ?thesis
  proof (rule that [of x s'])
    show "reserve_end request a s = (x, s')"
      by (simp add: reserve_end_def x_def s'_def s1_def Let_def)
    show "unat (block_size s' a) = ?n - (unat request + 16)"
      using fit r by (simp add: s'_def sz sizeof_used_def unat_sub_if')
    have hx: "within (hhdm_offset s) (unat x) 8" "within (hhdm_offset s) (unat (x + 8)) 8"
      using x x8 fit by (intro hd; simp)+
    have "block_size s1 x = block_size (store64 x request s) x"
      unfolding s1_def new_used_def using x x8 fit by (intro st hx) simp_all
    moreover have "block_size s' x = block_size s1 x" using x fit by (intro far hx disjI2) simp
    ultimately show "block_size s' x = request" by simp
    have "used_magic s' x = used_magic s1 x" using x x8 fit by (intro far hx disjI2) simp
    then show "used_magic s' x = magic_constant" by (simp add: s1_def new_used_def)
    fix p :: u64 assume p: "within (hhdm_offset s) (unat p) 8"
      "unat p + 8 \<le> unat a \<or> unat a + 8 \<le> unat p \<and> unat p + 8 \<le> unat a + 24 \<or> unat a + 24 + ?n \<le> unat p"
    then have "unat p + 8 \<le> unat x \<or> unat x + 16 \<le> unat p" "unat p + 8 \<le> unat a \<or> unat a + 8 \<le> unat p"
      using x fit by auto
    then show "load64 s' p = load64 s p" using far [OF p(1)] same [OF p(1)] by simp
  qed (simp_all add: x s'_def s1_def new_used_def)
qed

text \<open>First fit on the list of blocks: the allocation is cut from the end of the first block that
  holds the request and a header, and its address follows its header.\<close>

fun carve :: "nat \<Rightarrow> (nat \<times> nat) list \<Rightarrow> (nat \<times> (nat \<times> nat) list) option" where
  "carve r [] = None"
| "carve r ((a, t) # bs) =
     (if r + 40 \<le> t then Some (a + t - r, (a, t - (r + 16)) # bs)
      else map_option (\<lambda>(p, bs'). (p, (a, t) # bs')) (carve r bs))"

fun exact_fit :: "nat \<Rightarrow> (nat \<times> nat) list \<Rightarrow> bool" where
  "exact_fit r [] \<longleftrightarrow> False"
| "exact_fit r ((a, t) # bs) \<longleftrightarrow> (if r + 40 \<le> t then t = r + 40 else exact_fit r bs)"

lemma carve_skip:
  "list_all (\<lambda>(a, t). t < r + 40) xs \<Longrightarrow> carve r (xs @ bs) = map_option (\<lambda>(p, bs'). (p, xs @ bs')) (carve r bs)"
  "list_all (\<lambda>(a, t). t < r + 40) xs \<Longrightarrow> exact_fit r (xs @ bs) = exact_fit r bs"
  by (induction xs) (auto simp: option.map_comp comp_def option.map_ident case_prod_unfold)

text \<open>Blocks that lie apart.\<close>

definition clear_of :: "(nat \<times> nat) list \<Rightarrow> u64 \<Rightarrow> bool" where
  "clear_of bs p \<longleftrightarrow> list_all (\<lambda>(b, u). unat p + 8 \<le> b \<or> b + u \<le> unat p) bs"

lemma free_list_header:
  assumes "free_list s head as" "b \<in> set as"
  shows "within (hhdm_offset s) (unat b) (unat (block_size s b) + 24)" "within (hhdm_offset s) (unat b) 24"
    "within (hhdm_offset s) (unat (b + 8)) 8" "unat (b + 8) = unat b + 8"
proof -
  show 1: "within (hhdm_offset s) (unat b) (unat (block_size s b) + 24)"
    using assms by (auto simp: free_list_def blocks_ok_def blocks_def list_all_iff)
  then show 2: "within (hhdm_offset s) (unat b) 24" by (auto simp: within_def)
  then have "unat b + 24 < 2 ^ 64" by (simp add: within_def)
  then show 3: "unat (b + 8) = unat b + 8" by (rule unat_field)
  show "within (hhdm_offset s) (unat (b + 8)) 8" using 2 by (auto simp: within_def 3)
qed

lemma free_list_outside:
  assumes "free_list s head (xs @ a # ys)" "b \<in> set xs \<union> set ys"
  shows "unat b + unat (block_size s b) + 24 < unat a \<or> unat a + unat (block_size s a) + 24 < unat b"
  using assms by (auto simp: free_list_def blocks_ok_def blocks_def sorted_wrt_append)

lemma reserve_end_keeps_list:
  fixes s :: "'z machine_scheme"
  assumes fl: "free_list s head (xs @ a # ys)" and f: "unat request + 16 \<le> unat (block_size s a)"
  obtains x s' where "reserve_end request a s = (x, s')"
    "unat (x + 16) = unat a + (unat (block_size s a) + 24) - unat request"
    "block_size s' x = request" "used_magic s' x = magic_constant" "hhdm_offset s' = hhdm_offset s"
    "free_list s' head (xs @ a # ys)"
    "blocks s' (xs @ a # ys)
       = blocks s xs @ (unat a, unat (block_size s a) + 24 - (unat request + 16)) # blocks s ys"
    "\<And>q. within (hhdm_offset s) (unat q) 8 \<Longrightarrow> clear_of (blocks s (xs @ a # ys)) q \<Longrightarrow> load64 s' q = load64 s q"
proof -
  let ?as = "xs @ a # ys"
  have ok: "hhdm_ok (hhdm_offset s)" using fl by (simp add: free_list_def)
  have in_as: "a \<in> set ?as" by simp
  obtain x s' where re: "reserve_end request a s = (x, s')"
    and x: "unat x = unat a + 24 + unat (block_size s a) - (unat request + 16)"
    and sz: "unat (block_size s' a) = unat (block_size s a) - (unat request + 16)"
    and hdr: "block_size s' x = request" "used_magic s' x = magic_constant" "hhdm_offset s' = hhdm_offset s"
    and frame: "\<And>p. within (hhdm_offset s) (unat p) 8 \<Longrightarrow>
       unat p + 8 \<le> unat a \<or> unat a + 8 \<le> unat p \<and> unat p + 8 \<le> unat a + 24 \<or> unat a + 24 + unat (block_size s a) \<le> unat p
       \<Longrightarrow> load64 s' p = load64 s p"
    by (rule reserve_end_carves [OF ok free_list_header(1) [OF fl in_as] f]) blast
  have nxt: "block_next s' b = block_next s b" if "b \<in> set ?as" for b
    using that free_list_header [OF fl that] free_list_outside [OF fl, of b] by (intro frame) auto
  have siz: "block_size s' b = block_size s b" if b: "b \<in> set xs \<union> set ys" for b
    using free_list_outside [OF fl b] free_list_header(2) [OF fl, of b] b
    by (intro frame) (auto simp: within_def)
  have bl: "blocks s' ?as = blocks s xs @ (unat a, unat (block_size s a) + 24 - (unat request + 16)) # blocks s ys"
    using siz sz f blocks_cong [of xs s' s] blocks_cong [of ys s' s] by simp
  have "blocks_ok (hhdm_offset s) (blocks s' ?as)"
    unfolding bl by (rule blocks_ok_shrink [of _ _ _ "unat (block_size s a) + 24"])
      (use fl in \<open>simp_all add: free_list_def\<close>)
  then have fl': "free_list s' head ?as"
    using fl nxt next_path_cong [of ?as s' s] by (simp add: free_list_def hdr(3))
  have "unat x + 16 < 2 ^ 64" using x f free_list_header(1) [OF fl in_as] by (auto simp: within_def)
  then have ptr: "unat (x + 16) = unat a + (unat (block_size s a) + 24) - unat request"
    using x f unat_add_no_wrap [of x 16] by simp
  have out: "load64 s' q = load64 s q" if "within (hhdm_offset s) (unat q) 8" "clear_of (blocks s ?as) q" for q
    using that by (intro frame) (auto simp: clear_of_def)
  show ?thesis by (rule that [OF re ptr hdr fl' bl out])
qed

lemma allocate_at:
  fixes s :: "'z machine_scheme"
  assumes fl: "free_list s head (xs @ a # ys)" and f: "unat request + 16 < unat (block_size s a)"
    and no: "list_all (\<lambda>b. unat (block_size s b) < unat request + 16) xs"
  obtains x s' where "allocate_impl request (head, s) = ret (x + 16, head, s')"
    "unat (x + 16) = unat a + (unat (block_size s a) + 24) - unat request"
    "block_size s' x = request" "used_magic s' x = magic_constant" "hhdm_offset s' = hhdm_offset s"
    "free_list s' head (xs @ a # ys)"
    "blocks s' (xs @ a # ys)
       = blocks s xs @ (unat a, unat (block_size s a) + 24 - (unat request + 16)) # blocks s ys"
    "\<And>q. within (hhdm_offset s) (unat q) 8 \<Longrightarrow> clear_of (blocks s (xs @ a # ys)) q \<Longrightarrow> load64 s' q = load64 s q"
proof -
  have r: "unat request + 16 < 2 ^ 64" using f unat_less_2p [of "block_size s a"] by simp
  have f': "unat request + 16 \<le> unat (block_size s a)" using f by simp
  obtain x s' where re: "reserve_end request a s = (x, s')"
    and rest: "unat (x + 16) = unat a + (unat (block_size s a) + 24) - unat request"
      "block_size s' x = request" "used_magic s' x = magic_constant" "hhdm_offset s' = hhdm_offset s"
      "free_list s' head (xs @ a # ys)"
      "blocks s' (xs @ a # ys)
         = blocks s xs @ (unat a, unat (block_size s a) + 24 - (unat request + 16)) # blocks s ys"
      "\<And>q. within (hhdm_offset s) (unat q) 8 \<Longrightarrow> clear_of (blocks s (xs @ a # ys)) q \<Longrightarrow> load64 s' q = load64 s q"
    by (rule reserve_end_keeps_list [OF fl f']) blast
  have "find_fit request s head = ret a"
    using fl no f by (intro find_fit_first [where xs = xs and ys = ys])
      (auto simp: free_list_def can_fit_iff [OF r] list_all_iff)
  moreover have "a \<noteq> 0" using fl by (auto simp: free_list_def next_path_append)
  moreover have "\<not> perfect_fit request a s" using f by (simp add: perfect_fit_iff [OF r])
  ultimately have "allocate_impl request (head, s) = ret (x + 16, head, s')"
    using re by (simp add: allocate_impl_def sizeof_used_def)
  from that [OF this rest] show ?thesis .
qed

lemma first_fitting:
  obtains "list_all (\<lambda>b. unat (block_size s b) < n) as"
  | xs a ys where "as = xs @ a # ys" "list_all (\<lambda>b. unat (block_size s b) < n) xs" "n \<le> unat (block_size s a)"
proof (cases "\<exists>a\<in>set as. n \<le> unat (block_size s a)")
  case False
  then show ?thesis using that(1) by (simp add: list_all_iff not_le)
next
  case True
  then obtain xs a ys where "as = xs @ a # ys" "n \<le> unat (block_size s a)" "\<forall>b\<in>set xs. \<not> n \<le> unat (block_size s b)"
    using split_list_first_prop [OF True] by blast
  then show ?thesis using that(2) by (simp add: list_all_iff not_le)
qed

lemma blocks_skip:
  "list_all (\<lambda>b. unat (block_size s b) < r + 16) as \<Longrightarrow> list_all (\<lambda>(a, t). t < r + 40) (blocks s as)"
  by (auto simp: blocks_def list_all_iff)

text \<open>C5. \<^verbatim>\<open>allocate\<close> is first fit. On a well-formed list, for a request that does not wrap when the header is
  added and whose first fitting block is not an exact fit, it panics when no block holds the request and a header, and otherwise returns a pointer to
  the last bytes of the first block that does, which shrinks by the request and the header. The blocks
  stay a well-formed list, the new block records its size and the magic number, and no memory outside
  the free blocks changes.\<close>

theorem allocate_is_first_fit:
  fixes s :: "'z machine_scheme"
  assumes fl: "free_list s head as" and r: "unat request + 16 < 2 ^ 64"
    and inexact: "\<not> exact_fit (unat request) (blocks s as)"
  shows "case carve (unat request) (blocks s as) of
      None \<Rightarrow> allocate_impl request (head, s) = kernel_panic ''ran out of virtual memory!\<newline>''
    | Some (p, bs) \<Rightarrow> \<exists>ptr s'. allocate_impl request (head, s) = ret (ptr, head, s') \<and> unat ptr = p \<and>
        free_list s' head as \<and> blocks s' as = bs \<and> get_size_impl ptr (head, s') = request \<and>
        used_magic s' (ptr - sizeof_used) = magic_constant \<and>
        (\<forall>q. within (hhdm_offset s) (unat q) 8 \<and> clear_of (blocks s as) q \<longrightarrow> load64 s' q = load64 s q)"
proof (cases rule: first_fitting [of s "unat request + 16" as])
  case 1
  have "carve (unat request) (blocks s as) = None" using carve_skip(1) [OF blocks_skip [OF 1], of "[]"] by simp
  moreover have "find_fit request s head = ret 0"
    using fl 1 by (intro find_fit_none) (auto simp: free_list_def list_all_iff can_fit_iff [OF r])
  ultimately show ?thesis by (simp add: allocate_impl_def)
next
  case (2 xs a ys)
  note as = 2(1) and skip = blocks_skip [OF 2(2)]
  have f: "unat request + 16 < unat (block_size s a)"
    using inexact 2(3) carve_skip(2) [OF skip] by (auto simp: as)
  obtain x s' where al: "allocate_impl request (head, s) = ret (x + 16, head, s')"
    and ptr: "unat (x + 16) = unat a + (unat (block_size s a) + 24) - unat request"
    and hdr: "block_size s' x = request" "used_magic s' x = magic_constant"
    and fl': "free_list s' head as"
    and bl: "blocks s' as = blocks s xs @ (unat a, unat (block_size s a) + 24 - (unat request + 16)) # blocks s ys"
    and out: "\<And>q. within (hhdm_offset s) (unat q) 8 \<Longrightarrow> clear_of (blocks s as) q \<Longrightarrow> load64 s' q = load64 s q"
    by (rule allocate_at [OF fl [unfolded as] f 2(2)]) (simp add: as)
  have "get_size_impl (x + 16) (head, s') = request" "used_magic s' (x + 16 - sizeof_used) = magic_constant"
    using hdr by (simp_all add: get_size_impl_def sizeof_used_def)
  moreover have "carve (unat request) (blocks s as)
      = Some (unat a + (unat (block_size s a) + 24) - unat request, blocks s' as)"
    unfolding bl using carve_skip(1) [OF skip] f by (simp add: as)
  ultimately show ?thesis using al fl' ptr out by auto
qed

section \<open>Deallocation\<close>

lemma find_position_splits:
  "next_path s h (xs @ ys) 0 \<Longrightarrow> list_all (\<lambda>b. b < u) xs \<Longrightarrow> list_all (\<lambda>b. \<not> b < u) ys
     \<Longrightarrow> find_position u s h prv = ret (case ys of [] \<Rightarrow> 0 | b # _ \<Rightarrow> b, if xs = [] then prv else last xs)"
proof (induction xs arbitrary: h prv)
  case Nil
  then show ?case by (subst find_position.simps) (cases ys; simp)
next
  case (Cons a xs)
  then have "find_position u s (block_next s a) a
      = ret (case ys of [] \<Rightarrow> 0 | b # _ \<Rightarrow> b, if xs = [] then a else last xs)" by simp
  then show ?case using Cons.prems by (subst find_position.simps) simp
qed

text \<open>Headers that do not overlap, and states that differ in such headers only.\<close>

definition headers_ok :: "u64 \<Rightarrow> u64 set \<Rightarrow> bool" where
  "headers_ok off A \<longleftrightarrow> hhdm_ok off \<and> (\<forall>a\<in>A. a \<noteq> 0 \<and> within off (unat a) 24) \<and> (\<forall>a\<in>A. \<forall>b\<in>A. a \<noteq> b \<longrightarrow> apart a b)"

definition header_writes :: "u64 set \<Rightarrow> 'z machine_scheme \<Rightarrow> 'z machine_scheme \<Rightarrow> bool" where
  "header_writes A s s' \<longleftrightarrow> hhdm_offset s' = hhdm_offset s \<and>
     (\<forall>p. within (hhdm_offset s) (unat p) 8 \<and> (\<forall>a\<in>A. unat p + 8 \<le> unat a \<or> unat a + 24 \<le> unat p)
        \<longrightarrow> load64 s' p = load64 s p)"

lemma header_writes_refl [simp]: "header_writes A s s"
  by (simp add: header_writes_def)

lemma header_writes_store:
  assumes "header_writes A s s'" "headers_ok (hhdm_offset s) A" "a \<in> A" "j \<in> {0, 8, 16}"
  shows "header_writes A s (store64 (a + j) v s')"
proof -
  have off: "hhdm_offset s' = hhdm_offset s" using assms(1) by (simp add: header_writes_def)
  have a: "hhdm_ok (hhdm_offset s)" "within (hhdm_offset s) (unat a) 24" using assms(2,3) by (auto simp: headers_ok_def)
  then have lim: "unat a + 24 < 2 ^ 64" by (simp add: within_def)
  have "load64 (store64 (a + j) v s') p = load64 s' p"
    if "within (hhdm_offset s) (unat p) 8" "unat p + 8 \<le> unat a \<or> unat a + 24 \<le> unat p" for p
    using that a assms(4) unat_field [OF lim] by (intro load_store_apart [of s' "unat p" 8 _ "unat a" 24]) (auto simp: off)
  then show ?thesis using assms(1,3) by (auto simp: header_writes_def)
qed

lemmas header_writes_stores =
  header_writes_store [where j = 0, simplified] header_writes_store [where j = 8, simplified]
  header_writes_store [where j = 16, simplified]

lemma headers_okD:
  assumes "headers_ok off A"
  shows "hhdm_ok off" "a \<in> A \<Longrightarrow> within off (unat a) 24" "a \<in> A \<Longrightarrow> a \<noteq> 0"
    "a \<in> A \<Longrightarrow> b \<in> A \<Longrightarrow> a \<noteq> b \<Longrightarrow> apart a b"
  using assms by (auto simp: headers_ok_def)

lemma header_field:
  assumes ok: "headers_ok (hhdm_offset s) A" and m: "hhdm_offset m = hhdm_offset s" "b \<in> A" "c \<in> A" "b \<noteq> c \<or> i \<noteq> j"
    and "i \<in> {0, 8, 16}" "j \<in> {0, 8, 16}"
  shows "load64 (store64 (c + j) v m) (b + i) = load64 m (b + i)"
proof (cases "b = c")
  case True
  then have "i \<noteq> j" using m(4) by simp
  then show ?thesis
    unfolding True using m(1,3) assms(6,7) headers_okD [OF ok] by (intro header_store_own) simp_all
next
  case False
  then show ?thesis using m assms(6,7) headers_okD [OF ok] by (intro header_store [of m b c]) auto
qed

lemmas header_fields =
  header_field [where i = 0 and j = 0, simplified] header_field [where i = 0 and j = 8, simplified]
  header_field [where i = 0 and j = 16, simplified] header_field [where i = 8 and j = 0, simplified]
  header_field [where i = 8 and j = 8, simplified] header_field [where i = 8 and j = 16, simplified]
  header_field [where i = 16 and j = 0, simplified] header_field [where i = 16 and j = 8, simplified]
  header_field [where i = 16 and j = 16, simplified]

text \<open>The free-list operations look at no more of a list than this: a list without repetitions, in
  headers that do not overlap.\<close>

definition linked :: "'z machine_scheme \<Rightarrow> u64 \<Rightarrow> u64 list \<Rightarrow> bool" where
  "linked s h as \<longleftrightarrow> next_path s h as 0 \<and> distinct as \<and> headers_ok (hhdm_offset s) (set as)"

lemma next_path_hd: "next_path s h as 0 \<Longrightarrow> h = (case as of [] \<Rightarrow> 0 | a # _ \<Rightarrow> a)"
  by (cases as) auto

lemma linked_insert:
  fixes s :: "'z machine_scheme"
  assumes l: "linked s h (xs @ ys)" and u: "u \<notin> set xs \<union> set ys"
    and ok: "headers_ok (hhdm_offset s) (insert u (set xs \<union> set ys))"
    and node: "node = (case ys of [] \<Rightarrow> 0 | b # _ \<Rightarrow> b)" and prv: "prv = (if xs = [] then 0 else last xs)"
    and s1: "s1 = new_free u n node prv s"
    and s2: "(h', s2) = (if prv = 0 then (u, s1) else (h, store64 (prv + 8) u s1))"
    and s3: "s3 = (if node \<noteq> 0 then store64 (node + 16) u s2 else s2)"
  shows "linked s3 h' (xs @ u # ys)" "blocks s3 (xs @ u # ys) = blocks s xs @ (unat u, unat n + 24) # blocks s ys"
    "block_prev s3 u = prv" "header_writes (insert u (set xs \<union> set ys)) s s3"
proof -
  let ?A = "insert u (set xs \<union> set ys)"
  note okD = headers_okD [OF ok] and st = header_fields [OF ok]
  have node_in: "node \<noteq> 0 \<Longrightarrow> node \<in> set ys" by (cases ys) (auto simp: node)
  have prv_in: "prv \<noteq> 0 \<Longrightarrow> prv = last xs \<and> prv \<in> set xs" by (auto simp: prv split: if_splits)
  have o1: "hhdm_offset s1 = hhdm_offset s" by (simp add: s1 new_free_def)
  have o2: "hhdm_offset s2 = hhdm_offset s" using s2 o1 by (auto split: if_splits)
  have w1: "header_writes ?A s s1"
    unfolding s1 new_free_def by (intro header_writes_stores header_writes_refl ok) simp_all
  have w2: "header_writes ?A s s2"
    using s2 w1 prv_in by (auto split: if_splits intro!: header_writes_stores [OF _ ok])
  show w3: "header_writes ?A s s3"
    using s3 w2 node_in by (auto intro!: header_writes_stores [OF _ ok])
  have f1: "block_size s1 b = block_size s b" "block_next s1 b = block_next s b" if "b \<in> set xs \<union> set ys" for b
  proof -
    have "b \<noteq> u" using that u by auto
    then show "block_size s1 b = block_size s b" "block_next s1 b = block_next s b"
      using that by (simp_all add: s1 new_free_def st)
  qed
  have u1: "block_size s1 u = n" "block_next s1 u = node" "block_prev s1 u = prv"
    by (simp_all add: s1 new_free_def st)
  have f2: "block_size s2 b = block_size s1 b" "b \<noteq> prv \<Longrightarrow> block_next s2 b = block_next s1 b" "block_prev s2 b = block_prev s1 b"
    if "b \<in> ?A" for b
    using that s2 o1 prv_in by (auto simp: st split: if_splits)
  have f3: "block_size s3 b = block_size s2 b" "block_next s3 b = block_next s2 b" "b \<noteq> node \<Longrightarrow> block_prev s3 b = block_prev s2 b"
    if "b \<in> ?A" for b
    using that s3 o2 node_in by (auto simp: st split: if_splits)
  have nu: "u \<noteq> node" "u \<noteq> prv" using u node_in prv_in okD(3) [of u] by auto
  show "block_prev s3 u = prv" using nu u1 by (simp add: f2 f3)
  show "blocks s3 (xs @ u # ys) = blocks s xs @ (unat u, unat n + 24) # blocks s ys"
    using blocks_cong [of xs s3 s] blocks_cong [of ys s3 s] by (simp add: f1 f2 f3 u1)
  have pn: "prv \<noteq> 0 \<Longrightarrow> block_next s3 prv = u" using s2 f3(2) [of prv] prv_in by (auto split: if_splits)
  have un: "block_next s3 u = node" using nu by (simp add: f2 f3 u1)
  have nn: "block_next s3 b = block_next s b" if "b \<in> set xs \<union> set ys" "b \<noteq> prv" for b
    using that by (simp add: f1 f2 f3)
  from l obtain m where m: "next_path s h xs m" "next_path s m ys 0" by (auto simp: linked_def next_path_append)
  then have mn: "m = node" using next_path_hd node by simp
  have "prv \<notin> set ys" using l prv okD(3) last_in_set by (fastforce simp: linked_def)
  then have "next_path s3 node ys 0 = next_path s node ys 0" by (intro next_path_cong nn) auto
  then have "next_path s3 node ys 0" using m mn by simp
  moreover have "next_path s3 h' xs u"
  proof (cases xs rule: rev_cases)
    case Nil
    then show ?thesis using s2 prv by simp
  next
    case (snoc zs z)
    then have z: "prv = z" "z \<noteq> 0" using prv okD(3) by auto
    then have "next_path s3 h zs z = next_path s h zs z" using l snoc nn by (intro next_path_cong) (auto simp: linked_def)
    then show ?thesis using m(1) s2 z pn by (auto simp: snoc next_path_append)
  qed
  ultimately show "linked s3 h' (xs @ u # ys)"
    using un u okD(3) l ok w3 by (auto simp: linked_def next_path_append header_writes_def)
qed

text \<open>Freeing on the list of blocks: the block takes its place in the order and is merged with the
  neighbours it touches.\<close>

fun join :: "nat \<times> nat \<Rightarrow> (nat \<times> nat) list \<Rightarrow> (nat \<times> nat) list" where
  "join x [] = [x]"
| "join (a, t) ((b, u) # bs) = (if a + t = b then (a, t + u) # bs else (a, t) # (b, u) # bs)"

fun release :: "nat \<times> nat \<Rightarrow> (nat \<times> nat) list \<Rightarrow> (nat \<times> nat) list" where
  "release x [] = [x]"
| "release (a, t) ((b, u) # bs) =
     (if b < a then join (b, u) (release (a, t) bs) else join (a, t) ((b, u) # bs))"

lemma linked_cong_remove:
  assumes "linked s h (xs @ u # ys)"
    and "\<And>b. b \<in> set xs \<union> set ys' \<Longrightarrow> block_next s' b = block_next s b"
    and "hhdm_offset s' = hhdm_offset s" and "set ys' \<subseteq> set ys" "distinct ys'" "next_path s (block_next s' u) ys' 0"
  shows "linked s' h (xs @ u # ys')"
proof -
  have "next_path s' h xs u = next_path s h xs u" using assms(2) by (intro next_path_cong) auto
  moreover have "next_path s' (block_next s' u) ys' 0 = next_path s (block_next s' u) ys' 0"
    using assms(2,4) by (intro next_path_cong) auto
  ultimately show ?thesis
    using assms(1,3-6) unfolding linked_def headers_ok_def next_path_append distinct_append set_append
    by (auto 0 3 simp: subset_iff)
qed

lemma unat_real_size:
  assumes "unat u + (unat (block_size s u) + 24) < 2 ^ 64"
  shows "unat (real_size u s) = unat (block_size s u) + 24" "unat (u + real_size u s) = unat u + (unat (block_size s u) + 24)"
  using assms unat_add_no_wrap [of "block_size s u" 24] unat_add_no_wrap [of u "block_size s u + 24"]
  by (simp_all add: real_size_def sizeof_free_def)

lemma coalesce_next_joins:
  assumes l: "linked s h (xs @ u # ys)"
    and w: "list_all (\<lambda>(b, v). within (hhdm_offset s) b v) (blocks s (u # ys))"
  shows "\<exists>ys'. set ys' \<subseteq> set ys \<and> linked (coalesce_next u s) h (xs @ u # ys') \<and>
    blocks (coalesce_next u s) (xs @ u # ys') = blocks s xs @ join (unat u, unat (block_size s u) + 24) (blocks s ys) \<and>
    block_prev (coalesce_next u s) u = block_prev s u \<and>
    header_writes (set xs \<union> insert u (set ys)) s (coalesce_next u s)"
proof -
  have ok: "headers_ok (hhdm_offset s) (set xs \<union> insert u (set ys))" using l by (simp add: linked_def)
  note st = header_fields [OF ok]
  let ?n = "unat (block_size s u)"
  have nxt: "block_next s u = (case ys of [] \<Rightarrow> 0 | b # _ \<Rightarrow> b)"
    using l next_path_hd by (auto simp: linked_def next_path_append)
  have real: "unat (u + real_size u s) = unat u + (?n + 24)" using w by (intro unat_real_size) (simp add: within_def)
  show ?thesis
  proof (cases "block_next s u \<noteq> 0 \<and> block_next s u = u + real_size u s")
    case False
    moreover have "join (unat u, ?n + 24) (blocks s ys) = (unat u, ?n + 24) # blocks s ys"
    proof (cases ys)
      case (Cons y zs)
      then have "y \<noteq> u + real_size u s" using False nxt headers_okD(3) [OF ok] by auto
      then have "unat y \<noteq> unat u + (?n + 24)" using real by (metis word_unat_eq_iff)
      then show ?thesis using Cons by simp
    qed simp
    moreover have "coalesce_next u s = s" unfolding coalesce_next_def using False by (rule if_not_P)
    ultimately show ?thesis using l by (intro exI [of _ ys]) simp
  next
    case True
    then obtain y zs where ys: "ys = y # zs" "block_next s u = y" using nxt by (cases ys) auto
    have uy: "u \<noteq> y" "u \<notin> set xs" "y \<notin> set xs" "u \<notin> set zs" "y \<notin> set zs" using l ys by (auto simp: linked_def)
    define s1 where "s1 = store64 u (block_size s u + real_size y s) s"
    have s': "coalesce_next u s = store64 (u + 8) (block_next s1 y) s1"
      unfolding coalesce_next_def if_P [OF True] by (simp add: Let_def s1_def st ys(2))
    have o1: "hhdm_offset s1 = hhdm_offset s" by (simp add: s1_def)
    have other: "block_size (coalesce_next u s) b = block_size s b" "block_next (coalesce_next u s) b = block_next s b"
      if "b \<in> set xs \<union> set zs" for b
    proof -
      have "b \<noteq> u" using that uy by auto
      then show "block_size (coalesce_next u s) b = block_size s b" "block_next (coalesce_next u s) b = block_next s b"
        using that by (auto simp: s' st o1 ys) (auto simp: s1_def st ys)
    qed
    have own: "block_size (coalesce_next u s) u = block_size s u + real_size y s"
      "block_next (coalesce_next u s) u = block_next s y" "block_prev (coalesce_next u s) u = block_prev s u"
      using uy by (simp_all add: s' st o1 ys) (simp_all add: s1_def st ys)
    have wy: "unat y + (unat (block_size s y) + 24) < 2 ^ 64" using w ys by (simp add: within_def)
    have uyn: "unat y = unat u + (?n + 24)" using True ys real by simp
    have "unat (block_size s u + real_size y s) = ?n + (unat (block_size s y) + 24)"
      using wy uyn unat_real_size [OF wy] unat_add_no_wrap [of "block_size s u" "real_size y s"] by simp
    then have "blocks (coalesce_next u s) (xs @ u # zs)
        = blocks s xs @ join (unat u, ?n + 24) (blocks s ys)"
      using uyn blocks_cong [of xs "coalesce_next u s" s] blocks_cong [of zs "coalesce_next u s" s]
      by (simp add: other own ys)
    moreover have "header_writes (set xs \<union> insert u (set ys)) s (coalesce_next u s)"
      unfolding s' s1_def by (intro header_writes_stores header_writes_refl ok) simp_all
    moreover have "linked (coalesce_next u s) h (xs @ u # zs)"
      by (rule linked_cong_remove [OF l])
        (use l other own in \<open>auto simp: ys linked_def next_path_append s' o1\<close>)
    ultimately show ?thesis using own(3) by (intro exI [of _ zs]) (auto simp: ys)
  qed
qed

text \<open>Merging a block into its predecessor is merging the predecessor with its successor.\<close>

lemma coalesce_prev_eq_next:
  assumes l: "linked s h (xs @ z # u # ys)" and prv: "block_prev s u = z"
  shows "coalesce_prev u s = coalesce_next z s"
proof -
  have ok: "headers_ok (hhdm_offset s) (insert z (insert u (set xs \<union> set ys)))" using l by (simp add: linked_def insert_commute)
  have nxt: "block_next s z = u" "z \<noteq> u" using l by (auto simp: linked_def next_path_append)
  have nz: "z \<noteq> 0" "u \<noteq> 0" using headers_okD(3) [OF ok] by auto
  have "block_next (store64 z v s) z = u" "block_next (store64 z v s) u = block_next s u" for v
    using nxt by (simp_all add: header_fields [OF ok])
  then show ?thesis
    unfolding coalesce_prev_def coalesce_next_def prv nxt(1) using nz by (simp add: Let_def)
qed

lemma coalesce_prev_first: "block_prev s u = 0 \<Longrightarrow> coalesce_prev u s = s"
  by (simp add: coalesce_prev_def)

text \<open>Releasing a block between \<open>xs\<close> and \<open>ys\<close>.\<close>

lemma join_starts: "\<exists>w' bs'. join (c, w) bs = (c, w') # bs'"
  by (cases bs) auto

lemma release_skip:
  "gapped xs \<Longrightarrow> list_all (\<lambda>(b, v). 0 < v) xs \<Longrightarrow>
   list_all (\<lambda>(b, v). b < a) xs \<Longrightarrow> list_all (\<lambda>(b, v). \<not> b < a) ys \<Longrightarrow>
   release (a, t) (xs @ ys) = (if xs = [] then join (a, t) ys else butlast xs @ join (last xs) (join (a, t) ys))"
proof (induction xs)
  case Nil
  then show ?case by (cases ys) auto
next
  case (Cons x xs)
  obtain b v where x: "x = (b, v)" by fastforce
  show ?case
  proof (cases xs)
    case Nil
    then show ?thesis using Cons by (cases ys) (auto simp: x)
  next
    case (Cons y zs)
    obtain c w where y: "y = (c, w)" by fastforce
    have "b + v < c" using Cons.prems(1) Cons by (simp add: x y)
    moreover obtain w' bs where "butlast xs @ join (last xs) (join (a, t) ys) = (c, w') # bs"
      using join_starts [of c w "join (a, t) ys"] Cons y by (cases zs) auto
    ultimately show ?thesis using Cons.IH Cons.prems Cons by (simp add: x y)
  qed
qed

lemma join_ok:
  assumes "blocks_ok off bs" "within off a t" "list_all (\<lambda>(b, u). a + t \<le> b) bs"
  shows "blocks_ok off (join (a, t) bs)"
proof (cases bs)
  case Nil
  then show ?thesis using assms by (simp add: blocks_ok_def)
next
  case (Cons x cs)
  obtain b u where x: "x = (b, u)" by fastforce
  have b: "a + t \<le> b" "within off b u" "gapped cs" "list_all (\<lambda>(a, t). within off a t) cs"
    and cs: "\<forall>(c, v) \<in> set cs. b + u < c"
    using assms Cons x by (auto simp: blocks_ok_def)
  have "within off a (t + u)" if "b = a + t" using b(2) assms(2) that by (auto simp: within_def)
  then show ?thesis using b cs assms(2) by (auto simp: Cons x blocks_ok_def)
qed

lemma join_lower: "list_all (\<lambda>(b, u). m \<le> b) bs \<Longrightarrow> m \<le> a \<Longrightarrow> list_all (\<lambda>(b, u). m \<le> b) (join (a, t) bs)"
  by (cases bs) auto

lemma release_lower: "list_all (\<lambda>(b, u). m \<le> b) bs \<Longrightarrow> m \<le> a \<Longrightarrow> list_all (\<lambda>(b, u). m \<le> b) (release (a, t) bs)"
  by (induction "(a, t)" bs rule: release.induct) (auto intro: join_lower split: if_splits simp del: join.simps)

text \<open>Blocks with room for a header, none of which meets the block of \<open>t\<close> bytes at \<open>a\<close>.\<close>

definition beside :: "nat \<Rightarrow> nat \<Rightarrow> (nat \<times> nat) list \<Rightarrow> bool" where
  "beside a t bs \<longleftrightarrow> list_all (\<lambda>(b, u). 24 \<le> u \<and> (b + u \<le> a \<or> a + t \<le> b)) bs"

lemma release_ok:
  "blocks_ok off bs \<Longrightarrow> within off a t \<Longrightarrow> 0 < t \<Longrightarrow> beside a t bs \<Longrightarrow> blocks_ok off (release (a, t) bs)"
proof (induction bs)
  case Nil
  then show ?case by (simp add: blocks_ok_def)
next
  case (Cons x bs)
  obtain b u where x: "x = (b, u)" by fastforce
  have bs: "blocks_ok off bs" "within off b u" "\<forall>(c, v) \<in> set bs. b + u < c" "beside a t bs"
    "24 \<le> u" "b + u \<le> a \<or> a + t \<le> b"
    using Cons.prems by (auto simp: x blocks_ok_def beside_def)
  then have IH: "blocks_ok off (release (a, t) bs)" using Cons by simp
  show ?case
  proof (cases "b < a")
    case True
    have "list_all (\<lambda>(c, v). b + u \<le> c) bs" using bs(3) by (auto simp: list_all_iff)
    then have "list_all (\<lambda>(c, v). b + u \<le> c) (release (a, t) bs)" using True bs(6) by (intro release_lower) auto
    then show ?thesis using join_ok [OF IH bs(2)] True by (simp add: x)
  next
    case False
    then have "list_all (\<lambda>(c, v). a + t \<le> c) (x # bs)" using bs by (auto simp: list_all_iff x)
    then show ?thesis using join_ok [OF Cons.prems(1,2)] False by (simp add: x del: join.simps)
  qed
qed

definition block_bytes :: "(nat \<times> nat) list \<Rightarrow> nat set" where
  "block_bytes bs = (\<Union>(a, t)\<in>set bs. {a..<a + t})"

lemma block_bytes_simps [simp]:
  "block_bytes [] = {}" "block_bytes ((a, t) # bs) = {a..<a + t} \<union> block_bytes bs"
  by (simp_all add: block_bytes_def)

lemma join_bytes: "block_bytes (join (a, t) bs) = {a..<a + t} \<union> block_bytes bs"
  by (cases "((a, t), bs)" rule: join.cases) auto

lemma release_bytes: "block_bytes (release (a, t) bs) = {a..<a + t} \<union> block_bytes bs"
proof (induction bs)
  case Nil
  then show ?case by simp
next
  case (Cons x bs)
  obtain b u where x: "x = (b, u)" by fastforce
  show ?case using Cons by (auto simp: x join_bytes simp del: join.simps)
qed

lemma header_writes_trans:
  "header_writes A s s' \<Longrightarrow> header_writes B s' s'' \<Longrightarrow> B \<subseteq> A \<Longrightarrow> header_writes A s s''"
  by (auto simp: header_writes_def subset_iff)

lemma next_path_nonzero: "next_path s h as t \<Longrightarrow> a \<in> set as \<Longrightarrow> a \<noteq> 0"
  by (induction as arbitrary: h) auto

lemma free_list_sorted:
  assumes "free_list s h as" shows "sorted_wrt (<) as"
proof -
  have "sorted_wrt (\<lambda>a b. unat a + (unat (block_size s a) + 24) < unat b) as"
    using assms by (simp add: free_list_def blocks_ok_def blocks_def sorted_wrt_map)
  then show ?thesis by (rule sorted_wrt_mono_rel [rotated]) (simp add: word_less_nat_alt)
qed

lemma free_list_linked:
  assumes "free_list s h as" shows "linked s h as"
proof -
  have "distinct as" using free_list_sorted [OF assms] strict_sorted_iff by blast
  moreover have "apart a b" if ab: "a \<in> set as" "b \<in> set as" "a \<noteq> b" for a b
  proof -
    obtain xs ys where as: "as = xs @ a # ys" using split_list [OF ab(1)] by blast
    have "b \<in> set xs \<union> set ys" using ab(2,3) as by auto
    from free_list_outside [OF assms [unfolded as] this] show ?thesis by (auto simp: apart_def)
  qed
  moreover have "a \<noteq> 0" if "a \<in> set as" for a
    using next_path_nonzero [of s h as 0 a] that assms by (simp add: free_list_def)
  ultimately show ?thesis
    using assms free_list_header(2) [OF assms] by (auto simp: linked_def headers_ok_def free_list_def)
qed

text \<open>The two merges after the block is linked in.\<close>

lemma coalesce_releases:
  assumes l: "linked s h (xs @ u # ys)" and ok: "blocks_ok off bs" "beside (unat u) t bs" "off = hhdm_offset s"
    and blk: "blocks s xs @ blocks s ys = bs" "unat (block_size s u) + 24 = t" "within off (unat u) t"
    and ord: "list_all (\<lambda>b. b < u) xs" "list_all (\<lambda>b. \<not> b < u) ys"
    and prv: "block_prev s u = (if xs = [] then 0 else last xs)"
  shows "\<exists>as'. linked (coalesce_prev u (coalesce_next u s)) h as' \<and>
    blocks (coalesce_prev u (coalesce_next u s)) as' = release (unat u, t) bs \<and>
    header_writes (set xs \<union> insert u (set ys)) s (coalesce_prev u (coalesce_next u s))"
proof -
  have bok: "gapped (blocks s xs)" "list_all (\<lambda>(a, t). within off a t) (blocks s xs)"
    "blocks_ok off (blocks s ys)" using ok blk by (auto simp: blocks_ok_def sorted_wrt_append)
  have rel: "release (unat u, t) bs = (if blocks s xs = [] then join (unat u, t) (blocks s ys)
      else butlast (blocks s xs) @ join (last (blocks s xs)) (join (unat u, t) (blocks s ys)))"
    unfolding blk(1) [symmetric] by (rule release_skip)
      (use bok ord in \<open>auto simp: blocks_def list_all_iff word_less_nat_alt\<close>)
  have low: "list_all (\<lambda>(b, v). unat u + t \<le> b) (blocks s ys)"
  proof -
    have "unat u + t \<le> unat b" if "b \<in> set ys" for b
    proof -
      have "(unat b, unat (block_size s b) + 24) \<in> set bs" using that blk(1) by (auto simp: blocks_def)
      then have "unat b + (unat (block_size s b) + 24) \<le> unat u \<or> unat u + t \<le> unat b"
        using ok(2) by (auto simp: beside_def list_all_iff)
      then show ?thesis using that ord(2) by (auto simp: list_all_iff word_less_nat_alt)
    qed
    then show ?thesis by (auto simp: blocks_def list_all_iff)
  qed
  obtain ys' where ys': "set ys' \<subseteq> set ys" "linked (coalesce_next u s) h (xs @ u # ys')"
    and b1: "blocks (coalesce_next u s) (xs @ u # ys') = blocks s xs @ join (unat u, t) (blocks s ys)"
    and p1: "block_prev (coalesce_next u s) u = block_prev s u"
    and w1: "header_writes (set xs \<union> insert u (set ys)) s (coalesce_next u s)"
    using coalesce_next_joins [OF l] ok blk bok(3) by (auto simp: blocks_ok_def)
  show ?thesis
  proof (cases xs rule: rev_cases)
    case Nil
    then show ?thesis
      using ys' b1 w1 prv p1 rel by (intro exI [of _ "u # ys'"]) (simp add: coalesce_prev_first)
  next
    case (snoc zs z)
    let ?s = "coalesce_next u s"
    have eq: "coalesce_prev u ?s = coalesce_next z ?s"
      using ys'(2) p1 prv snoc by (intro coalesce_prev_eq_next [of _ h zs _ _ ys']) simp_all
    have "length (blocks ?s zs) = length (blocks s zs)" by (simp add: blocks_def)
    then have b2: "blocks ?s zs = blocks s zs"
      "blocks ?s (z # u # ys') = (unat z, unat (block_size s z) + 24) # join (unat u, t) (blocks s ys)"
      using b1 by (simp_all add: snoc)
    have off: "hhdm_offset ?s = off" using w1 ok(3) by (simp add: header_writes_def)
    have "blocks_ok off (join (unat u, t) (blocks s ys))" by (rule join_ok [OF bok(3) blk(3) low])
    then have "list_all (\<lambda>(b, v). within (hhdm_offset ?s) b v) (blocks ?s (z # u # ys'))"
      unfolding b2(2) off using bok(2) by (simp add: blocks_ok_def snoc)
    then obtain us where us: "set us \<subseteq> set (u # ys')" "linked (coalesce_next z ?s) h (zs @ z # us)"
      and b3: "blocks (coalesce_next z ?s) (zs @ z # us)
        = blocks ?s zs @ join (unat z, unat (block_size ?s z) + 24) (blocks ?s (u # ys'))"
      and w2: "header_writes (set zs \<union> insert z (set (u # ys'))) ?s (coalesce_next z ?s)"
      using coalesce_next_joins [of ?s h zs z "u # ys'"] ys'(2) snoc by auto
    have "header_writes (set xs \<union> insert u (set ys)) s (coalesce_next z ?s)"
      by (rule header_writes_trans [OF w1 w2]) (use ys'(1) snoc in auto)
    moreover have "blocks (coalesce_next z ?s) (zs @ z # us) = release (unat u, t) bs"
      unfolding b3 using b2 rel by (simp add: snoc)
    ultimately show ?thesis unfolding eq using us(2) by blast
  qed
qed

lemma sorted_split_at:
  fixes u :: u64
  shows "sorted_wrt (<) as \<Longrightarrow> list_all (\<lambda>b. \<not> b < u) (dropWhile (\<lambda>b. b < u) as)"
proof (induction as)
  case (Cons a as)
  show ?case
  proof (cases "a < u")
    case False
    have "\<not> b < u" if "b \<in> set as" for b using that Cons.prems False by (meson order.strict_trans sorted_wrt.simps(2))
    then show ?thesis using False by (simp add: list_all_iff)
  qed (use Cons in simp)
qed simp

text \<open>A used block beside a free list: the header \<open>u\<close> of a block of \<open>t\<close> bytes, large enough for the
  header of a free block.\<close>

definition used_block :: "'z machine_scheme \<Rightarrow> u64 list \<Rightarrow> u64 \<Rightarrow> nat \<Rightarrow> bool" where
  "used_block s as u t \<longleftrightarrow> u \<noteq> 0 \<and> used_magic s u = magic_constant \<and> t = unat (block_size s u) + 16 \<and> 24 \<le> t \<and>
     within (hhdm_offset s) (unat u) t \<and> beside (unat u) t (blocks s as)"

lemma used_block_headers:
  assumes fl: "free_list s h as" and ub: "used_block s as u t"
  shows "u \<notin> set as" "headers_ok (hhdm_offset s) (insert u (set as))"
proof -
  have sep: "unat b + (unat (block_size s b) + 24) \<le> unat u \<or> unat u + t \<le> unat b" if "b \<in> set as" for b
    using ub that by (auto simp: used_block_def beside_def blocks_def list_all_iff)
  then have ap: "apart u b \<and> apart b u" if "b \<in> set as" for b
    using ub that by (fastforce simp: used_block_def apart_def)
  have "\<not> apart u u" by (simp add: apart_def)
  then show "u \<notin> set as" using ap by blast
  have "within (hhdm_offset s) (unat u) 24" using ub by (auto simp: used_block_def within_def)
  then show "headers_ok (hhdm_offset s) (insert u (set as))"
    using free_list_linked [OF fl] ub ap by (auto simp: linked_def headers_ok_def used_block_def)
qed

lemma used_block_as_free:
  assumes "used_block s as u t"
  shows "unat (block_size s u + sizeof_used - sizeof_free) + 24 = t"
proof -
  have sz: "24 \<le> unat (block_size s u) + 16" "unat (block_size s u) + 16 < 2 ^ 64" and t: "t = unat (block_size s u) + 16"
    using assms by (auto simp: used_block_def within_def)
  have "unat (block_size s u + 16) = unat (block_size s u) + 16" using sz(2) by (rule unat_request)
  then show ?thesis
    using sz t unat_sub [of 24 "block_size s u + 16"] by (simp add: sizeof_used_def sizeof_free_def word_le_nat_alt)
qed

lemma deallocate_releases:
  fixes s :: "'z machine_scheme"
  assumes fl: "free_list s head as" and ub: "used_block s as (base - sizeof_used) t"
  shows "\<exists>head' s' as'. deallocate_impl base (head, s) = ret (head', s') \<and> free_list s' head' as' \<and>
    blocks s' as' = release (unat (base - sizeof_used), t) (blocks s as) \<and>
    header_writes (insert (base - sizeof_used) (set as)) s s'"
proof -
  define u where "u = base - sizeof_used"
  define xs where "xs = takeWhile (\<lambda>b. b < u) as"
  define ys where "ys = dropWhile (\<lambda>b. b < u) as"
  define n where "n = block_size s u + sizeof_used - sizeof_free"
  define node where "node = (case ys of [] \<Rightarrow> 0 | b # _ \<Rightarrow> b)"
  define prv where "prv = (if xs = [] then 0 else last xs)"
  define s1 where "s1 = new_free u n node prv s"
  obtain h' s2 where s2: "(h', s2) = (if prv = 0 then (u, s1) else (head, store64 (prv + 8) u s1))"
    by (metis surj_pair)
  define s3 where "s3 = (if node \<noteq> 0 then store64 (node + 16) u s2 else s2)"
  have ubu: "used_block s as u t" using ub by (simp add: u_def)
  have as: "as = xs @ ys" by (simp add: xs_def ys_def)
  have ord: "list_all (\<lambda>b. b < u) xs" unfolding xs_def list_all_iff using set_takeWhileD by fast
  have ord': "list_all (\<lambda>b. \<not> b < u) ys" unfolding ys_def by (rule sorted_split_at [OF free_list_sorted [OF fl]])
  have nh: "u \<notin> set xs \<union> set ys" "headers_ok (hhdm_offset s) (insert u (set xs \<union> set ys))"
    using used_block_headers [OF fl ubu] as by auto
  note ins = linked_insert [OF free_list_linked [OF fl, unfolded as] nh node_def prv_def s1_def s2 s3_def]
  have n: "unat n + 24 = t" using used_block_as_free [OF ubu] by (simp add: n_def)
  have "length (blocks s3 xs) = length (blocks s xs)" by (simp add: blocks_def)
  then have bs: "blocks s3 xs @ blocks s3 ys = blocks s as" "unat (block_size s3 u) + 24 = t"
    using ins(2) n by (simp_all add: as)
  have off: "hhdm_offset s3 = hhdm_offset s" using ins(4) by (simp add: header_writes_def)
  let ?s = "coalesce_prev u (coalesce_next u s3)"
  have bok: "blocks_ok (hhdm_offset s) (blocks s as)" "beside (unat u) t (blocks s as)" "within (hhdm_offset s) (unat u) t" "0 < t"
    using fl ubu by (auto simp: free_list_def used_block_def)
  obtain as' where as': "linked ?s h' as'" "blocks ?s as' = release (unat u, t) (blocks s as)"
    and w: "header_writes (set xs \<union> insert u (set ys)) s3 ?s"
    using coalesce_releases [OF ins(1) bok(1,2) off [symmetric] bs bok(3) ord ord'] ins(3) prv_def by auto
  have w': "header_writes (insert u (set as)) s ?s"
    by (rule header_writes_trans [OF ins(4) [folded set_append, folded as] w]) (auto simp: as)
  then have "free_list ?s h' as'"
    using as' release_ok [OF bok(1,3,4,2)] by (auto simp: free_list_def linked_def headers_ok_def header_writes_def)
  moreover have "deallocate_impl base (head, s) = ret (h', ?s)"
  proof -
    have "find_position u s head 0 = ret (node, prv)"
      unfolding node_def prv_def using fl as ord ord' by (intro find_position_splits) (simp_all add: free_list_def)
    moreover have "used_magic s u = magic_constant" using ubu by (simp add: used_block_def)
    ultimately show ?thesis
      using s2 by (cases "prv = 0"; cases "node = 0")
        (simp_all add: deallocate_impl_def u_def [symmetric] n_def [symmetric] s3_def s1_def Let_def)
  qed
  ultimately show ?thesis using as'(2) w' unfolding u_def by blast
qed

text \<open>C6. \<^verbatim>\<open>deallocate\<close> of a used block that carries the magic number, lies beside the free blocks and is at least
  24 bytes long (at least 8 were asked for; the size of a smaller one wraps) returns:
  the free blocks are the old ones with the block in its place, merged with the neighbours it touches,
  so that they cover the old free bytes and the freed ones; they form a well-formed list again, and no
  memory outside the free blocks and the freed one changes.\<close>

theorem deallocate_merges_block:
  fixes s :: "'z machine_scheme"
  assumes fl: "free_list s head as" and ub: "used_block s as (base - sizeof_used) t"
  shows "\<exists>head' s' as'. deallocate_impl base (head, s) = ret (head', s') \<and> free_list s' head' as' \<and>
    blocks s' as' = release (unat (base - sizeof_used), t) (blocks s as) \<and>
    block_bytes (blocks s' as')
      = block_bytes (blocks s as) \<union> {unat (base - sizeof_used)..<unat (base - sizeof_used) + t} \<and>
    (\<forall>q. within (hhdm_offset s) (unat q) 8 \<and> clear_of ((unat (base - sizeof_used), t) # blocks s as) q
       \<longrightarrow> load64 s' q = load64 s q)"
proof -
  let ?u = "base - sizeof_used"
  obtain head' s' as' where d: "deallocate_impl base (head, s) = ret (head', s')" "free_list s' head' as'"
    "blocks s' as' = release (unat ?u, t) (blocks s as)" and w: "header_writes (insert ?u (set as)) s s'"
    using deallocate_releases [OF fl ub] by blast
  have "24 \<le> t" using ub by (simp add: used_block_def)
  then have "load64 s' q = load64 s q"
    if "within (hhdm_offset s) (unat q) 8" "clear_of ((unat ?u, t) # blocks s as) q" for q
    using w that by (fastforce simp: header_writes_def clear_of_def blocks_def list_all_iff)
  then show ?thesis using d by (auto simp: release_bytes)
qed

text \<open>Releasing the end of a block that was carved off restores the block.\<close>

lemma release_carved:
  assumes g: "gapped (xs @ (a, t) # ys)" and pos: "list_all (\<lambda>(b, v). 0 < v) xs" and r: "r < t"
  shows "release (a + (t - r), r) (xs @ (a, t - r) # ys) = xs @ (a, t) # ys"
proof -
  have ys: "list_all (\<lambda>(b, v). a + t < b) ys" and xs: "list_all (\<lambda>(b, v). b < a) xs"
    using g by (auto simp: sorted_wrt_append list_all_iff)
  have "release (a + (t - r), r) ((xs @ [(a, t - r)]) @ ys)
      = butlast (xs @ [(a, t - r)]) @ join (last (xs @ [(a, t - r)])) (join (a + (t - r), r) ys)"
    using assms ys xs
    by (subst release_skip) (auto simp: sorted_wrt_append list_all_iff split: prod.splits)
  moreover have "join (a + (t - r), r) ys = (a + (t - r), r) # ys"
    using ys r by (cases ys) auto
  ultimately show ?thesis using r by simp
qed

lemma carved_beside:
  assumes "gapped (xs @ (a, t) # ys)" "list_all (\<lambda>(b, v). 24 \<le> v) (xs @ ys)" "r + 24 \<le> t"
  shows "beside (a + (t - r)) r (xs @ (a, t - r) # ys)"
  using assms by (fastforce simp: beside_def sorted_wrt_append list_all_iff)

lemma blocks_sizes: "list_all (\<lambda>(b, v). 24 \<le> v) (blocks s as)" "list_all (\<lambda>(b, v). 0 < v) (blocks s as)"
  by (simp_all add: blocks_def list_all_iff)

lemma blocks_inject:
  assumes "blocks s as = blocks s' bs" shows "as = bs"
proof -
  have "map unat as = map unat bs" using arg_cong [OF assms, of "map fst"] by (simp add: blocks_def comp_def)
  then show ?thesis using inj_map_eq_map [of unat as bs] by (simp add: inj_def word_unat_eq_iff)
qed

text \<open>An allocation that is not an exact fit, with the block it hands out beside the free ones.\<close>

lemma allocate_used:
  fixes s :: "'z machine_scheme"
  assumes fl: "free_list s head (xs @ a # ys)" and f: "unat request + 16 < unat (block_size s a)"
    and no: "list_all (\<lambda>b. unat (block_size s b) < unat request + 16) xs" and r: "8 \<le> unat request"
  obtains x s' where "allocate_impl request (head, s) = ret (x + 16, head, s')"
    "unat x = unat a + (unat (block_size s a) + 24 - (unat request + 16))" "unat (x + 16) = unat x + 16"
    "block_size s' x = request" "hhdm_offset s' = hhdm_offset s"
    "free_list s' head (xs @ a # ys)" "used_block s' (xs @ a # ys) x (unat request + 16)"
    "blocks s' (xs @ a # ys)
       = blocks s xs @ (unat a, unat (block_size s a) + 24 - (unat request + 16)) # blocks s ys"
    "\<And>q. within (hhdm_offset s) (unat q) 8 \<Longrightarrow> clear_of (blocks s (xs @ a # ys)) q \<Longrightarrow> load64 s' q = load64 s q"
proof -
  let ?r = "unat request + 16" and ?t = "unat (block_size s a) + 24" and ?as = "xs @ a # ys"
  obtain x s1 where al: "allocate_impl request (head, s) = ret (x + 16, head, s1)"
    and ptr: "unat (x + 16) = unat a + ?t - unat request"
    and hdr: "block_size s1 x = request" "used_magic s1 x = magic_constant" "hhdm_offset s1 = hhdm_offset s"
    and fl1: "free_list s1 head ?as"
    and bl: "blocks s1 ?as = blocks s xs @ (unat a, ?t - ?r) # blocks s ys"
    and out: "\<And>q. within (hhdm_offset s) (unat q) 8 \<Longrightarrow> clear_of (blocks s ?as) q \<Longrightarrow> load64 s1 q = load64 s q"
    by (rule allocate_at [OF fl f no]) blast
  have ga: "gapped (blocks s xs @ (unat a, ?t) # blocks s ys)" and wa: "within (hhdm_offset s) (unat a) ?t"
    using fl by (simp_all add: free_list_def blocks_ok_def)
  have "unat (x + 16) \<ge> 16" using ptr f by simp
  then have "unat ((x + 16) - 16) = unat (x + 16) - 16" using unat_sub [of 16 "x + 16"] by (simp add: word_le_nat_alt)
  then have x: "unat x = unat a + (?t - ?r)" "unat (x + 16) = unat x + 16" using ptr f by simp_all
  have "used_block s1 ?as x ?r"
    unfolding used_block_def
  proof (intro conjI)
    show "x \<noteq> 0" using x f by (auto simp: word_unat_eq_iff)
    show "within (hhdm_offset s1) (unat x) ?r" using wa x f by (auto simp: within_def hdr(3))
    show "beside (unat x) ?r (blocks s1 ?as)"
      unfolding bl x using f by (intro carved_beside ga) (simp_all add: blocks_sizes)
  qed (use r hdr in simp_all)
  from that [OF al x hdr(1,3) fl1 this bl out] show ?thesis .
qed

text \<open>C22. Freeing undoes allocating: on a well-formed list, an allocation of at least 8 bytes that is not an
  exact fit, freed at once, gives back the same free blocks at the same head.\<close>

theorem free_undoes_allocate:
  fixes s :: "'z machine_scheme"
  assumes fl: "free_list s head as" and r: "8 \<le> unat request"
    and fits: "carve (unat request) (blocks s as) \<noteq> None" and inexact: "\<not> exact_fit (unat request) (blocks s as)"
  shows "\<exists>ptr s1 s2. allocate_impl request (head, s) = ret (ptr, head, s1) \<and>
    deallocate_impl ptr (head, s1) = ret (head, s2) \<and> free_list s2 head as \<and> blocks s2 as = blocks s as"
proof (cases rule: first_fitting [of s "unat request + 16" as])
  case 1
  then show ?thesis using fits carve_skip(1) [OF blocks_skip [OF 1], of "[]"] by simp
next
  case (2 xs a ys)
  note as = 2(1)
  let ?r = "unat request + 16" and ?t = "unat (block_size s a) + 24"
  have f: "?r < unat (block_size s a)"
    using inexact 2(3) carve_skip(2) [OF blocks_skip [OF 2(2)]] by (auto simp: as)
  have ga: "gapped (blocks s xs @ (unat a, ?t) # blocks s ys)" using fl by (simp add: free_list_def blocks_ok_def as)
  obtain x s1 where al: "allocate_impl request (head, s) = ret (x + 16, head, s1)"
    and x: "unat x = unat a + (?t - ?r)" and fl1: "free_list s1 head as"
    and bl: "blocks s1 as = blocks s xs @ (unat a, ?t - ?r) # blocks s ys" and "used_block s1 as x ?r"
    by (rule allocate_used [OF fl [unfolded as] f 2(2) r]) (simp add: as)
  then obtain h2 s2 bs where d: "deallocate_impl (x + 16) (head, s1) = ret (h2, s2)" "free_list s2 h2 bs"
    "blocks s2 bs = release (unat x, ?r) (blocks s1 as)"
    using deallocate_releases [OF fl1, of "x + 16" ?r] by (auto simp: sizeof_used_def)
  have "blocks s2 bs = blocks s as"
    unfolding d(3) bl x using release_carved [OF ga blocks_sizes(2), of ?r] f by (simp add: as)
  moreover have "bs = as" using blocks_inject calculation by blast
  moreover have "h2 = head"
    using next_path_hd [of s head as] next_path_hd [of s2 h2 bs] fl d(2) calculation(2) by (simp add: free_list_def)
  ultimately show ?thesis using al d by auto
qed

text \<open>C40. An exact fit in the first block destroys the list: the header of the used block replaces the
  pointer to the next block by the magic number, which \<^verbatim>\<open>allocate\<close> then reads as the new head.\<close>

theorem exact_fit_loses_list:
  assumes "head \<noteq> 0" and "request + 16 = block_size s head"
  shows "\<exists>s'. allocate_impl request (head, s) = ret (head + 16, magic_constant, s')"
proof -
  have "find_fit request s head = ret head"
    using assms by (subst find_fit.simps) (simp add: can_fit_def sizeof_used_def)
  then show ?thesis
    using assms
    by (simp add: allocate_impl_def perfect_fit_def reserve_entire_def new_used_def sizeof_used_def Let_def)
qed

section \<open>Adding memory\<close>

lemma free_list_cong:
  assumes "free_list s h as" "hhdm_offset s' = hhdm_offset s"
    and "\<And>b. b \<in> set as \<Longrightarrow> block_size s' b = block_size s b" "\<And>b. b \<in> set as \<Longrightarrow> block_next s' b = block_next s b"
  shows "free_list s' h as" "blocks s' as = blocks s as"
  using assms next_path_cong [of as s' s] blocks_cong [of as s' s] by (simp_all add: free_list_def)

lemma new_used_beside:
  assumes fl: "free_list s h as" and base: "base \<noteq> 0" "8 \<le> unat sz" "within (hhdm_offset s) (unat base) (unat sz + 16)"
    and free: "beside (unat base) (unat sz + 16) (blocks s as)"
  shows "free_list (new_used base sz s) h as" "blocks (new_used base sz s) as = blocks s as"
    "used_block (new_used base sz s) as base (unat sz + 16)"
proof -
  let ?A = "insert base (set as)" and ?s = "new_used base sz s"
  have ap: "apart base b" "apart b base" if "b \<in> set as" for b
    using free base(2) that by (fastforce simp: beside_def blocks_def list_all_iff apart_def)+
  have "within (hhdm_offset s) (unat base) 24" using base(2,3) by (auto simp: within_def)
  then have ok: "headers_ok (hhdm_offset s) ?A"
    using free_list_linked [OF fl] base(1) ap by (auto simp: linked_def headers_ok_def)
  have fields: "block_size ?s b = block_size s b" "block_next ?s b = block_next s b" if "b \<in> set as" for b
  proof -
    have "b \<noteq> base" using ap(1) [OF that] by (auto simp: apart_def)
    then show "block_size ?s b = block_size s b" "block_next ?s b = block_next s b"
      using that by (simp_all add: new_used_def header_fields [OF ok])
  qed
  have off: "hhdm_offset ?s = hhdm_offset s" by (simp add: new_used_def)
  show "free_list ?s h as" "blocks ?s as = blocks s as" by (rule free_list_cong [OF fl off fields]; assumption)+
  then show "used_block ?s as base (unat sz + 16)"
    using base free off by (simp add: used_block_def) (simp add: new_used_def header_fields [OF ok])
qed

text \<open>\<^verbatim>\<open>add_memory\<close> of \<open>size\<close> bytes at \<open>base\<close> beside the free blocks releases a block of \<open>size + 16\<close> bytes: the
  header is counted on top of the size.\<close>

lemma add_memory_releases:
  fixes s :: "'z machine_scheme"
  assumes "free_list s head as" and "base \<noteq> 0" "8 \<le> unat sz" "within (hhdm_offset s) (unat base) (unat sz + 16)"
    and "beside (unat base) (unat sz + 16) (blocks s as)"
  shows "\<exists>head' s' as'. add_memory_impl base sz (head, s) = ret (head', s') \<and> free_list s' head' as' \<and>
    blocks s' as' = release (unat base, unat sz + 16) (blocks s as) \<and> hhdm_offset s' = hhdm_offset s"
proof -
  note nu = new_used_beside [OF assms]
  obtain head' s' as' where "deallocate_impl (base + sizeof_used) (head, new_used base sz s) = ret (head', s')"
    "free_list s' head' as'" "blocks s' as' = release (unat base, unat sz + 16) (blocks s as)"
    "hhdm_offset s' = hhdm_offset (new_used base sz s)"
    using deallocate_releases [OF nu(1), of "base + sizeof_used" "unat sz + 16"] nu(2,3) by (auto simp: header_writes_def)
  then show ?thesis by (auto simp: add_memory_impl_def Let_def new_used_def)
qed

section \<open>An example\<close>

text \<open>Two free blocks with 100 and 1000 bytes after their headers, and a used block of 64 bytes.\<close>

definition example_heap :: machine where
  "example_heap = \<lparr>mem = write_u64 0x100001000 100 (write_u64 0x100001008 0x100002000
     (write_u64 0x100002000 1000 (write_u64 0x100002008 0
     (write_u64 0x100003000 64 (write_u64 0x100003008 magic_constant (\<lambda>_. 0)))))),
     hhdm_offset = 0xffff800000000000\<rparr>"

lemma example_heap_offset [simp]: "hhdm_offset example_heap = 0xffff800000000000" and
  example_heap_reads [simp]: "block_size example_heap 0x100001000 = 100" "block_size example_heap 0x100001008 = 0x100002000"
  "block_size example_heap 0x100002000 = 1000" "block_size example_heap 0x100002008 = 0"
  "block_size example_heap 0x100003000 = 64" "block_size example_heap 0x100003008 = magic_constant"
  by (simp_all add: example_heap_def load64_def cell_of_def sep8_def)

lemma example_heap_blocks:
  "blocks example_heap [0x100001000, 0x100002000] = [(0x100001000, 124), (0x100002000, 1024)]"
  by (simp add: blocks_def)

lemma example_heap_free_list: "free_list example_heap 0x100001000 [0x100001000, 0x100002000]"
  by (simp add: free_list_def blocks_ok_def example_heap_blocks within_def hhdm_ok_def)

theorem allocate_is_first_fit_witness:
  "\<exists>ptr s'. allocate_impl 200 (0x100001000, example_heap) = ret (ptr, 0x100001000, s') \<and> unat ptr = 0x100002338 \<and>
     blocks s' [0x100001000, 0x100002000] = [(0x100001000, 124), (0x100002000, 808)]"
  using allocate_is_first_fit [OF example_heap_free_list, of 200] by (auto simp: example_heap_blocks)

theorem deallocate_merges_block_witness:
  "\<exists>head' s' as'. deallocate_impl 0x100003010 (0x100001000, example_heap) = ret (head', s') \<and>
     blocks s' as' = [(0x100001000, 124), (0x100002000, 1024), (0x100003000, 80)]"
proof -
  have "used_block example_heap [0x100001000, 0x100002000] (0x100003010 - sizeof_used) 80"
    by (simp add: used_block_def sizeof_used_def example_heap_blocks beside_def within_def)
  from deallocate_merges_block [OF example_heap_free_list this] show ?thesis
    by (auto simp: example_heap_blocks sizeof_used_def)
qed

theorem free_undoes_allocate_witness:
  "\<exists>ptr s1 s2. allocate_impl 200 (0x100001000, example_heap) = ret (ptr, 0x100001000, s1) \<and>
     deallocate_impl ptr (0x100001000, s1) = ret (0x100001000, s2) \<and>
     blocks s2 [0x100001000, 0x100002000] = [(0x100001000, 124), (0x100002000, 1024)]"
  using free_undoes_allocate [OF example_heap_free_list, of 200] by (auto simp: example_heap_blocks)

theorem exact_fit_loses_list_witness:
  "\<exists>s'. allocate_impl 84 (0x100001000, example_heap) = ret (0x100001010, magic_constant, s')"
  using exact_fit_loses_list [of "0x100001000" 84 example_heap] by simp

end
