(* ===== verification/Vmm.thy ===== *)
theory Vmm
  imports Free_List Paging
begin

text \<open>
  The virtual memory manager (\<^verbatim>\<open>vmm.cpp\<close>): the static free-list allocator over the free regions of the
  virtual address space. The state is the allocator's \<^verbatim>\<open>head\<close> beside the kernel's. The headers lie in
  virtual memory that the page-fault handler maps at the first access; the machine's memory is a function
  of the virtual address there.
\<close>

definition vmm_init :: "u64 \<times> 'z paging_state_scheme \<Rightarrow> (u64 \<times> 'z paging_state_scheme) res" where
  "vmm_init = (\<lambda>(head, s).
     res_bind (paging_get_initial_free_regions s) (\<lambda>regions.
     res_fold (\<lambda>region allocator.
        if region_size region = 0 then ret allocator
        else Allocator_add_memory (region_base region) (region_size region) allocator)
       regions (head, s)))"

definition vmalloc :: "u64 \<Rightarrow> u64 \<times> 'z paging_state_scheme \<Rightarrow> (u64 \<times> u64 \<times> 'z paging_state_scheme) res" where
  "vmalloc sz = Allocator_allocate sz"

definition vfree :: "u64 \<Rightarrow> u64 \<times> 'z paging_state_scheme \<Rightarrow> (u64 \<times> 'z paging_state_scheme) res" where
  "vfree ptr allocator =
     res_bind (Allocator_deallocate ptr 0 allocator) (\<lambda>(head, s).
     res_bind (paging_get_translation s ptr) (\<lambda>translation.
     ret (head, deallocate_frame (physical_address translation) s)))"

text \<open>A region as the block that \<^verbatim>\<open>add_memory\<close> makes of it.\<close>

definition region_block :: "MemoryRegion \<Rightarrow> nat \<times> nat" where
  "region_block r = (unat (region_base r), unat (region_size r) + 16)"

lemma release_after:
  assumes "list_all (\<lambda>(b, u). b + u < a) bs" "gapped bs" "list_all (\<lambda>(b, u). 0 < u) bs"
  shows "release (a, t) bs = bs @ [(a, t)]"
proof -
  have "list_all (\<lambda>(b, u). b < a) bs" using assms(1) by (auto simp: list_all_iff)
  then have "release (a, t) (bs @ []) = (if bs = [] then [(a, t)] else butlast bs @ join (last bs) [(a, t)])"
    using assms by (subst release_skip) auto
  then show ?thesis using assms(1) by (cases bs rule: rev_cases) auto
qed

definition regions_ok :: "u64 \<Rightarrow> MemoryRegion list \<Rightarrow> bool" where
  "regions_ok off rs \<longleftrightarrow> blocks_ok off (map region_block rs) \<and> list_all (\<lambda>r. region_base r \<noteq> 0 \<and> 8 \<le> unat (region_size r)) rs"

lemma add_regions:
  fixes s :: "'z machine_scheme"
  assumes "free_list s head as" and "blocks s as = map region_block done_rs" and "regions_ok (hhdm_offset s) (done_rs @ rs)"
  shows "\<exists>head' s' as'. res_fold (\<lambda>r. add_memory_impl (region_base r) (region_size r)) rs (head, s) = ret (head', s') \<and>
    free_list s' head' as' \<and> blocks s' as' = map region_block (done_rs @ rs)"
  using assms
proof (induction rs arbitrary: s head as done_rs)
  case Nil
  then show ?case by auto
next
  case (Cons r rs)
  let ?a = "unat (region_base r)" and ?t = "unat (region_size r) + 16"
  have ok: "region_base r \<noteq> 0" "8 \<le> unat (region_size r)" "within (hhdm_offset s) ?a ?t"
    "list_all (\<lambda>(b, u). b + u < ?a) (blocks s as)"
    using Cons.prems(2,3) by (auto simp: regions_ok_def blocks_ok_def region_block_def sorted_wrt_append list_all_iff)
  have sizes: "list_all (\<lambda>(b, u). 24 \<le> u) (blocks s as)" "list_all (\<lambda>(b, u). 0 < u) (blocks s as)"
    by (rule blocks_sizes)+
  then have "beside ?a ?t (blocks s as)" using ok(4) by (auto simp: beside_def list_all_iff)
  then obtain head1 s1 as1 where add: "add_memory_impl (region_base r) (region_size r) (head, s) = ret (head1, s1)"
    "free_list s1 head1 as1" "blocks s1 as1 = release (?a, ?t) (blocks s as)" "hhdm_offset s1 = hhdm_offset s"
    using add_memory_releases [OF Cons.prems(1) ok(1-3)] by blast
  have "gapped (blocks s as)" using Cons.prems(1) by (simp add: free_list_def blocks_ok_def)
  then have "blocks s1 as1 = map region_block (done_rs @ [r])"
    unfolding add(3) using release_after [OF ok(4) _ sizes(2)] Cons.prems(2) by (simp add: region_block_def)
  from Cons.IH [OF add(2) this] show ?case using Cons.prems(3) add(1,4) by simp
qed

lemma res_fold_skip:
  "res_fold (\<lambda>x s. if P x then ret s else f x s) xs s = res_fold f (filter (\<lambda>x. \<not> P x) xs) s"
proof (induction xs arbitrary: s)
  case (Cons x xs)
  have "res_fold (\<lambda>x s. if P x then ret s else f x s) xs = res_fold f (filter (\<lambda>x. \<not> P x) xs)"
    by (rule ext) (rule Cons.IH)
  then show ?case by simp
qed simp

text \<open>The blocks that \<^verbatim>\<open>vmm_init\<close> makes; its head is the first region.\<close>

lemma vmm_init_blocks:
  fixes s :: "'z paging_state_scheme"
  assumes regions: "paging_get_initial_free_regions s = ret regions" and nonempty: "filter (\<lambda>r. region_size r \<noteq> 0) regions = r # rs"
    and ok: "hhdm_ok (hhdm_offset s)" "regions_ok (hhdm_offset s) (r # rs)"
  obtains s' ys where "vmm_init (0, s) = ret (region_base r, s')" "free_list s' (region_base r) (region_base r # ys)"
    "blocks s' (region_base r # ys) = map region_block (r # rs)"
proof -
  have fl0: "free_list s 0 []" using ok(1) by (simp add: free_list_def blocks_ok_def)
  have "vmm_init (0, s) = res_fold (\<lambda>r. add_memory_impl (region_base r) (region_size r)) (r # rs) (0, s)"
    using regions nonempty by (simp add: vmm_init_def res_fold_skip del: res_fold.simps)
  then obtain head s' as where init: "vmm_init (0, s) = ret (head, s')" and fl: "free_list s' head as"
    and bl: "blocks s' as = map region_block (r # rs)"
    using add_regions [OF fl0, of "[]" "r # rs"] ok(2) by auto
  obtain a ys where as: "as = a # ys" using bl by (cases as) auto
  have a: "a = region_base r" using bl by (simp add: as region_block_def word_unat_eq_iff)
  have "head = a" using next_path_hd [of s' head as] fl by (simp add: free_list_def as)
  then show ?thesis using that init fl bl by (simp add: as a)
qed

text \<open>C28. \<^verbatim>\<open>vmm_init\<close> makes one free block of each free region, in order, whenever the regions ascend with
  more than 16 bytes between them and lie outside the direct map; each block is 16 bytes longer than its
  region. The first \<^verbatim>\<open>vmalloc\<close> that fits in the first region therefore returns memory whose last 16
  bytes lie past the region.\<close>

theorem vmm_init_overruns_regions:
  fixes s :: "'z paging_state_scheme"
  assumes regions: "paging_get_initial_free_regions s = ret regions" and nonempty: "filter (\<lambda>r. region_size r \<noteq> 0) regions = r # rs"
    and ok: "hhdm_ok (hhdm_offset s)" "regions_ok (hhdm_offset s) (r # rs)"
    and fits: "unat request + 24 < unat (region_size r)"
  shows "\<exists>head s' as. vmm_init (0, s) = ret (head, s') \<and> free_list s' head as \<and>
    blocks s' as = map region_block (r # rs) \<and>
    (\<exists>ptr s''. vmalloc request (head, s') = ret (ptr, head, s'') \<and>
      unat ptr + unat request = unat (region_base r) + unat (region_size r) + 16)"
proof -
  let ?a = "region_base r"
  obtain s' ys where init: "vmm_init (0, s) = ret (?a, s')" and fl: "free_list s' ?a (?a # ys)"
    and bl: "blocks s' (?a # ys) = map region_block (r # rs)"
    by (rule vmm_init_blocks [OF regions nonempty ok])
  have a: "unat (block_size s' ?a) + 24 = unat (region_size r) + 16" using bl by (simp add: region_block_def)
  obtain x s'' where "allocate_impl request (?a, s') = ret (x + 16, ?a, s'')"
    "unat (x + 16) = unat ?a + (unat (block_size s' ?a) + 24) - unat request"
    by (rule allocate_at [of s' ?a "[]" ?a ys request]) (use fl a fits in auto)
  then have "\<exists>ptr s''. vmalloc request (?a, s') = ret (ptr, ?a, s'') \<and>
      unat ptr + unat request = unat (region_base r) + unat (region_size r) + 16"
    using a fits by (auto simp: vmalloc_def)
  then show ?thesis using init fl bl by blast
qed

lemma example_free_regions:
  "paging_get_initial_free_regions example_kernel
     = ret (\<lparr>region_base = 0x100001000, region_size = 0x7ffefffff000\<rparr> #
         \<lparr>region_base = 0xffff800100000000, region_size = 0x7ffe80000000\<rparr> # replicate 14 \<lparr>region_base = 0, region_size = 0\<rparr>)"
proof -
  have "replicate 16 z = z # z # replicate 14 z" for z :: MemoryRegion
    by (simp add: replicate_Suc [symmetric] del: replicate_Suc)
  then show ?thesis
    by (simp add: paging_get_initial_free_regions_def unavailable_virtual_memory_ranges_def initial_mappings_def
        example_kernel_def free_region_step_def kpp_max_def paging_num_free_memory_regions_def)
qed

text \<open>On the address space of the boot mappings with a kernel at the usual address, the first region ends
  where the non-canonical addresses begin.\<close>

theorem vmm_init_overruns_regions_witness:
  "\<exists>head s' ptr s''. vmm_init (0, example_kernel) = ret (head, s') \<and> vmalloc 64 (head, s') = ret (ptr, head, s'') \<and>
     unat ptr + 64 = 2 ^ 47 + 16"
proof -
  let ?r1 = "\<lparr>region_base = 0x100001000, region_size = 0x7ffefffff000\<rparr>"
  let ?r2 = "\<lparr>region_base = 0xffff800100000000, region_size = 0x7ffe80000000\<rparr>"
  note regions = example_free_regions
  have "regions_ok (hhdm_offset example_kernel) [?r1, ?r2]"
    by (simp add: regions_ok_def blocks_ok_def region_block_def within_def example_kernel_def)
  moreover have "hhdm_ok (hhdm_offset example_kernel)" by (simp add: hhdm_ok_def example_kernel_def)
  moreover have "filter (\<lambda>r. region_size r \<noteq> 0) (?r1 # ?r2 # replicate 14 \<lparr>region_base = 0, region_size = 0\<rparr>) = [?r1, ?r2]"
    by (simp add: filter_replicate)
  ultimately show ?thesis
    using vmm_init_overruns_regions [OF regions, of ?r1 "[?r2]" 64] by fastforce
qed

end
