(* ===== verification/Boot.thy ===== *)
theory Boot
  imports Shell Vmm
begin

text \<open>
  The boot sequence (\<^verbatim>\<open>kernel_init\<close>, \<^verbatim>\<open>kernel.cpp\<close>): the components in the order the kernel initialises
  them. Global objects are in their initial state when it starts (\<^verbatim>\<open>call_global_constructors\<close> runs
  constructors that the linker collects).
\<close>

text \<open>What the kernel is given: the devices, the addresses the linker chose for the service routines and
  the descriptor tables, the font, the uninitialised characters of the line buffer, and the framebuffer and
  the RSDP of the bootloader.\<close>

record boot_inputs =
  boot_devices :: devices
  boot_isr_address :: "isr \<Rightarrow> u64"
  boot_gdt_address :: u64
  boot_idt_address :: u64
  boot_font :: "u64 \<Rightarrow> u8"
  boot_characters :: "u8 list list"
  boot_framebuffer :: Framebuffer
  boot_rsdp :: u64

definition kernel_init_devices :: "boot_inputs \<Rightarrow> 'z apic_state_scheme \<Rightarrow> 'z apic_state_scheme res" where
  "kernel_init_devices B s =
     res_bind (enableAPIC (boot_devices B) s) (\<lambda>s.
     res_bind (initKeyboardController (boot_devices B) s) (\<lambda>s.
     let apicManager = APICManager_init 0 in
     res_bind (APICManager_initialize (boot_devices B) (boot_rsdp B) apicManager s) (\<lambda>(apicManager, s).
     ret (redirectIrq (boot_devices B) apicManager 1 0x30 s))))"

definition kernel_init :: "boot_inputs \<Rightarrow> u64 \<times> interrupt_state \<Rightarrow> (u64 \<times> interrupt_state) res" where
  "kernel_init B = (\<lambda>(head, s).
     let s = s\<lparr>terminal := KernelTerminal_initialize (boot_font B) (boot_characters B) (boot_framebuffer B) (terminal s)\<rparr>;
         s = gdt_init (boot_gdt_address B) s
     in Option.bind (idt_init (boot_isr_address B) (boot_idt_address B) s) (\<lambda>s.
     res_bind (frame_allocator_init s) (\<lambda>s.
     res_bind (paging_init s) (\<lambda>s.
     res_bind (vmm_init (head, s)) (\<lambda>(head, s).
     res_bind (kernel_init_devices B s) (\<lambda>s. ret (head, s)))))))"

section \<open>The frames the page tables are built from\<close>

text \<open>What the kernel relies on of the memory map: the usable segments are page-aligned and, as Limine
  documents, ascend without overlap; they are below 4 GiB, where the identity map reaches them, and the
  frame at address 0 is not among them.\<close>

definition memory_map_ok :: "limine_memmap_entry list \<Rightarrow> bool" where
  "memory_map_ok mm \<longleftrightarrow>
     list_all (\<lambda>e. is_allocatable e \<longrightarrow> entry_ok e \<and> 0 < unat (entry_base e) \<and>
       unat (entry_base e) + unat (entry_length e) \<le> 2 ^ 32) mm \<and>
     list_all (\<lambda>e. entry_type e = LIMINE_MEMMAP_BOOTLOADER_RECLAIMABLE \<longrightarrow> entry_ok e) mm \<and>
     sorted_wrt (\<lambda>d e. unat (entry_base d) + unat (entry_length d) \<le> unat (entry_base e)) (filter is_allocatable mm)"

lemma frames_of_bounds:
  assumes "entry_ok e" "f \<in> set (frames_of e)"
  shows "unat (entry_base e) \<le> unat f" "unat f < unat (entry_base e) + unat (entry_length e)" "unat f mod 4096 = 0"
proof -
  have "unat (entry_base e + entry_length e) + unat frameSize \<le> 2 ^ 64"
    using assms(1) entry_end [OF assms(1)] by (simp add: entry_ok_def)
  from unat_count_up [OF assms(2) [unfolded frames_of_def] frameSize_pos this]
  obtain k where k: "unat f = unat (entry_base e) + k * 4096" "unat f < unat (entry_base e) + unat (entry_length e)"
    using entry_end [OF assms(1)] by auto
  then show "unat (entry_base e) \<le> unat f" "unat f < unat (entry_base e) + unat (entry_length e)" by simp_all
  show "unat f mod 4096 = 0" using k(1) assms(1) by (simp add: entry_ok_def)
qed

lemma distinct_frames_of: "entry_ok e \<Longrightarrow> distinct (frames_of e)"
  unfolding frames_of_def by (rule distinct_count_up) (use entry_end [of e] in \<open>simp_all add: entry_ok_def\<close>)

lemma usable_frames_ok:
  assumes "memory_map_ok mm"
  shows "distinct (usable_frames mm)" "list_all node_frame (usable_frames mm)"
proof -
  let ?es = "filter is_allocatable mm"
  have es: "list_all (\<lambda>e. entry_ok e \<and> 0 < unat (entry_base e) \<and> unat (entry_base e) + unat (entry_length e) \<le> 2 ^ 32) ?es"
    and sorted: "sorted_wrt (\<lambda>d e. unat (entry_base d) + unat (entry_length d) \<le> unat (entry_base e)) ?es"
    using assms by (auto simp: memory_map_ok_def list_all_iff)
  show "list_all node_frame (usable_frames mm)"
    using es frames_of_bounds by (fastforce simp: usable_frames_def list_all_iff node_frame_def)
  have "list_all entry_ok xs \<Longrightarrow> sorted_wrt (\<lambda>d e. unat (entry_base d) + unat (entry_length d) \<le> unat (entry_base e)) xs
      \<Longrightarrow> distinct (concat (map frames_of xs))" for xs
  proof (induction xs)
    case (Cons e xs)
    have "f \<notin> set (frames_of d)" if "f \<in> set (frames_of e)" "d \<in> set xs" for f d
      using frames_of_bounds [of e f] frames_of_bounds [of d f] that Cons.prems
      by (fastforce simp: list_all_iff)
    then show ?case using Cons distinct_frames_of by auto
  qed simp
  then show "distinct (usable_frames mm)" using es sorted by (simp add: usable_frames_def list_all_iff)
qed

lemma unreserved_off_stack:
  assumes "unat f mod 4096 = 0" "unat b mod 4096 = 0" "unat b + 4096 * unat n \<le> 2 ^ 32"
    and "\<not> (b \<le> f \<and> f < b + n * frameSize)"
  shows "unat f + 4096 \<le> unat b \<or> unat b + 4096 * unat n \<le> unat (f :: u64)"
proof -
  have "unat (n * frameSize) = 4096 * unat n" using assms(3) by (simp add: unat_word_ariths)
  then have e: "unat (b + n * frameSize) = unat b + 4096 * unat n"
    using assms(3) unat_add_no_wrap [of b "n * frameSize"] by simp
  show ?thesis
  proof (cases "unat f < unat b")
    case True
    then obtain i j where "unat f = 4096 * i" "unat b = 4096 * j" "i < j"
      using assms(1,2) by (auto simp: mod_eq_0_iff_dvd elim!: dvdE)
    then show ?thesis by simp
  next
    case False
    then show ?thesis using assms(4) e by (auto simp: word_le_nat_alt word_less_nat_alt)
  qed
qed

text \<open>The frames that \<^verbatim>\<open>frame_allocator_init\<close> leaves are the ones the page tables can be built from.\<close>

definition boot_frames :: "limine_memmap_entry list \<Rightarrow> u64 list" where
  "boot_frames mm = filter (\<lambda>f. \<not> reserved mm f) (usable_frames mm)"

lemma few_frames:
  assumes "memory_map_ok mm" shows "length (usable_frames mm) < 2 ^ 52"
proof -
  have "set (map unat (usable_frames mm)) \<subseteq> {..<2 ^ 32}"
    using usable_frames_ok(2) [OF assms] by (auto simp: list_all_iff node_frame_def)
  then have "card (set (map unat (usable_frames mm))) \<le> 2 ^ 32"
    using card_mono [of "{..<2 ^ 32 :: nat}"] by simp
  moreover have "distinct (map unat (usable_frames mm))"
    using usable_frames_ok(1) [OF assms] by (simp add: distinct_map inj_on_def word_unat_eq_iff)
  ultimately show ?thesis using distinct_card [of "map unat (usable_frames mm)"] by simp
qed

lemma reserve_fits:
  "list_all (\<lambda>e. is_allocatable e \<longrightarrow> unat (entry_base e) + unat (entry_length e) \<le> 2 ^ 32) mm \<Longrightarrow>
   unat n < 2 ^ 52 \<Longrightarrow> manually_reserve_contiguous_frames mm n \<noteq> 0 \<Longrightarrow>
   unat (manually_reserve_contiguous_frames mm n) + 4096 * unat n \<le> 2 ^ 32"
proof (induction mm)
  case (Cons e mm)
  have "unat (n * frameSize) = 4096 * unat n" using Cons.prems(2) by (simp add: unat_word_ariths)
  then show ?case using Cons by (auto simp: word_le_nat_alt)
qed simp

lemma boot_frames_after_init:
  fixes s :: "'z frame_state_scheme"
  assumes ok: "memory_map_ok (memory_map s)" "hhdm_ok (hhdm_offset s)" and fits: "stack_begin (memory_map s) \<noteq> 0"
  shows "\<exists>s'. frame_allocator_init s = ret s' \<and> boot_frames_ok s' \<and> free_frames s' = rev (boot_frames (memory_map s)) \<and>
    memory_map s' = memory_map s \<and> hhdm_offset s' = hhdm_offset s \<and> frame_state.more s' = frame_state.more s"
proof -
  let ?mm = "memory_map s"
  have entries: "\<forall>e \<in> set ?mm. is_allocatable e \<longrightarrow> entry_ok e" using ok(1) by (auto simp: memory_map_ok_def list_all_iff)
  then have b: "unat (stack_frames ?mm) = (length (usable_frames ?mm) + 511) div 512"
    "8 * length (usable_frames ?mm) \<le> 4096 * unat (stack_frames ?mm)"
    using stack_frames_bound [of ?mm] few_frames [OF ok(1)] by auto
  have "unat (stack_frames ?mm) < 2 ^ 52" using b(1) few_frames [OF ok(1)] by simp
  then have low: "unat (stack_begin ?mm) + 4096 * unat (stack_frames ?mm) \<le> 2 ^ 32"
    using fits ok(1) unfolding stack_begin_def
    by (intro reserve_fits) (auto simp: memory_map_ok_def list_all_iff)
  obtain s' where s': "frame_allocator_init s = ret s'" "frame_inv s'"
    "free_frames s' = rev (boot_frames ?mm)" "frame_capacity s' = length (usable_frames ?mm)"
    "m_stack (Optional_deref (free_stack s')) = stack_begin ?mm"
    "memory_map s' = ?mm" "hhdm_offset s' = hhdm_offset s" "frame_state.more s' = frame_state.more s"
    using frame_allocator_init_frames [OF entries few_frames [OF ok(1)] ok(2) fits low] by (auto simp: boot_frames_def)
  have "unat (stack_begin ?mm) mod 4096 = 0"
    using entries unfolding stack_begin_def by (intro reserve_aligned) auto
  then have "off_stack s' f" if "f \<in> set (boot_frames ?mm)" for f
    using that usable_frames_ok(2) [OF ok(1)] unreserved_off_stack [OF _ _ low, of f] s'(4,5) b(2)
    by (auto simp: boot_frames_def reserved_def off_stack_def frame_capacity_def Optional_deref_def list_all_iff node_frame_def)
  moreover have "distinct (boot_frames ?mm)" "list_all node_frame (boot_frames ?mm)"
    using usable_frames_ok [OF ok(1)] by (auto simp: boot_frames_def list_all_iff)
  ultimately have "boot_frames_ok s'" using s'(2,3) by (auto simp: boot_frames_ok_def list_all_iff)
  then show ?thesis using s' by blast
qed

section \<open>The boot sequence\<close>

lemma same_more_initial:
  fixes s s' :: "'z paging_state_scheme"
  assumes "hhdm_offset s' = hhdm_offset s" "frame_state.more s' = frame_state.more s"
  shows "kernel_readonly_end s' = kernel_readonly_end s" "kernel_readonly_start s' = kernel_readonly_start s"
    "kernel_rw_end s' = kernel_rw_end s" "kernel_rw_start s' = kernel_rw_start s" "initial_run s' = initial_run s"
proof -
  show fields: "kernel_readonly_end s' = kernel_readonly_end s" "kernel_readonly_start s' = kernel_readonly_start s"
    "kernel_rw_end s' = kernel_rw_end s" "kernel_rw_start s' = kernel_rw_start s"
    using assms(2) by (cases s; cases s'; simp)+
  have "kernel_physical_base s' = kernel_physical_base s" using assms(2) by (cases s; cases s'; simp)
  then show "initial_run s' = initial_run s"
    using fields assms(1) by (simp add: initial_run_def initial_mappings_def)
qed

lemma memory_init:
  fixes s :: "'z paging_state_scheme"
  assumes mm: "memory_map_ok (memory_map s)" and off: "hhdm_ok (hhdm_offset s)"
    and sizes: "unat (kernel_readonly_end s - kernel_readonly_start s) \<le> 2 ^ 64 - 4096"
      "unat (kernel_rw_end s - kernel_rw_start s) \<le> 2 ^ 64 - 4096"
  shows "if stack_begin (memory_map s) = 0
    then frame_allocator_init s = kernel_panic ''not enough contiguous space for the free stack frame allocator''
    else if length (boot_frames (memory_map s)) \<le> boot_nodes s
    then res_bind (frame_allocator_init s) paging_init = kernel_panic ''ran out of physical memory to allocate!''
    else \<exists>s'. res_bind (frame_allocator_init s) paging_init = ret s' \<and>
      ptbr s' = last (boot_frames (memory_map s)) \<and>
      (\<forall>va. paging_get_translation s' va =
        (let e = case last_entry va (initial_run s) of Some e \<Rightarrow> e | None \<Rightarrow> 0
         in ret \<lparr>physical_address = e AND child_mask, translation_flags = e AND 0xff\<rparr>))"
proof (cases "stack_begin (memory_map s) = 0")
  case True
  then show ?thesis
    by (simp add: frame_allocator_init_def stack_frames_def [symmetric] stack_begin_def [symmetric] Let_def)
next
  case False
  let ?fs = "boot_frames (memory_map s)"
  obtain s1 where s1: "frame_allocator_init s = ret s1" "boot_frames_ok s1" "free_frames s1 = rev ?fs"
    "memory_map s1 = memory_map s" and keep: "hhdm_offset s1 = hhdm_offset s" "frame_state.more s1 = frame_state.more s"
    using boot_frames_after_init [OF mm off False] by blast
  note init = same_more_initial [OF keep]
  have nodes: "boot_nodes s1 = boot_nodes s" by (simp add: boot_nodes_def init(5))
  show ?thesis
  proof (cases ?fs rule: rev_cases)
    case Nil
    have "frame_inv s1" using s1(2) by (simp add: boot_frames_ok_def)
    then have "paging_init s1 = kernel_panic ''ran out of physical memory to allocate!''"
      using allocate_frame_Nil [of s1] s1(3) Nil by (simp add: paging_init_def)
    then show ?thesis using False s1(1) Nil by simp
  next
    case (snoc fs f)
    then have free: "free_frames s1 = f # rev fs" using s1(3) by simp
    have "\<forall>e \<in> set (memory_map s1). entry_type e = LIMINE_MEMMAP_BOOTLOADER_RECLAIMABLE \<longrightarrow> entry_ok e"
      using mm s1(4) by (auto simp: memory_map_ok_def list_all_iff)
    from paging_init_maps [OF s1(2) free _ _ this] show ?thesis
      using False s1(1) snoc sizes by (simp add: init nodes less_eq_Suc_le Let_def split: if_splits)
  qed
qed

lemma idt_init_state:
  assumes "length (idt_bytes s) = 4096"
  shows "\<exists>t events. idt_init a p s = Some (s\<lparr>idt_bytes := t, io_trace := events\<rparr>)"
proof -
  obtain t1 where t1: "load_gates 0 (system_idt_descriptors a) (idt_bytes s) = Some t1" "length t1 = 4096"
    using load_gates_reads_back [of 0 "system_idt_descriptors a", OF _ assms] by (auto simp: system_idt_descriptors_def)
  obtain t2 where t2: "load_gates 0x30 (user_idt_descriptors a) t1 = Some t2" "length t2 = 4096"
    using load_gates_reads_back [of "0x30" "user_idt_descriptors a", OF _ t1(2)] by (auto simp: user_idt_descriptors_def)
  obtain t3 where "load_gate_descriptor 0xff (kernel_gate a isr_interprocessor_interrupt Gate_interrupt) t2 = Some t3"
    using load_gate_reads_back [of "0xff" t2, OF _ t2(2)] by (auto simp: num_gates_def)
  then show ?thesis using t1(1) t2(1) by (auto simp: idt_init_def emit_def)
qed

text \<open>C7. The boot sequence builds the address space or stops. With a memory map whose usable segments
  ascend below 4 GiB, \<^verbatim>\<open>kernel_init\<close> panics when no segment can hold the free stack, panics when the frames
  left are not enough for the page tables of the boot mappings, and otherwise goes on to \<^verbatim>\<open>vmm_init\<close> and the
  devices in a state where the page-table base register holds the last usable frame and every address is
  translated as the last boot mapping of its page says.\<close>

theorem kernel_init_builds_address_space:
  assumes idt: "idt_bytes s = IDTStructure_init" and mm: "memory_map_ok (memory_map s)" and off: "hhdm_ok (hhdm_offset s)"
    and sizes: "unat (kernel_readonly_end s - kernel_readonly_start s) \<le> 2 ^ 64 - 4096"
      "unat (kernel_rw_end s - kernel_rw_start s) \<le> 2 ^ 64 - 4096"
  shows "if stack_begin (memory_map s) = 0
    then kernel_init B (head, s) = kernel_panic ''not enough contiguous space for the free stack frame allocator''
    else if length (boot_frames (memory_map s)) \<le> boot_nodes s
    then kernel_init B (head, s) = kernel_panic ''ran out of physical memory to allocate!''
    else \<exists>s'. kernel_init B (head, s) = res_bind (vmm_init (head, s')) (\<lambda>(head, s).
        res_bind (kernel_init_devices B s) (\<lambda>s. ret (head, s))) \<and>
      ptbr s' = last (boot_frames (memory_map s)) \<and>
      (\<forall>va. paging_get_translation s' va =
        (let e = case last_entry va (initial_run s) of Some e \<Rightarrow> e | None \<Rightarrow> 0
         in ret \<lparr>physical_address = e AND child_mask, translation_flags = e AND 0xff\<rparr>))"
proof -
  define s1 where "s1 = gdt_init (boot_gdt_address B) (s\<lparr>terminal :=
    KernelTerminal_initialize (boot_font B) (boot_characters B) (boot_framebuffer B) (terminal s)\<rparr>)"
  have "length (idt_bytes s1) = 4096"
    using idt by (simp add: s1_def gdt_init_def emit_def IDTStructure_init_def IDTStructure_size_def gate_size_def num_gates_def)
  then obtain t ev where i: "idt_init (boot_isr_address B) (boot_idt_address B) s1 = Some (s1\<lparr>idt_bytes := t, io_trace := ev\<rparr>)"
    using idt_init_state by blast
  define s2 where "s2 = s1\<lparr>idt_bytes := t, io_trace := ev\<rparr>"
  have init: "kernel_init B (head, s) = res_bind (frame_allocator_init s2) (\<lambda>s. res_bind (paging_init s) (\<lambda>s.
      res_bind (vmm_init (head, s)) (\<lambda>(head, s). res_bind (kernel_init_devices B s) (\<lambda>s. ret (head, s)))))"
    by (simp add: kernel_init_def s1_def [symmetric] i s2_def Let_def)
  have s2: "memory_map s2 = memory_map s" "hhdm_offset s2 = hhdm_offset s" "initial_run s2 = initial_run s"
    "kernel_readonly_end s2 = kernel_readonly_end s" "kernel_readonly_start s2 = kernel_readonly_start s"
    "kernel_rw_end s2 = kernel_rw_end s" "kernel_rw_start s2 = kernel_rw_start s"
    by (simp_all add: s2_def s1_def gdt_init_def emit_def initial_run_def initial_mappings_def)
  have "boot_nodes s2 = boot_nodes s" by (simp add: boot_nodes_def s2(3))
  then show ?thesis
    using memory_init [of s2] mm off sizes unfolding init res_bind_assoc [symmetric]
    by (auto simp: s2 split: if_splits)
qed

text \<open>The first page of the identity map alone needs three tables.\<close>

lemma three_nodes: "3 \<le> boot_nodes s"
proof -
  have "get_page_range 0x1000 0x100000000 = \<lparr>first_page = 0x1000, last_page = 0x100001000\<rparr>"
    by (simp add: get_page_range_def page_floor_def page_ceil_def pageSize_def UINT64_MAX_def)
  then have "(0x1000, 0x1000, PageFlags_Write) \<in> set (region_run 0x1000 0x1000 0x100000000 PageFlags_Write)"
    by (simp add: region_run_def page_floor_def pageSize_def image_iff) (rule bexI [of _ 0], simp_all)
  then have "0x1000 \<in> set (map fst (initial_run s))"
    by (force simp: initial_run_def initial_mappings_def)
  then have "card (set (page_nodes 0x1000)) \<le> boot_nodes s"
    unfolding boot_nodes_def by (intro card_mono) auto
  then show ?thesis by (simp add: page_nodes_path page_path_def)
qed

text \<open>The example machine has three usable frames, too few for the page tables.\<close>

theorem kernel_init_builds_address_space_witness:
  "kernel_init \<lparr>boot_devices = example_devices, boot_isr_address = (\<lambda>_. 0), boot_gdt_address = 0, boot_idt_address = 0,
       boot_font = (\<lambda>_. 0), boot_characters = blank_lines, boot_framebuffer = small_screen, boot_rsdp = 0\<rparr>
     (0, example_interrupts) = kernel_panic ''ran out of physical memory to allocate!''"
proof -
  note defs = example_interrupts_def apic_state.defs example_acpi_def io_state.defs example_io_def
    paging_state.defs example_kernel_def
  have mm: "memory_map example_interrupts = memory_map example_boot" and off: "hhdm_offset example_interrupts = 0xffff800000000000"
    by (simp_all add: defs)
  have sizes: "unat (kernel_readonly_end example_interrupts - kernel_readonly_start example_interrupts) \<le> 2 ^ 64 - 4096"
    "unat (kernel_rw_end example_interrupts - kernel_rw_start example_interrupts) \<le> 2 ^ 64 - 4096"
    by (simp_all add: defs)
  have ok: "memory_map_ok (memory_map example_interrupts)" "hhdm_ok (hhdm_offset example_interrupts)"
    by (simp_all add: mm off memory_map_ok_def example_boot_simps is_allocatable_def LIMINE_MEMMAP_USABLE_def entry_ok_def)
  have "length (boot_frames (memory_map example_interrupts)) \<le> 3"
    using length_filter_le by (fastforce simp: mm boot_frames_def example_usable_frames)
  then have "length (boot_frames (memory_map example_interrupts)) \<le> boot_nodes example_interrupts"
    using three_nodes by (rule le_trans)
  then show ?thesis
    using kernel_init_builds_address_space [OF example_interrupts_simps(1) ok sizes] by (simp add: mm example_reserved)
qed

end
