(* ===== verification/Mmu.thy ===== *)
theory Mmu
  imports Interrupts
begin

text \<open>
  The kernel's page tables as the processor uses them: an access to virtual memory walks the tables from the
  base register, and an access they do not permit raises a page fault, whose service routine
  (\<^verbatim>\<open>run_isr_page_fault\<close>) maps new memory before the access is tried again. The walk, its permission bits and the
  repeated access are those of x86-64 for frames below 4 GiB, with write protection also for the kernel, which
  Limine enables; cached translations are not part of the model.
\<close>

section \<open>Accesses through the page tables\<close>

definition hw_cell :: "'z paging_state_scheme \<Rightarrow> u64 \<Rightarrow> u64" where
  "hw_cell s va = (page_entry s (ptbr s) va AND child_mask) + va mod pageSize"

partial_function (option) vstore32 :: "u64 \<Rightarrow> u32 \<Rightarrow> interrupt_state \<Rightarrow> interrupt_state res" where
  "vstore32 va v s =
     (if hw_usable s (ptbr s) va then ret (s\<lparr>mem := write_u32 (hw_cell s va) v (mem s)\<rparr>)
      else res_bind (run_isr_page_fault va s) (\<lambda>s. vstore32 va v s))"

partial_function (option) vload32 :: "u64 \<Rightarrow> interrupt_state \<Rightarrow> (u32 \<times> interrupt_state) res" where
  "vload32 va s =
     (if hw_mapped s (ptbr s) va then ret (read_u32 (mem s) (hw_cell s va), s)
      else res_bind (run_isr_page_fault va s) (\<lambda>s. vload32 va s))"

section \<open>States with the same page tables\<close>

lemma node_at_same_mem: "mem s' = mem s \<Longrightarrow> node_at s' r p = node_at s r p"
  by (induction p arbitrary: r) (simp_all add: entry_at_def split: bind_split)

lemma tree_same_mem:
  assumes "mem s' = mem s"
  shows "page_entry s' r va = page_entry s r va" "walk_entries s' r va = walk_entries s r va"
    "hw_usable s' r va = hw_usable s r va" "tree_nodes s' r = tree_nodes s r"
proof -
  have e: "tree_entry s' r p i = tree_entry s r p i" for p i
    using assms by (simp add: tree_entry_def node_at_same_mem [OF assms] entry_at_def split: option.split)
  show "page_entry s' r va = page_entry s r va" by (simp add: page_entry_def e)
  show w: "walk_entries s' r va = walk_entries s r va" by (simp add: walk_entries_def e)
  show "hw_usable s' r va = hw_usable s r va" by (simp add: hw_usable_def hw_mapped_def hw_writable_def w)
  show "tree_nodes s' r = tree_nodes s r" by (simp add: tree_nodes_def node_at_same_mem [OF assms])
qed

lemma paging_same_mem:
  fixes s :: "'z paging_state_scheme" and s' :: "'y paging_state_scheme"
  assumes "mem s' = mem s" "hhdm_offset s' = hhdm_offset s" "free_stack s' = free_stack s" "page_tree s' = page_tree s"
  shows "paging_inv s' r = paging_inv s r" "free_frames s' = free_frames s" "off_stack s' = off_stack s"
    "data_frame s' r f = data_frame s r f"
proof -
  show off: "off_stack s' = off_stack s" using assms by (simp add: off_stack_def fun_eq_iff)
  have "load64 s' p = load64 s p" for p using assms by (simp add: load64_def)
  then show free: "free_frames s' = free_frames s" using assms by (simp add: free_frames_def stack_contents_def)
  have "frame_inv s' = frame_inv s" using assms by (simp add: frame_inv_def stack_inv_def)
  then have "tree_inv s' r = tree_inv s r"
    unfolding tree_inv_def free off node_at_same_mem [OF assms(1)] by simp
  then show "paging_inv s' r = paging_inv s r" using assms by (simp add: paging_inv_def kernel_physical_to_virtual_def)
  show "data_frame s' r f = data_frame s r f"
    by (simp add: data_frame_def free off tree_same_mem(4) [OF assms(1)])
qed

text \<open>Writing to a frame of data changes neither the tables nor the free frames.\<close>

lemma read_u64_off_frame:
  assumes "\<And>a. \<not> (unat f \<le> unat a \<and> unat a < unat f + 4096) \<Longrightarrow> m a = m' a"
    and "unat b + 8 \<le> unat f \<or> unat f + 4096 \<le> unat b" "unat b + 8 \<le> 2 ^ 64"
  shows "read_u64 m b = read_u64 m' b"
proof (rule read_u64_cong)
  fix i :: nat assume "i < 8"
  then have "unat (b + of_nat i) = unat b + i"
    using assms(3) unat_add_no_wrap [of b "of_nat i"] by (simp add: unat_of_nat_small)
  then show "m (b + of_nat i) = m' (b + of_nat i)" using assms(2) \<open>i < 8\<close> by (intro assms(1)) auto
qed

lemma data_write_keeps:
  fixes s :: "'z paging_state_scheme"
  assumes inv: "paging_inv s r" and f: "data_frame s r f"
    and m: "\<And>a. \<not> (unat f \<le> unat a \<and> unat a < unat f + 4096) \<Longrightarrow> m a = mem s a"
  defines "s' \<equiv> s\<lparr>mem := m\<rparr>"
  shows "paging_inv s' r" "free_frames s' = free_frames s" "\<And>va. page_entry s' r va = page_entry s r va"
    "\<And>va. hw_usable s' r va = hw_usable s r va" "\<And>g. data_frame s' r g = data_frame s r g"
proof -
  have tree: "tree_inv s r" using inv by (simp add: paging_inv_def)
  have fr: "node_frame f" "off_stack s f" using f by (simp_all add: data_frame_def)
  have e: "entry_at s' n j = entry_at s n j" if "indices q" "node_at s r q = Some n" "j < 512" for q n j
  proof -
    have n: "node_frame n" using node_at_frame [OF tree_invD(2) [OF tree] that(2)] .
    have "n \<noteq> f" using f that(1,2) unfolding data_frame_def tree_nodes_def by blast
    then show ?thesis
      using node_frames_apart [OF n fr(1)] entry_in_frame [OF n that(3)] n
      unfolding entry_at_def s'_def by (auto intro!: read_u64_off_frame [where f = f] m simp: node_frame_def)
  qed
  have nodes: "node_at s' r q = node_at s r q" if "indices q" for q by (rule node_at_cong [OF e that])
  have entries: "tree_entry s' r q j = tree_entry s r q j" if "indices q" "j < 512" for q j
    using e [OF that(1) _ that(2)] nodes [OF that(1)] by (simp add: tree_entry_def split: option.split)
  show "page_entry s' r va = page_entry s r va" for va by (simp add: page_entry_def entries)
  have "walk_entries s' r va = walk_entries s r va" for va
    using entries by (simp add: walk_entries_def page_path_def numeral_2_eq_2 numeral_3_eq_3)
  then show "hw_usable s' r va = hw_usable s r va" for va by (simp add: hw_usable_def hw_mapped_def hw_writable_def)
  let ?st = "buffer (free_stack s)"
  have lim: "unat (m_stack ?st) + 8 * unat (m_maxSize ?st) \<le> 2 ^ 32"
    using tree by (simp add: tree_inv_def frame_inv_def stack_inv_def Optional_deref_def)
  have stack: "free_frames s' = free_frames s" "frame_inv s'"
    unfolding s'_def using fr lim
    by (auto intro!: free_frames_mem_update [OF tree_invD(1) [OF tree]] read_u64_off_frame [where f = f] m simp: off_stack_def)
  show "free_frames s' = free_frames s" by fact
  have "tree_inv s' r" by (rule tree_inv_same_nodes [OF tree stack(2,1) _ _ nodes]) (simp_all add: s'_def)
  then show "paging_inv s' r" using inv by (simp add: paging_inv_def s'_def kernel_physical_to_virtual_def)
  have "tree_nodes s' r = tree_nodes s r" using nodes by (auto simp: tree_nodes_def)
  moreover have "off_stack s' = off_stack s" by (simp add: off_stack_def fun_eq_iff s'_def)
  ultimately show "data_frame s' r g = data_frame s r g" for g by (simp add: data_frame_def stack(1))
qed

lemma read_write_u32 [simp]: "read_u32 (write_u32 a v m) a = v"
proof (rule bit_eqI)
  fix k :: nat
  assume "possible_bit TYPE(u32) k"
  then have k: "k < 32" by simp
  then have "unat (of_nat (k div 8) :: u64) = k div 8" by (intro unat_of_nat_small) simp
  moreover have "8 * (k div 8) + k mod 8 = k" by simp
  ultimately show "bit (read_u32 (write_u32 a v m) a) k = bit v k"
    using k by (simp add: read_u32_def write_u32_def bit_get_le put_le_apply bit_simps less_mult_imp_div_less)
qed

lemma write_u32_in_frame:
  assumes "node_frame f" "unat d + 4 \<le> 4096" "\<not> (unat f \<le> unat a \<and> unat a < unat f + 4096)"
  shows "write_u32 (f + d) v m a = m a"
proof -
  have "unat (f + d) = unat f + unat d"
    using assms(1,2) by (intro unat_add_no_wrap) (simp add: node_frame_def)
  then have "\<not> unat (a - (f + d)) < 4"
    using assms unat_less_2p [of a] by (auto simp: unat_sub_if' node_frame_def)
  then show ?thesis by (simp add: write_u32_def put_le_apply)
qed

section \<open>Demand paging\<close>

lemma sendEndOfInterrupt_same [simp]:
  "mem (sendEndOfInterrupt s) = mem s" "hhdm_offset (sendEndOfInterrupt s) = hhdm_offset s"
  "free_stack (sendEndOfInterrupt s) = free_stack s" "page_tree (sendEndOfInterrupt s) = page_tree s"
  "ptbr (sendEndOfInterrupt s) = ptbr s"
  by (simp_all add: sendEndOfInterrupt_def lapic_write_def mmio_write_def emit_def)

text \<open>The pages that the service routine maps, and its effect with enough memory: each page is backed by a frame
  of its own that was free, and no byte of a frame of data changes.\<close>

definition faulted_pages :: "u64 \<Rightarrow> u64 list" where
  "faulted_pages va = page_floor va # (if unat va mod 4096 = 0 then [] else [page_floor va + pageSize])"

lemma faulted_pages_range:
  assumes "unat va + 8192 \<le> 2 ^ 64"
  shows "pages_from (first_page (get_page_range va pageSize))
      ((unat (last_page (get_page_range va pageSize)) - unat (first_page (get_page_range va pageSize))) div 4096)
    = faulted_pages va" "same_page va (page_floor va)" "\<And>p. p \<in> set (tl (faulted_pages va)) \<Longrightarrow> \<not> same_page va p"
proof -
  have "pages_from (first_page (get_page_range va pageSize))
      ((unat (last_page (get_page_range va pageSize)) - unat (first_page (get_page_range va pageSize))) div 4096)
    = faulted_pages va \<and> same_page va (page_floor va) \<and> (\<forall>p \<in> set (tl (faulted_pages va)). \<not> same_page va p)"
  proof (cases "unat va mod 4096 = 0")
    case True
    then obtain q where q: "unat va = 4096 * q" by auto
    have floor: "page_floor va = va" using q by (simp only: word_unat_eq_iff unat_page_floor) simp
    have "unat (last_page (get_page_range va pageSize)) = 4096 * (q + 1)"
      using get_page_range_bounds(2) [of pageSize va] assms q by simp
    moreover have "first_page (get_page_range va pageSize) = va" by (simp add: get_page_range_def floor)
    ultimately show ?thesis using q floor by (simp add: same_page_number faulted_pages_def)
  next
    case False
    then show ?thesis using unaligned_pages [OF False assms] by (simp add: faulted_pages_def)
  qed
  then show "pages_from (first_page (get_page_range va pageSize))
      ((unat (last_page (get_page_range va pageSize)) - unat (first_page (get_page_range va pageSize))) div 4096)
    = faulted_pages va" "same_page va (page_floor va)" "\<And>p. p \<in> set (tl (faulted_pages va)) \<Longrightarrow> \<not> same_page va p"
    by auto
qed

lemma page_fault_effect:
  fixes s :: interrupt_state
  assumes inv: "paging_inv s r" and va: "unat va + 8192 \<le> 2 ^ 64" and free: "8 \<le> length (free_frames s)"
  shows "\<exists>s' gs. run_isr_page_fault va s = ret s' \<and> paging_inv s' r \<and> ptbr s' = ptbr s \<and>
    length gs = length (faulted_pages va) \<and> distinct gs \<and> set gs \<subseteq> set (free_frames s) \<and> list_all (data_frame s' r) gs \<and>
    set (free_frames s') \<subseteq> set (free_frames s) \<and> length (free_frames s) \<le> length (free_frames s') + 8 \<and>
    (\<forall>va'. page_entry s' r va' = (case last_entry va' (zip (faulted_pages va) (map (\<lambda>g. (g, PageFlags_Write)) gs)) of
        Some e \<Rightarrow> e | None \<Rightarrow> page_entry s r va')) \<and>
    tree_grows s s' r \<and>
    (\<forall>va'. list_ex (same_page va') (faulted_pages va) \<or> hw_usable s r va' \<longrightarrow> hw_usable s' r va')"
proof -
  let ?pages = "faulted_pages va"
  have n: "length ?pages + needed s r ?pages \<le> 8"
  proof -
    have "length ?pages \<le> 2" by (simp add: faulted_pages_def)
    then show ?thesis using needed_le [of s r ?pages] by linarith
  qed
  have "allocated_result r PageFlags_Write ?pages s (paging_allocate_and_map va pageSize PageFlags_Write s)"
    using paging_allocate_and_map_result [OF inv write_flag_ok, of pageSize va] unfolding faulted_pages_range(1) [OF va] by simp
  moreover have "\<not> length (free_frames s) < length ?pages + needed s r ?pages" using n free by simp
  moreover have "PageFlags_Write AND PageFlags_Write \<noteq> 0" by (simp add: PageFlags_Write_def)
  ultimately obtain s1 gs where s1: "paging_allocate_and_map va pageSize PageFlags_Write s = ret s1"
    "paging_inv s1 r" "same_globals s s1" "length gs = length ?pages" "distinct gs" "set gs \<subseteq> set (free_frames s)"
    "free_frames s1 = drop (length ?pages + needed s r ?pages) (free_frames s)"
    "\<forall>va. page_entry s1 r va = (case last_entry va (zip ?pages (map (\<lambda>g. (g, PageFlags_Write)) gs)) of
        Some e \<Rightarrow> e | None \<Rightarrow> page_entry s r va)"
    "tree_grows s s1 r" "list_all (data_frame s1 r) gs" "\<forall>va. list_ex (same_page va) ?pages \<or> hw_usable s r va \<longrightarrow> hw_usable s1 r va"
    unfolding allocated_result_def by (metis (no_types, lifting))
  define s' where "s' = sendEndOfInterrupt s1"
  have m: "mem s' = mem s1" "hhdm_offset s' = hhdm_offset s1" "free_stack s' = free_stack s1" "page_tree s' = page_tree s1"
    "ptbr s' = ptbr s1"
    by (simp_all add: s'_def)
  note same = paging_same_mem [OF m(1-4)] tree_same_mem [OF m(1)]
  have "run_isr_page_fault va s = ret s'" using s1(1) by (simp add: run_isr_page_fault_def s'_def)
  moreover have "set (free_frames s1) \<subseteq> set (free_frames s)" unfolding s1(7) by (rule set_drop_subset)
  moreover have "length (free_frames s) \<le> length (free_frames s1) + 8" using n by (simp add: s1(7))
  moreover have "tree_grows s s' r" using s1(9) by (simp add: tree_grows_def same m(1))
  ultimately show ?thesis
    using s1 same_globals_paging(2) [OF s1(3)] by (intro exI [of _ s'] exI [of _ gs]) (simp add: same m(5) list_all_iff)
qed

lemma page_fault_maps:
  fixes s :: interrupt_state
  assumes inv: "paging_inv s r" and va: "unat va + 8192 \<le> 2 ^ 64" and free: "8 \<le> length (free_frames s)"
  shows "\<exists>s' f. run_isr_page_fault va s = ret s' \<and> paging_inv s' r \<and> ptbr s' = ptbr s \<and>
    f \<in> set (free_frames s) \<and> data_frame s' r f \<and> set (free_frames s') \<subseteq> set (free_frames s) \<and>
    page_entry s' r va = flagged f PageFlags_Write \<and>
    (\<forall>va'. same_page va' va \<or> hw_usable s r va' \<longrightarrow> hw_usable s' r va')"
proof -
  obtain s' gs where s': "run_isr_page_fault va s = ret s'" "paging_inv s' r" "ptbr s' = ptbr s"
    "length gs = length (faulted_pages va)" "set gs \<subseteq> set (free_frames s)" "list_all (data_frame s' r) gs"
    "set (free_frames s') \<subseteq> set (free_frames s)"
    "\<forall>va'. page_entry s' r va' = (case last_entry va' (zip (faulted_pages va) (map (\<lambda>g. (g, PageFlags_Write)) gs)) of
        Some e \<Rightarrow> e | None \<Rightarrow> page_entry s r va')"
    "\<forall>va'. list_ex (same_page va') (faulted_pages va) \<or> hw_usable s r va' \<longrightarrow> hw_usable s' r va'"
    using page_fault_effect [OF assms] by blast
  obtain ps where ps: "faulted_pages va = page_floor va # ps" by (simp add: faulted_pages_def)
  obtain f gs' where gs: "gs = f # gs'" using s'(4) by (cases gs) (auto simp: ps)
  note rng = faulted_pages_range [OF va]
  have "last_entry va (zip ps (map (\<lambda>g. (g, PageFlags_Write)) gs')) = None"
    using rng(3) by (auto simp: ps last_entry_None_iff dest: set_zip_leftD)
  then have "page_entry s' r va = flagged f PageFlags_Write" using rng(2) by (simp add: s'(8) gs ps)
  moreover have "hw_usable s' r va'" if "same_page va' va \<or> hw_usable s r va'" for va'
  proof -
    have "same_page va' va \<Longrightarrow> same_page va' (page_floor va)" using rng(2) by (simp add: same_page_bits)
    then show ?thesis using that s'(9) by (auto simp: ps)
  qed
  ultimately show ?thesis using s'(1-3,5-7) gs by auto
qed

lemma same_page_refl [simp]: "same_page va va"
  by (simp add: same_page_bits)

lemma unat_mod_page: "unat (va mod pageSize) = unat va mod 4096"
  by (simp add: unat_mod_distrib)

text \<open>A usable page in a frame of data: a store returns at once and a load reads it back.\<close>

lemma store_load_usable:
  fixes s :: interrupt_state
  assumes inv: "paging_inv s (ptbr s)" and use: "hw_usable s (ptbr s) va" and f: "data_frame s (ptbr s) f"
    and frame: "page_entry s (ptbr s) va AND child_mask = f" and va: "unat va mod 4096 + 4 \<le> 4096"
  shows "vstore32 va v s = ret (s\<lparr>mem := write_u32 (f + va mod pageSize) v (mem s)\<rparr>)"
    and "paging_inv (s\<lparr>mem := write_u32 (f + va mod pageSize) v (mem s)\<rparr>) (ptbr s)"
    and "free_frames (s\<lparr>mem := write_u32 (f + va mod pageSize) v (mem s)\<rparr>) = free_frames s"
    and "page_entry (s\<lparr>mem := write_u32 (f + va mod pageSize) v (mem s)\<rparr>) (ptbr s) va' = page_entry s (ptbr s) va'"
    and "hw_usable (s\<lparr>mem := write_u32 (f + va mod pageSize) v (mem s)\<rparr>) (ptbr s) va' = hw_usable s (ptbr s) va'"
proof -
  have "write_u32 (f + va mod pageSize) v (mem s) a = mem s a" if "\<not> (unat f \<le> unat a \<and> unat a < unat f + 4096)" for a
    using f va that by (intro write_u32_in_frame) (simp_all add: data_frame_def unat_mod_page)
  note keeps = data_write_keeps [OF inv f this]
  show "vstore32 va v s = ret (s\<lparr>mem := write_u32 (f + va mod pageSize) v (mem s)\<rparr>)"
    using use frame by (subst vstore32.simps) (simp add: hw_cell_def)
  show "paging_inv (s\<lparr>mem := write_u32 (f + va mod pageSize) v (mem s)\<rparr>) (ptbr s)"
    "free_frames (s\<lparr>mem := write_u32 (f + va mod pageSize) v (mem s)\<rparr>) = free_frames s"
    "page_entry (s\<lparr>mem := write_u32 (f + va mod pageSize) v (mem s)\<rparr>) (ptbr s) va' = page_entry s (ptbr s) va'"
    "hw_usable (s\<lparr>mem := write_u32 (f + va mod pageSize) v (mem s)\<rparr>) (ptbr s) va' = hw_usable s (ptbr s) va'"
    by (simp_all add: keeps)
qed

lemma load_usable:
  "hw_usable s (ptbr s) va \<Longrightarrow> vload32 va s = ret (read_u32 (mem s) (hw_cell s va), s)"
  by (subst vload32.simps) (simp add: hw_usable_def)

text \<open>The page-fault routine backs memory on demand. A 32-bit store to an address that the tables do not let
  the processor write faults once and then succeeds, given eight free frames: the page translates to a frame that
  was free before, present and writable, and is not free any more; a load of the address reads the value back
  without a fault, and every page the processor could write before it can still write.\<close>

lemma page_fault_backs_access:
  assumes inv: "paging_inv s (ptbr s)" and fault: "\<not> hw_usable s (ptbr s) va" and free: "8 \<le> length (free_frames s)"
    and va: "unat va + 8192 \<le> 2 ^ 64" "unat va mod 4096 + 4 \<le> 4096"
  shows "\<exists>s' f. vstore32 va v s = ret s' \<and> vload32 va s' = ret (v, s') \<and>
    paging_get_translation s' va = ret \<lparr>physical_address = f, translation_flags = PageFlags_Write OR PageFlags_Present\<rparr> \<and>
    f \<in> set (free_frames s) \<and> f \<notin> set (free_frames s') \<and> paging_inv s' (ptbr s') \<and>
    (\<forall>va'. same_page va' va \<or> hw_usable s (ptbr s) va' \<longrightarrow> hw_usable s' (ptbr s') va')"
proof -
  let ?r = "ptbr s"
  obtain s1 f where s1: "run_isr_page_fault va s = ret s1" "paging_inv s1 ?r" "ptbr s1 = ?r" "f \<in> set (free_frames s)"
    "data_frame s1 ?r f" "set (free_frames s1) \<subseteq> set (free_frames s)" "page_entry s1 ?r va = flagged f PageFlags_Write"
    and use: "\<And>va'. same_page va' va \<or> hw_usable s ?r va' \<Longrightarrow> hw_usable s1 ?r va'"
    using page_fault_maps [OF inv va(1) free] by blast
  have "node_frame f" using s1(5) by (simp add: data_frame_def)
  then have f: "page_entry s1 ?r va AND child_mask = f" "page_entry s1 ?r va AND 0xff = PageFlags_Write OR PageFlags_Present"
    using s1(7) flagged_child [OF write_flag_ok, of f] flagged_flags [of f PageFlags_Write] node_frame_masked [of f]
    by (simp_all add: PageFlags_Write_def PageFlags_Present_def)
  define s' where "s' = s1\<lparr>mem := write_u32 (f + va mod pageSize) v (mem s1)\<rparr>"
  have u: "hw_usable s1 (ptbr s1) va" using use by (simp add: s1(3))
  note keeps = store_load_usable [OF s1(2) [folded s1(3)] u s1(5) [folded s1(3)] f(1) [folded s1(3)] va(2), of v, folded s'_def]
  have r: "ptbr s' = ?r" by (simp add: s'_def s1(3))
  have "vstore32 va v s = ret s'" using fault s1(1) keeps(1) by (subst vstore32.simps) simp
  moreover have "vload32 va s' = ret (v, s')"
    using load_usable [of s' va] keeps(4,5) u f(1) by (simp add: hw_cell_def r s1(3)) (simp add: s'_def)
  moreover have "paging_get_translation s' va = ret \<lparr>physical_address = f, translation_flags = PageFlags_Write OR PageFlags_Present\<rparr>"
    using paging_get_translation_entry [OF keeps(2), of va] keeps(4) f by (simp add: s1(3))
  moreover have "f \<notin> set (free_frames s')" using s1(5) by (simp add: keeps(3) data_frame_def)
  ultimately show ?thesis
    using s1(4) keeps(2,5) use by (intro exI [of _ s'] exI [of _ f]) (simp add: r s1(3))
qed

section \<open>An example\<close>

text \<open>The example machine with its empty page tree in use.\<close>

definition example_running :: interrupt_state where
  "example_running = example_interrupts\<lparr>mem := mem example_space, hhdm_offset := hhdm_offset example_space,
     free_stack := free_stack example_space, page_tree := page_tree example_space, ptbr := 0xf000\<rparr>"

lemma example_running_facts:
  "paging_inv example_running 0xf000" "ptbr example_running = 0xf000" "length (free_frames example_running) = 8"
  "\<not> hw_usable example_running 0xf000 va"
proof -
  note same = paging_same_mem [of example_running example_space] tree_same_mem [of example_running example_space]
  have m: "mem example_running = mem example_space" "hhdm_offset example_running = hhdm_offset example_space"
    "free_stack example_running = free_stack example_space" "page_tree example_running = page_tree example_space"
    by (simp_all add: example_running_def)
  show "paging_inv example_running 0xf000" "length (free_frames example_running) = 8"
    using example_space_inv example_space_facts(2) by (simp_all add: same m example_kernel_frames)
  have "walk_entries example_space 0xf000 va = [0, 0, 0, 0]"
    using example_space_facts(5) by (simp add: walk_entries_def page_path_def numeral_2_eq_2 numeral_3_eq_3)
  then show "\<not> hw_usable example_running 0xf000 va"
    by (simp add: same m hw_usable_def hw_mapped_def hw_writable_def)
  show "ptbr example_running = 0xf000" by (simp add: example_running_def)
qed

lemma page_fault_backs_access_example:
  "\<exists>s'. vstore32 0x7ffc 0xabcd1234 example_running = ret s' \<and> vload32 0x7ffc s' = ret (0xabcd1234, s')"
  using page_fault_backs_access [of example_running "0x7ffc" "0xabcd1234"] by (auto simp: example_running_facts)

end
