(* ===== verification/Madt.thy ===== *)
theory Madt
  imports Mmu
begin

text \<open>
  The I/O APICs that \<^verbatim>\<open>APICManager::initialize\<close> finds. A MADT is a sequence of structures, printed to bytes as the
  ACPI specification lays them out; the loop over these bytes, which maps the registers of each I/O APIC while it
  reads, gives the I/O APICs of the table in order. The table lies in physical memory that neither the page tables
  nor the free frames use.
\<close>

section \<open>Tables\<close>

text \<open>An I/O APIC structure has the type 1; of the other structures only type and length matter.\<close>

datatype madt_structure = IoApicStructure u8 u8 u32 u32 | OtherStructure u8 "u8 list"

definition le4 :: "u32 \<Rightarrow> u8 list" where
  "le4 v = [ucast v, ucast (drop_bit 8 v), ucast (drop_bit 16 v), ucast (drop_bit 24 v)]"

fun structure_bytes :: "madt_structure \<Rightarrow> u8 list" where
  "structure_bytes (IoApicStructure i pad address gsi) = [1, 12, i, pad] @ le4 address @ le4 gsi"
| "structure_bytes (OtherStructure t body) = [t, of_nat (length body + 2)] @ body"

fun structure_ok :: "madt_structure \<Rightarrow> bool" where
  "structure_ok (IoApicStructure i pad address gsi) \<longleftrightarrow> unat address mod 4096 = 0 \<and> address \<noteq> 0"
| "structure_ok (OtherStructure t body) \<longleftrightarrow> t \<noteq> 1 \<and> length body < 254"

definition madt_bytes :: "madt_structure list \<Rightarrow> u8 list" where
  "madt_bytes xs = concat (map structure_bytes xs)"

text \<open>The I/O APIC that a structure describes, with the virtual address of its registers and the number of
  redirection entries that its version register gives.\<close>

fun structure_ioapics :: "u64 \<Rightarrow> (u32 \<Rightarrow> u32) \<Rightarrow> madt_structure \<Rightarrow> IOAPIC list" where
  "structure_ioapics off version (IoApicStructure i pad address gsi) =
     (let a = ucast (ucast address + off) in
      [\<lparr>m_address = a, m_globalSystemInterruptBase = gsi, m_id = i,
        m_numRedirectionEntries = ucast (drop_bit 16 (version a) AND 0xff)\<rparr>])"
| "structure_ioapics off version (OtherStructure t body) = []"

definition table_ioapics :: "u64 \<Rightarrow> (u32 \<Rightarrow> u32) \<Rightarrow> madt_structure list \<Rightarrow> IOAPIC list" where
  "table_ioapics off version xs = concat (map (structure_ioapics off version) xs)"

fun structure_addresses :: "madt_structure \<Rightarrow> u64 list" where
  "structure_addresses (IoApicStructure i pad address gsi) = [ucast address]"
| "structure_addresses (OtherStructure t body) = []"

definition table_addresses :: "madt_structure list \<Rightarrow> u64 list" where
  "table_addresses xs = concat (map structure_addresses xs)"

text \<open>What the documentation of the controllers says of their version registers: they are read from the data
  register after 1 was written to the select register. The controllers are named by the addresses that the code
  keeps of them.\<close>

definition answers_version :: "devices \<Rightarrow> (u32 \<Rightarrow> u32) \<Rightarrow> u64 \<Rightarrow> u64 list \<Rightarrow> bool" where
  "answers_version d version off as \<longleftrightarrow>
     (\<forall>p \<in> set as. \<forall>h. let a = ucast (p + off) in mmio_in d (h @ [MmioWrite (ucast a) 1]) (ucast (a + 0x10)) = version a)"

text \<open>Bytes in physical memory, and that the page tables may grow beside them.\<close>

definition bytes_at :: "'z machine_scheme \<Rightarrow> u64 \<Rightarrow> u8 list \<Rightarrow> bool" where
  "bytes_at s t bs \<longleftrightarrow> unat t + length bs < 2 ^ 32 \<and> list_all (\<lambda>i. mem s (t + of_nat i) = bs ! i) [0..<length bs]"

definition beside_tables :: "'z frame_state_scheme \<Rightarrow> u64 \<Rightarrow> u64 \<Rightarrow> nat \<Rightarrow> bool" where
  "beside_tables s r t n \<longleftrightarrow> (\<forall>f \<in> tree_nodes s r \<union> set (free_frames s). unat t + n \<le> unat f \<or> unat f + 4096 \<le> unat t)"

lemma bytes_at_append:
  "bytes_at s t (xs @ ys) \<longleftrightarrow> bytes_at s t xs \<and> bytes_at s (t + of_nat (length xs)) ys \<and> unat t + length xs + length ys < 2 ^ 32"
proof -
  have u: "unat (t + of_nat (length xs)) = unat t + length xs" if "unat t + length xs < 2 ^ 32"
    using that unat_add_no_wrap [of t "of_nat (length xs)"] by (simp add: unat_of_nat_small)
  have split: "(\<forall>i < length xs + length ys. P i) \<longleftrightarrow> (\<forall>i < length xs. P i) \<and> (\<forall>i < length ys. P (length xs + i))" for P
  proof (intro iffI conjI allI impI; (elim conjE)?)
    fix i assume a: "\<forall>i < length xs. P i" "\<forall>i < length ys. P (length xs + i)" "i < length xs + length ys"
    show "P i"
    proof (cases "i < length xs")
      case False
      then have "i - length xs < length ys" using a(3) by simp
      from a(2) [rule_format, OF this] show ?thesis using False by simp
    qed (use a(1) in simp)
  qed simp_all
  have "list_all (\<lambda>i. mem s (t + of_nat i) = (xs @ ys) ! i) [0..<length (xs @ ys)] \<longleftrightarrow>
      list_all (\<lambda>i. mem s (t + of_nat i) = xs ! i) [0..<length xs] \<and>
      list_all (\<lambda>i. mem s (t + of_nat (length xs) + of_nat i) = ys ! i) [0..<length ys]"
    by (simp add: list_all_iff atLeast0LessThan Ball_def split nth_append add.assoc)
  then show ?thesis using u unfolding bytes_at_def by auto
qed

lemma beside_tables_shift:
  assumes "beside_tables s r t (n + m)" "unat t' = unat t + n" shows "beside_tables s r t' m"
  unfolding beside_tables_def
proof
  fix f assume "f \<in> tree_nodes s r \<union> set (free_frames s)"
  then have "unat t + (n + m) \<le> unat f \<or> unat f + 4096 \<le> unat t" using assms(1) unfolding beside_tables_def by blast
  then show "unat t' + m \<le> unat f \<or> unat f + 4096 \<le> unat t'" using assms(2) by linarith
qed

lemma data_frame_beside:
  assumes "tree_inv s r" "data_frame s r f" "unat t = unat f + k" "k + n \<le> 4096" shows "beside_tables s r t n"
  unfolding beside_tables_def
proof
  fix g assume g: "g \<in> tree_nodes s r \<union> set (free_frames s)"
  then have "node_frame g"
    using tree_invD(4) [OF assms(1)] node_at_frame [OF tree_invD(2) [OF assms(1)]] by (auto simp: tree_nodes_def)
  moreover have "g \<noteq> f" "node_frame f" using g assms(2) by (auto simp: data_frame_def)
  ultimately have "unat f + 4096 \<le> unat g \<or> unat g + 4096 \<le> unat f" using node_frames_apart [of g f] by auto
  then show "unat t + n \<le> unat g \<or> unat g + 4096 \<le> unat t" using assms(3,4) by linarith
qed

lemma bytes_at_nth: "bytes_at s t bs \<Longrightarrow> i < length bs \<Longrightarrow> mem s (t + of_nat i) = bs ! i"
  by (simp add: bytes_at_def list_all_iff)

text \<open>Reading through the direct map.\<close>

lemma load_direct:
  assumes "bytes_at s t bs" "i < length bs"
  shows "load8 s (kernel_physical_to_virtual s t + of_nat i) = bs ! i"
    "load32 s (kernel_physical_to_virtual s t + of_nat i) = read_u32 (mem s) (t + of_nat i)"
proof -
  have "unat (t + of_nat i) = unat t + i"
    using assms unat_add_no_wrap [of t "of_nat i"] by (simp add: unat_of_nat_small bytes_at_def)
  then have "unat (t + of_nat i) < 2 ^ 32" using assms by (simp add: bytes_at_def)
  from cell_of_direct [OF this, of "hhdm_offset s"]
  have "cell_of (hhdm_offset s) (kernel_physical_to_virtual s t + of_nat i) = t + of_nat i"
    by (simp add: kernel_physical_to_virtual_def algebra_simps)
  then show "load8 s (kernel_physical_to_virtual s t + of_nat i) = bs ! i"
    "load32 s (kernel_physical_to_virtual s t + of_nat i) = read_u32 (mem s) (t + of_nat i)"
    using bytes_at_nth [OF assms] by (simp_all add: load8_def load32_def)
qed

lemma read_le4:
  assumes "bytes_at s t (le4 v)" shows "read_u32 (mem s) t = v"
proof (rule bit_word_eqI)
  fix k assume k: "k < LENGTH(32)"
  have m: "mem s t = ucast v" "mem s (t + 1) = ucast (drop_bit 8 v)" "mem s (t + 2) = ucast (drop_bit 16 v)"
    "mem s (t + 3) = ucast (drop_bit 24 v)"
    using bytes_at_nth [OF assms, of 0] bytes_at_nth [OF assms, of 1] bytes_at_nth [OF assms, of 2]
      bytes_at_nth [OF assms, of 3] by (simp_all add: le4_def)
  consider "k < 8" | "8 \<le> k" "k < 16" | "16 \<le> k" "k < 24" | "24 \<le> k" by linarith
  then show "bit (read_u32 (mem s) t) k = bit v k"
    using k by cases (auto simp: read_u32_def get_le_4 m bit_simps)
qed

lemma bytes_at_grows:
  assumes "bytes_at s t bs" "beside_tables s r t (length bs)" "tree_grows s s' r" "set (free_frames s') \<subseteq> set (free_frames s)"
  shows "bytes_at s' t bs" "beside_tables s' r t (length bs)"
proof -
  have "mem s' (t + of_nat i) = mem s (t + of_nat i)" if "i < length bs" for i
  proof (rule ccontr)
    assume "mem s' (t + of_nat i) \<noteq> mem s (t + of_nat i)"
    then obtain f where "f \<in> tree_nodes s r \<union> set (free_frames s)" "in_frame f (t + of_nat i)"
      using assms(3) unfolding tree_grows_def by blast
    moreover have "unat (t + of_nat i) = unat t + i"
      using that assms(1) unat_add_no_wrap [of t "of_nat i"] by (simp add: unat_of_nat_small bytes_at_def)
    ultimately show False using assms(2) that by (force simp: beside_tables_def in_frame_def)
  qed
  then show "bytes_at s' t bs" using assms(1) by (simp add: bytes_at_def list_all_iff)
  show "beside_tables s' r t (length bs)"
    using assms(2-4) unfolding beside_tables_def tree_grows_def by blast
qed

section \<open>One structure\<close>

definition add_ioapic :: "IOAPIC \<Rightarrow> APICManager \<Rightarrow> APICManager" where
  "add_ioapic a mgr = mgr\<lparr>m_ioApics := (m_ioApics mgr)[unat (m_numIoApics mgr) := a], m_numIoApics := m_numIoApics mgr + 1\<rparr>"

abbreviation uncached :: PageFlags where
  "uncached \<equiv> PageFlags_or PageFlags_Write PageFlags_CacheDisable"

lemma uncached_ok: "uncached AND child_mask = 0"
  by (simp add: PageFlags_or_def PageFlags_Write_def PageFlags_CacheDisable_def child_mask_def)

lemma ucast_byte:
  assumes "n < 256" shows "ucast (of_nat n :: u8) = (of_nat n :: u64)"
proof -
  have "unat (of_nat n :: u8) = n" "unat (of_nat n :: u64) = n"
    using assms by (simp_all add: unat_of_nat take_bit_nat_eq_self)
  then show ?thesis using assms by (simp add: word_unat_eq_iff unsigned_ucast_eq take_bit_nat_eq_self)
qed

lemma other_step:
  assumes b: "bytes_at s t (structure_bytes (OtherStructure k body))" and ok: "structure_ok (OtherStructure k body)"
  shows "madt_step d (kernel_physical_to_virtual s t, mgr, s) = ret (kernel_physical_to_virtual s t + of_nat (length body + 2), mgr, s)"
proof -
  have "load8 s (kernel_physical_to_virtual s t) = k"
    "load8 s (kernel_physical_to_virtual s t + 1) = of_nat (length body + 2)"
    using load_direct(1) [OF b, of 0] load_direct(1) [OF b, of 1] by simp_all
  moreover have "ucast (of_nat (length body + 2) :: u8) = (of_nat (length body + 2) :: u64)"
    using ok by (intro ucast_byte) simp
  ultimately show ?thesis using ok by (simp add: madt_step_def Let_def algebra_simps del: of_nat_add)
qed

lemma IOAPIC_init_state:
  assumes "answers_version d version off as" "q \<in> set as" "p = q + off"
  shows "IOAPIC_init d p gsi i s =
    (let a = ucast p in (\<lparr>m_address = a, m_globalSystemInterruptBase = gsi, m_id = i,
        m_numRedirectionEntries = ucast (drop_bit 16 (version a) AND 0xff)\<rparr>,
      s\<lparr>io_trace := io_trace s @ [MmioWrite (ucast a) 1, MmioRead (ucast (a + 0x10)) (version a)]\<rparr>))"
  using assms by (simp add: IOAPIC_init_def readRegister_def mmio_read_def mmio_write_def emit_def Let_def answers_version_def)

text \<open>The registers of an I/O APIC are mapped to a page of the direct map.\<close>

lemma register_page:
  fixes s :: "'z paging_state_scheme" and address :: u32
  assumes inv: "paging_inv s r" and off: "hhdm_ok (hhdm_offset s)" "unat (hhdm_offset s) mod 4096 = 0"
    and a: "unat address mod 4096 = 0" and free: "3 \<le> length (free_frames s)"
  defines "page \<equiv> kernel_physical_to_virtual s (ucast address)"
  shows "\<exists>s'. paging_add_mapping page (ucast address) pageSize uncached s = ret s' \<and> paging_inv s' r \<and> same_globals s s' \<and>
    set (free_frames s') \<subseteq> set (free_frames s) \<and> length (free_frames s) \<le> length (free_frames s') + 3 \<and> tree_grows s s' r \<and>
    (\<forall>va. page_entry s' r va = (if same_page va page then flagged (ucast address) uncached else page_entry s r va))"
proof -
  have "unat address < 2 ^ 32" using unsigned_less [of address] by simp
  then have u: "unat page = unat address + unat (hhdm_offset s)"
    using off(1) unat_add_no_wrap [of "ucast address" "hhdm_offset s"]
    by (simp add: page_def kernel_physical_to_virtual_def unat_ucast_u32 hhdm_ok_def)
  then have "unat page mod 4096 = 0" "unat page + 8192 \<le> 2 ^ 64"
    using a off \<open>unat address < 2 ^ 32\<close> by (auto simp: hhdm_ok_def mod_add_eq [symmetric, of _ "unat (hhdm_offset s)"])
  then have one: "paging_add_mapping page (ucast address) pageSize uncached s = map_page (page, ucast address, uncached) s"
    using a by (intro paging_add_one_page) (simp_all add: unat_ucast_u32)
  have "card (missing_paths s r page) \<le> length (free_frames s)" using missing_paths_3 [of s r page] free by simp
  from map_page_ok [OF inv uncached_ok this, of "ucast address"] obtain s' where
    s': "map_page (page, ucast address, uncached) s = ret s'" "paging_inv s' r" "same_globals s s'"
      "free_frames s' = drop (card (missing_paths s r page)) (free_frames s)" "tree_grows s s' r"
      "\<forall>va. page_entry s' r va = (if same_page va page then flagged (ucast address) uncached else page_entry s r va)"
    by blast
  then show ?thesis
    using one missing_paths_3 [of s r page] set_drop_subset [of "card (missing_paths s r page)" "free_frames s"]
    by (intro exI [of _ s']) auto
qed

lemma ioapic_step:
  fixes s :: "'z apic_state_scheme"
  assumes inv: "paging_inv s r" and off: "hhdm_ok (hhdm_offset s)" "unat (hhdm_offset s) mod 4096 = 0"
    and b: "bytes_at s t (structure_bytes (IoApicStructure i pad address gsi))" and a: "unat address mod 4096 = 0"
    and free: "3 \<le> length (free_frames s)" and dev: "answers_version d version (hhdm_offset s) as" "ucast address \<in> set as"
  defines "v \<equiv> kernel_physical_to_virtual s t" and "page \<equiv> kernel_physical_to_virtual s (ucast address)"
  shows "\<exists>s'. madt_step d (v, mgr, s) = (if 16 \<le> m_numIoApics mgr then kernel_panic ''Too many IO APICs\<newline>''
      else ret (v + 12, add_ioapic (hd (structure_ioapics (hhdm_offset s) version (IoApicStructure i pad address gsi))) mgr, s')) \<and>
    paging_inv s' r \<and> hhdm_offset s' = hhdm_offset s \<and>
    set (free_frames s') \<subseteq> set (free_frames s) \<and> length (free_frames s) \<le> length (free_frames s') + 3 \<and> tree_grows s s' r \<and>
    (\<forall>va. page_entry s' r va = (if same_page va page then flagged (ucast address) uncached else page_entry s r va))"
proof -
  have head: "load8 s v = 1" "load8 s (v + 1) = 12" "load8 s (v + 2) = i"
    using load_direct(1) [OF b, of 0] load_direct(1) [OF b, of 1] load_direct(1) [OF b, of 2] by (simp_all add: v_def)
  have "bytes_at s (t + 4) (le4 address)" "bytes_at s (t + 8) (le4 gsi)"
    using b bytes_at_append [of s t "[1, 12, i, pad]" "le4 address @ le4 gsi"]
      bytes_at_append [of s "t + 4" "le4 address" "le4 gsi"] by (simp_all add: le4_def add.assoc)
  then have fields: "load32 s (v + 4) = address" "load32 s (v + 8) = gsi"
    using load_direct(2) [OF b, of 4] load_direct(2) [OF b, of 8] read_le4 [of s] by (simp_all add: v_def le4_def)
  from register_page [OF inv off a free, folded page_def] obtain s1 where
    s1: "paging_add_mapping page (ucast address) pageSize uncached s = ret s1" "paging_inv s1 r" "same_globals s s1"
      "set (free_frames s1) \<subseteq> set (free_frames s)" "length (free_frames s) \<le> length (free_frames s1) + 3" "tree_grows s s1 r"
      "\<forall>va. page_entry s1 r va = (if same_page va page then flagged (ucast address) uncached else page_entry s r va)"
    by blast
  note h = same_globals_simps(1) [OF s1(3)]
  then have p1: "kernel_physical_to_virtual s1 (ucast address) = page" by (simp add: page_def kernel_physical_to_virtual_def)
  define s' where "s' = snd (IOAPIC_init d page gsi i s1)"
  note init = IOAPIC_init_state [OF dev, of page gsi i s1, OF page_def [unfolded kernel_physical_to_virtual_def, THEN meta_eq_to_obj_eq]]
  have m: "mem s' = mem s1" "hhdm_offset s' = hhdm_offset s1" "free_stack s' = free_stack s1" "page_tree s' = page_tree s1"
    by (simp_all add: s'_def init Let_def)
  note same = paging_same_mem [OF m] tree_same_mem [OF m(1)]
  have "madt_step d (v, mgr, s) = (if 16 \<le> m_numIoApics mgr then kernel_panic ''Too many IO APICs\<newline>''
      else ret (v + 12, add_ioapic (hd (structure_ioapics (hhdm_offset s) version (IoApicStructure i pad address gsi))) mgr, s'))"
    using s1(1) by (simp add: madt_step_def head fields add.assoc page_def [symmetric] p1 Let_def add_ioapic_def s'_def init)
      (simp add: page_def kernel_physical_to_virtual_def)
  moreover have "tree_grows s s' r" using s1(6) by (simp add: tree_grows_def same m(1))
  ultimately show ?thesis using s1 h by (intro exI [of _ s']) (simp add: same m(2))
qed

section \<open>The table\<close>

text \<open>A manager that holds the I/O APICs \<open>as\<close>.\<close>

definition ioapic_manager :: "APICManager \<Rightarrow> IOAPIC list \<Rightarrow> APICManager" where
  "ioapic_manager mgr as = mgr\<lparr>m_ioApics := as @ replicate (16 - length as) IOAPIC_default, m_numIoApics := of_nat (length as)\<rparr>"

lemma ioapic_manager_init: "ioapic_manager (APICManager_init rsdp) [] = APICManager_init rsdp"
  by (simp add: ioapic_manager_def APICManager_init_def)

lemma ioapic_manager_full: "length as \<le> 16 \<Longrightarrow> 16 \<le> m_numIoApics (ioapic_manager mgr as) \<longleftrightarrow> length as = 16"
  using unat_of_nat_small [of "length as"] by (simp add: ioapic_manager_def word_le_nat_alt)

lemma add_ioapic_manager:
  assumes "length as < 16" shows "add_ioapic a (ioapic_manager mgr as) = ioapic_manager mgr (as @ [a])"
proof -
  obtain k where "16 - length as = Suc k" using assms by (metis Suc_diff_Suc)
  moreover from this have "15 - length as = k" by simp
  ultimately show ?thesis
    using assms unat_of_nat_small [of "length as"] by (simp add: add_ioapic_def ioapic_manager_def add.commute)
qed

lemma register_pages_apart:
  assumes "hhdm_ok off" "unat off mod 4096 = 0" "unat a < 2 ^ 32" "unat b < 2 ^ 32" "unat a mod 4096 = 0" "unat b mod 4096 = 0"
    and "same_page va (a + off)" "same_page va (b + off)"
  shows "a = b"
proof -
  obtain o' where o: "unat off = 4096 * o'" using assms(2) by auto
  obtain x where x: "unat a = 4096 * x" using assms(5) by auto
  obtain y where y: "unat b = 4096 * y" using assms(6) by auto
  have u: "unat (a + off) = 4096 * (x + o')" "unat (b + off) = 4096 * (y + o')"
    using assms(1,3,4) unat_add_no_wrap [of a off] unat_add_no_wrap [of b off] by (simp_all add: hhdm_ok_def o x y)
  have "same_page (a + off) (b + off)" using assms(7,8) by (simp add: same_page_def)
  then have "(x + o') mod 2 ^ 36 = (y + o') mod 2 ^ 36" by (simp add: same_page_number u)
  then have "int (x + o') mod 2 ^ 36 = int (y + o') mod 2 ^ 36" by (metis of_nat_mod of_nat_numeral of_nat_power)
  then have "2 ^ 36 dvd int x - int y" by (simp add: mod_eq_dvd_iff)
  then obtain k where k: "int x - int y = 2 ^ 36 * k" by (rule dvdE)
  have "x < 2 ^ 20" "y < 2 ^ 20" using assms(3,4) by (simp_all add: x y)
  then have "k = 0" using k by simp
  then have "x = y" using k by simp
  then show ?thesis using x y by (simp add: word_unat_eq_iff)
qed

lemma table_ioapics_simps [simp]:
  "table_ioapics off version [] = []" "table_ioapics off version (x # xs) = structure_ioapics off version x @ table_ioapics off version xs"
  "table_addresses [] = []" "table_addresses (x # xs) = structure_addresses x @ table_addresses xs"
  "madt_bytes [] = []" "madt_bytes (x # xs) = structure_bytes x @ madt_bytes xs"
  by (simp_all add: table_ioapics_def table_addresses_def madt_bytes_def)

lemma structure_address:
  assumes "list_all structure_ok xs" "a \<in> set (table_addresses xs)"
  shows "unat a < 2 ^ 32" "unat a mod 4096 = 0" "node_frame a"
proof -
  obtain x where x: "x \<in> set xs" "a \<in> set (structure_addresses x)" using assms(2) by (auto simp: table_addresses_def)
  obtain i pad address gsi where e: "x = IoApicStructure i pad address gsi" "a = ucast address" using x(2) by (cases x) auto
  have "structure_ok x" using assms(1) x(1) by (simp add: list_all_iff)
  moreover have "unat address < 2 ^ 32" using unsigned_less [of address] by simp
  moreover have "ucast address \<noteq> (0 :: u64)" if "address \<noteq> 0" using that by (metis unat_ucast_u32 unsigned_0 unsigned_eq_0_iff)
  ultimately show "unat a < 2 ^ 32" "unat a mod 4096 = 0" "node_frame a"
    by (auto simp: e unat_ucast_u32 node_frame_def)
qed

text \<open>The pages of the registers after the loop.\<close>

definition registers_mapped :: "'z machine_scheme \<Rightarrow> 'z machine_scheme \<Rightarrow> u64 \<Rightarrow> u64 list \<Rightarrow> bool" where
  "registers_mapped s s' r as \<longleftrightarrow> (\<forall>va.
     (\<forall>a \<in> set as. same_page va (a + hhdm_offset s) \<longrightarrow> page_entry s' r va = flagged a uncached) \<and>
     ((\<forall>a \<in> set as. \<not> same_page va (a + hhdm_offset s)) \<longrightarrow> page_entry s' r va = page_entry s r va))"

lemma registers_mapped_Cons:
  assumes off: "hhdm_ok (hhdm_offset s)" "unat (hhdm_offset s) mod 4096 = 0"
    and as: "\<And>b. b \<in> set (a # as) \<Longrightarrow> unat b < 2 ^ 32 \<and> unat b mod 4096 = 0"
    and first: "\<forall>va. page_entry s1 r va = (if same_page va (a + hhdm_offset s) then flagged a uncached else page_entry s r va)"
    and rest: "registers_mapped s1 s' r as" and h: "hhdm_offset s1 = hhdm_offset s"
  shows "registers_mapped s s' r (a # as)"
proof -
  have eq: "b = a" if "b \<in> set (a # as)" "same_page va (b + hhdm_offset s)" "same_page va (a + hhdm_offset s)" for b va
    using register_pages_apart [OF off, of b a va] as [of a] as [OF that(1)] that(2,3) by simp
  show ?thesis
    unfolding registers_mapped_def
  proof (intro allI conjI ballI impI)
    fix va b assume b: "b \<in> set (a # as)" "same_page va (b + hhdm_offset s)"
    show "page_entry s' r va = flagged b uncached"
    proof (cases "\<exists>c \<in> set as. same_page va (c + hhdm_offset s)")
      case True
      then obtain c where c: "c \<in> set as" "same_page va (c + hhdm_offset s)" by blast
      have "c = b" using register_pages_apart [OF off, of c b va] as [of c] as [OF b(1)] b(2) c by simp
      then show ?thesis using rest c unfolding registers_mapped_def by (simp add: h)
    next
      case False
      then have "page_entry s' r va = page_entry s1 r va" "b = a" using rest b unfolding registers_mapped_def by (auto simp: h)
      then show ?thesis using first b(2) by simp
    qed
  next
    fix va assume "\<forall>b \<in> set (a # as). \<not> same_page va (b + hhdm_offset s)"
    then show "page_entry s' r va = page_entry s r va" using rest first unfolding registers_mapped_def by (simp add: h)
  qed
qed

text \<open>The loop over the structures. It ends in a panic when it finds a seventeenth I/O APIC.\<close>

lemma parse_madt_step:
  "p < e \<Longrightarrow> parse_madt d e (p, mgr, s) = res_bind (madt_step d (p, mgr, s)) (parse_madt d e)"
  by (subst parse_madt.simps) simp

lemma parse_structures:
  fixes s :: "'z apic_state_scheme"
  assumes "paging_inv s r" "hhdm_ok (hhdm_offset s)" "unat (hhdm_offset s) mod 4096 = 0"
    and "answers_version d version (hhdm_offset s) (table_addresses xs)" "bytes_at s t (madt_bytes xs)" "list_all structure_ok xs" "beside_tables s r t (length (madt_bytes xs))"
    and "3 * length (table_addresses xs) \<le> length (free_frames s)" "length as \<le> 16"
  shows "let v = kernel_physical_to_virtual s t; e = v + of_nat (length (madt_bytes xs)); ios = as @ table_ioapics (hhdm_offset s) version xs in
    if length ios \<le> 16
    then \<exists>s'. parse_madt d e (v, ioapic_manager mgr as, s) = ret (e, ioapic_manager mgr ios, s') \<and> paging_inv s' r \<and>
      hhdm_offset s' = hhdm_offset s \<and> registers_mapped s s' r (table_addresses xs)
    else parse_madt d e (v, ioapic_manager mgr as, s) = kernel_panic ''Too many IO APICs\<newline>''"
  using assms
proof (induction xs arbitrary: t s as)
  case Nil
  have "parse_madt d p (p, mgr', s) = ret (p, mgr', s)" for p mgr' by (subst parse_madt.simps) simp
  then show ?case using Nil by (auto simp: registers_mapped_def Let_def)
next
  case (Cons x xs)
  let ?v = "kernel_physical_to_virtual s t" and ?n = "length (structure_bytes x)" and ?m = "length (madt_bytes xs)"
  let ?e = "?v + of_nat (length (madt_bytes (x # xs)))"
  note b = Cons.prems(5) [simplified, unfolded bytes_at_append]
  have t: "unat (t + of_nat ?n) = unat t + ?n"
    using b unat_add_no_wrap [of t "of_nat ?n"] by (simp add: unat_of_nat_small)
  have lt: "?v < ?e"
  proof -
    have "0 < ?n" by (cases x) simp_all
    moreover have "unat ?v = unat t + unat (hhdm_offset s)"
      using b Cons.prems(2) unat_add_no_wrap [of t "hhdm_offset s"] by (simp add: kernel_physical_to_virtual_def hhdm_ok_def)
    moreover have "unat (?v + of_nat (?n + ?m)) = unat ?v + (?n + ?m)"
      using b Cons.prems(2) unat_add_no_wrap [of ?v "of_nat (?n + ?m)"] calculation(2)
      by (simp add: unat_of_nat_small hhdm_ok_def del: of_nat_add)
    ultimately show ?thesis by (simp add: word_less_nat_alt)
  qed
  have rest: "bytes_at s (t + of_nat ?n) (madt_bytes xs)" "beside_tables s r (t + of_nat ?n) ?m"
    using b Cons.prems(7) t beside_tables_shift [of s r t ?n ?m] by simp_all
  have IH: "if length (as' @ table_ioapics (hhdm_offset s) version xs) \<le> 16
    then \<exists>s'. parse_madt d ?e (?v + of_nat ?n, ioapic_manager mgr as', s1) =
        ret (?e, ioapic_manager mgr (as' @ table_ioapics (hhdm_offset s) version xs), s') \<and> paging_inv s' r \<and>
      hhdm_offset s' = hhdm_offset s \<and> registers_mapped s1 s' r (table_addresses xs)
    else parse_madt d ?e (?v + of_nat ?n, ioapic_manager mgr as', s1) = kernel_panic ''Too many IO APICs\<newline>''"
    if s1: "paging_inv s1 r" "hhdm_offset s1 = hhdm_offset s" "bytes_at s1 (t + of_nat ?n) (madt_bytes xs)"
      "beside_tables s1 r (t + of_nat ?n) ?m" "3 * length (table_addresses xs) \<le> length (free_frames s1)" "length as' \<le> 16" for s1 :: "'z apic_state_scheme" and as'
  proof -
    have e: "kernel_physical_to_virtual s1 (t + of_nat ?n) = ?v + of_nat ?n" "?v + of_nat ?n + of_nat ?m = ?e"
      using s1(2) by (simp_all add: kernel_physical_to_virtual_def add.assoc)
    have ok: "list_all structure_ok xs" "hhdm_ok (hhdm_offset s1)" "unat (hhdm_offset s1) mod 4096 = 0"
      "answers_version d version (hhdm_offset s1) (table_addresses xs)"
      using Cons.prems(2-4,6) by (simp_all add: s1(2) answers_version_def)
    show ?thesis by (rule Cons.IH [OF s1(1) ok(2-4) s1(3) ok(1) s1(4-6), unfolded Let_def s1(2) e])
  qed
  show ?case
  proof (cases x)
    case (OtherStructure k body)
    have ok: "structure_ok (OtherStructure k body)" using Cons.prems(6) by (simp add: OtherStructure)
    have "parse_madt d ?e (?v, ioapic_manager mgr as, s) = parse_madt d ?e (?v + of_nat ?n, ioapic_manager mgr as, s)"
      using parse_madt_step [OF lt, of d "ioapic_manager mgr as" s]
        other_step [OF b [THEN conjunct1, unfolded OtherStructure] ok, of d "ioapic_manager mgr as"]
      by (simp add: OtherStructure)
    moreover have "structure_ioapics (hhdm_offset s) version x = []" "structure_addresses x = []" by (simp_all add: OtherStructure)
    ultimately show ?thesis
      using IH [OF Cons.prems(1) refl rest _ Cons.prems(9)] Cons.prems(8) by (simp add: Let_def split: if_split_asm)
  next
    case (IoApicStructure i pad address gsi)
    let ?a = "hd (structure_ioapics (hhdm_offset s) version x)" and ?p = "kernel_physical_to_virtual s (ucast address)"
    have ok: "unat address mod 4096 = 0" "structure_ioapics (hhdm_offset s) version x = [?a]" "?n = 12"
      "table_addresses (x # xs) = ucast address # table_addresses xs" "3 \<le> length (free_frames s)" "structure_ioapics (hhdm_offset s) version x \<noteq> []"
      using Cons.prems(6,8) by (simp_all add: IoApicStructure Let_def le4_def)
    have addr: "ucast address \<in> set (table_addresses (x # xs))" by (simp add: IoApicStructure)
    from ioapic_step [OF Cons.prems(1-3) b [THEN conjunct1, unfolded IoApicStructure] ok(1,5) Cons.prems(4) addr, of "ioapic_manager mgr as"]
    obtain s1 where s1: "madt_step d (?v, ioapic_manager mgr as, s) = (if length as = 16 then kernel_panic ''Too many IO APICs\<newline>''
        else ret (?v + 12, add_ioapic ?a (ioapic_manager mgr as), s1))" "paging_inv s1 r" "hhdm_offset s1 = hhdm_offset s"
      "set (free_frames s1) \<subseteq> set (free_frames s)" "length (free_frames s) \<le> length (free_frames s1) + 3" "tree_grows s s1 r"
      "\<forall>va. page_entry s1 r va = (if same_page va ?p then flagged (ucast address) uncached else page_entry s r va)"
      unfolding ioapic_manager_full [OF Cons.prems(9)] IoApicStructure by blast
    note step = parse_madt_step [OF lt, of d "ioapic_manager mgr as" s]
    show ?thesis
    proof (cases "length as = 16")
      case True
      then show ?thesis using step s1(1) ok(6) by (simp add: Let_def)
    next
      case False
      then have "length as < 16" using Cons.prems(9) by simp
      then have run: "parse_madt d ?e (?v, ioapic_manager mgr as, s) = parse_madt d ?e (?v + 12, ioapic_manager mgr (as @ [?a]), s1)"
        using step s1(1) False by (simp add: add_ioapic_manager)
      note grown = bytes_at_grows [OF rest s1(6,4)]
      have "3 * length (table_addresses xs) \<le> length (free_frames s1)" "length (as @ [?a]) \<le> 16"
        using Cons.prems(8) s1(5) ok(4) \<open>length as < 16\<close> by simp_all
      note rec = IH [OF s1(2,3) grown this, unfolded ok(3)]
      have addr: "b \<in> set (ucast address # table_addresses xs) \<Longrightarrow> unat b < 2 ^ 32 \<and> unat b mod 4096 = 0" for b
        using structure_address [OF Cons.prems(6), of b] ok(4) by simp
      have "registers_mapped s1 s' r (table_addresses xs) \<Longrightarrow> registers_mapped s s' r (ucast address # table_addresses xs)" for s'
        using registers_mapped_Cons [OF Cons.prems(2,3) addr _ _ s1(3)] s1(7) by (simp add: kernel_physical_to_virtual_def)
      then show ?thesis using rec run ok(2,4) by (simp add: Let_def split: if_split_asm) blast
    qed
  qed
qed

lemma registers_translated:
  assumes inv: "paging_inv s' r" and m: "registers_mapped s s' r as" and a: "a \<in> set as" "node_frame a"
  shows "paging_get_translation s' (a + hhdm_offset s) =
    ret \<lparr>physical_address = a, translation_flags = PageFlags_Write OR PageFlags_CacheDisable OR PageFlags_Present\<rparr>"
proof -
  have "page_entry s' r (a + hhdm_offset s) = flagged a uncached" using m a(1) unfolding registers_mapped_def by simp
  then show ?thesis
    using paging_get_translation_entry [OF inv, of "a + hhdm_offset s"] flagged_child [OF uncached_ok, of a]
      node_frame_masked [OF a(2)] flagged_flags [of a uncached]
    by (simp add: PageFlags_or_def PageFlags_Write_def PageFlags_CacheDisable_def PageFlags_Present_def)
qed

text \<open>The tables the kernel is given: a description pointer with its checksum, whose root table leads to a MADT with
  the structures \<open>xs\<close>.\<close>

definition acpi_tables :: "'z machine_scheme \<Rightarrow> u64 \<Rightarrow> u64 \<Rightarrow> madt_structure list \<Rightarrow> bool" where
  "acpi_tables s rsdp madt xs \<longleftrightarrow> rsdp \<noteq> 0 \<and>
     (case rootSDTPhysicalAddress s rsdp of
        Some (Inr rsdt) \<Rightarrow> findSDTWithSignature s (kernel_physical_to_virtual s rsdt) apic_signature (acpiRevision s rsdp) = madt
      | _ \<Rightarrow> False) \<and> madt \<noteq> 0 \<and>
     unat (sdt_length s (kernel_physical_to_virtual s madt)) = 44 + length (madt_bytes xs) \<and>
     bytes_at s (madt + 44) (madt_bytes xs) \<and> list_all structure_ok xs"

lemma acpi_tablesE:
  assumes "acpi_tables s rsdp madt xs"
  obtains rsdt where "rootSDTPhysicalAddress s rsdp = ret rsdt"
    "findSDTWithSignature s (kernel_physical_to_virtual s rsdt) apic_signature (acpiRevision s rsdp) = madt"
  using assms by (auto simp: acpi_tables_def ret_def split: option.splits sum.splits)

lemma initialize_ioapics:
  fixes s :: "'z apic_state_scheme"
  assumes inv: "paging_inv s r" and off: "hhdm_ok (hhdm_offset s)" "unat (hhdm_offset s) mod 4096 = 0"
    and tables: "acpi_tables s rsdp madt xs" and beside: "beside_tables s r (madt + 44) (length (madt_bytes xs))"
    and free: "3 * length (table_addresses xs) \<le> length (free_frames s)"
    and dev: "answers_version d version (hhdm_offset s) (table_addresses xs)"
  defines "ios \<equiv> table_ioapics (hhdm_offset s) version xs"
  shows "if length ios \<le> 16
    then \<exists>s'. APICManager_initialize d rsdp (APICManager_init 0) s = ret (ioapic_manager (APICManager_init rsdp) ios, s') \<and>
      paging_inv s' r \<and> registers_mapped s s' r (table_addresses xs)
    else APICManager_initialize d rsdp (APICManager_init 0) s = kernel_panic ''Too many IO APICs\<newline>''"
proof -
  let ?v = "kernel_physical_to_virtual s (madt + 44)" and ?n = "length (madt_bytes xs)"
  let ?mgr = "APICManager_init rsdp"
  obtain rsdt where rsdt: "rootSDTPhysicalAddress s rsdp = ret rsdt"
    "findSDTWithSignature s (kernel_physical_to_virtual s rsdt) apic_signature (acpiRevision s rsdp) = madt"
    using acpi_tablesE [OF tables] .
  have len: "unat (sdt_length s (kernel_physical_to_virtual s madt)) = 44 + ?n" and nz: "rsdp \<noteq> 0" "madt \<noteq> 0"
    and table: "bytes_at s (madt + 44) (madt_bytes xs)" "list_all structure_ok xs"
    using tables by (simp_all add: acpi_tables_def)
  have "44 + ?n < 2 ^ 32" using len unsigned_less [of "sdt_length s (kernel_physical_to_virtual s madt)", where ?'a = nat] by simp
  then have "ucast (sdt_length s (kernel_physical_to_virtual s madt)) = (of_nat (44 + ?n) :: u64)"
    using len unat_of_nat_small [of "44 + ?n"] by (simp only: word_unat_eq_iff unat_ucast_u32) simp
  then have v: "kernel_physical_to_virtual s madt + 44 = ?v"
    "kernel_physical_to_virtual s madt + ucast (sdt_length s (kernel_physical_to_virtual s madt)) = ?v + of_nat ?n"
    by (simp_all add: kernel_physical_to_virtual_def)
  have run: "APICManager_initialize d rsdp (APICManager_init 0) s =
      res_bind (parse_madt d (?v + of_nat ?n) (?v, ?mgr, s)) (\<lambda>(p, mgr, s). ret (mgr, s))"
    using nz rsdt v by (simp add: APICManager_initialize_def APICManager_init_def Let_def)
  note parse = parse_structures [OF inv off dev table beside free, of "[]" ?mgr, unfolded Let_def ioapic_manager_init append_Nil, folded ios_def]
  show ?thesis
  proof (cases "length ios \<le> 16")
    case True
    then obtain s' where "parse_madt d (?v + of_nat ?n) (?v, ?mgr, s) = ret (?v + of_nat ?n, ioapic_manager ?mgr ios, s')"
      "paging_inv s' r" "registers_mapped s s' r (table_addresses xs)" using parse by auto
    then show ?thesis using True run by auto
  qed (use run parse in auto)
qed

text \<open>C26. \<^verbatim>\<open>APICManager::initialize\<close> finds the I/O APICs of the machine. When the root table names a MADT of any
  well-formed structures and three frames are free for each I/O APIC, the call returns: the manager holds the I/O
  APICs of the table in order, with their identifiers, the first global interrupt and the number of redirection
  entries that the controller answers, the other slots are empty, the registers of each are mapped uncached at
  their place in the direct map, and no other translation changes. A table with more than sixteen I/O APICs stops
  the kernel.\<close>

theorem initialize_finds_ioapics:
  fixes s :: "'z apic_state_scheme"
  assumes inv: "paging_inv s r" and off: "hhdm_ok (hhdm_offset s)" "unat (hhdm_offset s) mod 4096 = 0"
    and tables: "acpi_tables s rsdp madt xs" and beside: "beside_tables s r (madt + 44) (length (madt_bytes xs))"
    and free: "3 * length (table_addresses xs) \<le> length (free_frames s)"
    and dev: "answers_version d version (hhdm_offset s) (table_addresses xs)"
  defines "ios \<equiv> table_ioapics (hhdm_offset s) version xs"
  shows "if length ios \<le> 16
    then \<exists>s'. APICManager_initialize d rsdp (APICManager_init 0) s =
        ret (\<lparr>m_rsdp = rsdp, m_ioApics = ios @ replicate (16 - length ios) IOAPIC_default, m_numLocalApics = 0,
              m_numIoApics = of_nat (length ios)\<rparr>, s') \<and> paging_inv s' r \<and>
      (\<forall>a \<in> set (table_addresses xs). paging_get_translation s' (a + hhdm_offset s) =
        ret \<lparr>physical_address = a, translation_flags = PageFlags_Write OR PageFlags_CacheDisable OR PageFlags_Present\<rparr>) \<and>
      (\<forall>va. (\<forall>a \<in> set (table_addresses xs). \<not> same_page va (a + hhdm_offset s)) \<longrightarrow>
        paging_get_translation s' va = paging_get_translation s va)
    else APICManager_initialize d rsdp (APICManager_init 0) s = kernel_panic ''Too many IO APICs\<newline>''"
proof (cases "length ios \<le> 16")
  case True
  then obtain s' where s': "APICManager_initialize d rsdp (APICManager_init 0) s = ret (ioapic_manager (APICManager_init rsdp) ios, s')"
    "paging_inv s' r" "registers_mapped s s' r (table_addresses xs)"
    using initialize_ioapics [OF assms(1-7), folded ios_def] by auto
  have mgr: "ioapic_manager (APICManager_init rsdp) ios = \<lparr>m_rsdp = rsdp, m_ioApics = ios @ replicate (16 - length ios) IOAPIC_default,
      m_numLocalApics = 0, m_numIoApics = of_nat (length ios)\<rparr>"
    by (simp add: ioapic_manager_def APICManager_init_def)
  have ok: "list_all structure_ok xs" using tables by (simp add: acpi_tables_def)
  have "paging_get_translation s' va = paging_get_translation s va"
    if "\<forall>a \<in> set (table_addresses xs). \<not> same_page va (a + hhdm_offset s)" for va
    using s'(3) that paging_get_translation_entry [OF inv, of va] paging_get_translation_entry [OF s'(2), of va]
    unfolding registers_mapped_def by simp
  then show ?thesis
    using True s'(1,2) mgr registers_translated [OF s'(2,3)] structure_address(3) [OF ok] by auto
qed (use initialize_ioapics [OF assms(1-7), folded ios_def] in simp)

section \<open>An example\<close>

text \<open>The tables of a machine with one processor and one I/O APIC, in a page of their own: a descriptor of revision 0
  at \<open>0xa000\<close>, the root table at \<open>0xa100\<close> (whose second entry is read first) and the MADT at \<open>0xa200\<close>.\<close>

definition example_madt :: "madt_structure list" where
  "example_madt = [OtherStructure 0 [0, 0, 1, 0, 0, 0], IoApicStructure 2 0 0xfec00000 0]"

primrec put_bytes :: "u64 \<Rightarrow> u8 list \<Rightarrow> memory \<Rightarrow> memory" where
  "put_bytes a [] m = m"
| "put_bytes a (b # bs) m = put_bytes (a + 1) bs (m(a := b))"

definition acpi_page :: memory where
  "acpi_page = put_bytes 0xa22c (madt_bytes example_madt) (put_bytes 0xa200 [0x41, 0x50, 0x49, 0x43, 64]
     (put_bytes 0xa128 [0, 0xa2] (put_bytes 0xa104 [44] (put_bytes 0xa010 [0, 0xa1] ((\<lambda>_. 0)(0xa008 := 0x5f))))))"

definition acpi_running :: interrupt_state where
  "acpi_running = example_running\<lparr>mem := (\<lambda>a. if 0xa000 \<le> unat a \<and> unat a < 0xb000 then acpi_page a else mem example_running a)\<rparr>"

lemma acpi_running_facts:
  "paging_inv acpi_running 0xf000" "length (free_frames acpi_running) = 8" "hhdm_offset acpi_running = 0xffff800000000000"
  "beside_tables acpi_running 0xf000 0xa22c 20" "data_frame acpi_running 0xf000 0xa000"
proof -
  show h: "hhdm_offset acpi_running = 0xffff800000000000"
    by (simp add: acpi_running_def example_running_def example_space_def PageTree_init_def PageTreeNode_init_def
        zero_object_def example_kernel_def)
  have m: "mem example_running = mem example_space" "hhdm_offset example_running = hhdm_offset example_space"
    "free_stack example_running = free_stack example_space" "page_tree example_running = page_tree example_space"
    by (simp_all add: example_running_def)
  note same = paging_same_mem [OF m] tree_same_mem [OF m(1)]
  have nodes: "tree_nodes example_running 0xf000 \<subseteq> {0xf000}"
    unfolding tree_same_mem(4) [OF m(1)] using example_space_facts(4) by (auto simp: tree_nodes_def split: if_splits)
  have free: "free_frames example_running = [0x9000, 0x8000, 0x7000, 0x6000, 0x5000, 0x4000, 0x3000, 0x2000]"
    using example_space_facts(2) by (simp add: same example_kernel_frames)
  have "off_stack example_running 0xa000"
    by (simp add: off_stack_def example_running_def example_space_def PageTree_init_def PageTreeNode_init_def
        zero_object_def example_kernel_def)
  then have "data_frame example_running 0xf000 0xa000" using nodes by (auto simp: data_frame_def node_frame_def free)
  have eq: "acpi_running = example_running\<lparr>mem := mem acpi_running\<rparr>" by (simp add: acpi_running_def)
  have "\<not> (unat (0xa000 :: u64) \<le> unat a \<and> unat a < unat (0xa000 :: u64) + 4096) \<Longrightarrow> mem acpi_running a = mem example_running a" for a
    by (auto simp: acpi_running_def)
  note keeps = data_write_keeps [OF example_running_facts(1) \<open>data_frame _ _ _\<close> this, folded eq]
  show "paging_inv acpi_running 0xf000" "length (free_frames acpi_running) = 8"
    using keeps(1,2) by (simp_all add: free)
  show "data_frame acpi_running 0xf000 0xa000" using keeps(5) \<open>data_frame _ _ _\<close> by simp
  then show "beside_tables acpi_running 0xf000 0xa22c 20"
    using keeps(1) by (intro data_frame_beside [where f = "0xa000" and k = "0x22c"]) (simp_all add: paging_inv_def)
qed

text \<open>The tables in any memory that has this page.\<close>

definition has_acpi_page :: "'z machine_scheme \<Rightarrow> bool" where
  "has_acpi_page s \<longleftrightarrow> hhdm_offset s = 0xffff800000000000 \<and> (\<forall>a. 0xa000 \<le> a \<and> a < 0xb000 \<longrightarrow> mem s a = acpi_page a)"

lemma acpi_running_page: "has_acpi_page acpi_running"
  unfolding has_acpi_page_def acpi_running_facts(3)
  by (simp add: acpi_running_def word_le_nat_alt word_less_nat_alt)

lemma acpi_loads:
  assumes "has_acpi_page s"
  shows "hhdm_offset s = 0xffff800000000000"
    "acpiRevision s 0xffff80000000a000 = 0" "load32 s 0xffff80000000a010 = 0xa100"
    "sdt_length s 0xffff80000000a100 = 44" "load32 s 0xffff80000000a128 = 0xa200"
    "sdt_length s 0xffff80000000a200 = 64" "bytes_at s 0xa22c (madt_bytes example_madt)"
    "map (load8 s) [0xa200, 0xa201, 0xa202, 0xa203] = apic_signature"
    "sum_list (bytes_from s 0xffff80000000a000 20) = 0"
proof -
  have h: "hhdm_offset s = 0xffff800000000000" and e: "0xa000 \<le> a \<Longrightarrow> a < 0xb000 \<Longrightarrow> mem s a = acpi_page a" for a
    using assms by (simp_all add: has_acpi_page_def)
  note eval = h acpiRevision_def sdt_length_def load8_def load32_def cell_of_def read_u32_def get_le_4
    e acpi_page_def example_madt_def le4_def apic_signature_def bytes_at_def upt_rec bytes_from_def
  show "hhdm_offset s = 0xffff800000000000"
    "acpiRevision s 0xffff80000000a000 = 0" "load32 s 0xffff80000000a010 = 0xa100"
    "sdt_length s 0xffff80000000a100 = 44" "load32 s 0xffff80000000a128 = 0xa200"
    "sdt_length s 0xffff80000000a200 = 64" "bytes_at s 0xa22c (madt_bytes example_madt)"
    "map (load8 s) [0xa200, 0xa201, 0xa202, 0xa203] = apic_signature"
    "sum_list (bytes_from s 0xffff80000000a000 20) = 0"
    by (simp_all add: eval)
qed

lemma example_madt_facts:
  "length (madt_bytes example_madt) = 20" "table_addresses example_madt = [0xfec00000]" "list_all structure_ok example_madt"
  "table_ioapics 0xffff800000000000 (\<lambda>_. 0x170011) example_madt = [example_ioapic\<lparr>m_numRedirectionEntries := 23\<rparr>]"
  by (simp_all add: example_madt_def example_ioapic_def le4_def)

lemma acpi_page_tables:
  assumes "has_acpi_page s" shows "acpi_tables s 0xffff80000000a000 0xa200 example_madt"
proof -
  note l = acpi_loads [OF assms]
  have rsdt: "rootSDTPhysicalAddress s 0xffff80000000a000 = ret 0xa100"
    using rsdp_address_checked [of "0xffff80000000a000" s] by (simp add: l)
  have "strncmp_literal s 0xa200 apic_signature = 0" using l(8) by (simp add: apic_signature_def)
  then have "findSDTWithSignature s (kernel_physical_to_virtual s 0xa100) apic_signature (acpiRevision s 0xffff80000000a000) = 0xa200"
    unfolding findSDTWithSignature_def
    by (simp add: kernel_physical_to_virtual_def l numPointersToOtherSDTs_def bytesPerPointer_def
        find_sdt_from.simps [of s _ _ _ _ 0] sdt_pointer_def pointersToOtherSDTs_def)
  then show ?thesis
    using rsdt l by (simp add: acpi_tables_def ret_def example_madt_facts kernel_physical_to_virtual_def)
qed

text \<open>A controller whose version register has the value \<open>0x170011\<close>.\<close>

definition version_devices :: devices where
  "version_devices = example_devices\<lparr>mmio_in := (\<lambda>h p.
     if h \<noteq> [] \<and> (case last h of MmioWrite q v \<Rightarrow> v = 1 | _ \<Rightarrow> False) then 0x170011 else 0)\<rparr>"

theorem initialize_finds_ioapics_witness:
  "\<exists>s'. APICManager_initialize version_devices 0xffff80000000a000 (APICManager_init 0) acpi_running =
      ret (\<lparr>m_rsdp = 0xffff80000000a000, m_ioApics = example_ioapic\<lparr>m_numRedirectionEntries := 23\<rparr> # replicate 15 IOAPIC_default,
            m_numLocalApics = 0, m_numIoApics = 1\<rparr>, s') \<and>
     paging_get_translation s' 0xffff8000fec00000 = ret \<lparr>physical_address = 0xfec00000, translation_flags = 0x13\<rparr>"
proof -
  have dev: "answers_version version_devices (\<lambda>_. 0x170011) off as" for off as by (simp add: answers_version_def version_devices_def Let_def)
  have off: "hhdm_ok (hhdm_offset acpi_running)" "unat (hhdm_offset acpi_running) mod 4096 = 0"
    by (simp_all add: hhdm_ok_def acpi_running_facts(3))
  have beside: "beside_tables acpi_running 0xf000 (0xa200 + 44) (length (madt_bytes example_madt))"
    using acpi_running_facts(4) by (simp add: example_madt_facts)
  note found = initialize_finds_ioapics [OF acpi_running_facts(1) off acpi_page_tables [OF acpi_running_page] beside _ dev,
    unfolded acpi_running_facts(3) example_madt_facts(2,4)]
  show ?thesis
    using found by (simp add: acpi_running_facts(2) PageFlags_Write_def PageFlags_CacheDisable_def PageFlags_Present_def) blast
qed

end
