(* ===== verification/Device_Init.thy ===== *)
theory Device_Init
  imports Boot Madt
begin

text \<open>
  The devices at boot (\<^verbatim>\<open>kernel_init\<close> from \<^verbatim>\<open>enableAPIC\<close> on): the local APIC is mapped and enabled, the keyboard
  controller is set up, the I/O APICs are found in the MADT and the keyboard's interrupt is redirected. The
  composition shows that these steps return on a machine whose devices behave as documented, and that afterwards
  interrupt 1 arrives at vector \<open>0x30\<close>, where the descriptor table has the keyboard routine.
\<close>

section \<open>The local APIC\<close>

text \<open>Most steps talk to devices alone: they change the trace and nothing else.\<close>

definition trace_only :: "'z io_state_scheme \<Rightarrow> 'z io_state_scheme \<Rightarrow> bool" where
  "trace_only s s' \<longleftrightarrow> (\<exists>h. s' = s\<lparr>io_trace := h\<rparr>)"

lemma trace_only_intros [intro, simp]:
  "trace_only s s" "trace_only s t \<Longrightarrow> trace_only s (emit e t)" "trace_only s t \<Longrightarrow> trace_only s (outb port v t)"
  "trace_only s t \<Longrightarrow> trace_only s (ioWait t)" "trace_only s t \<Longrightarrow> trace_only s (snd (inb d port t))"
  "trace_only s t \<Longrightarrow> trace_only s (mmio_write p w t)"
proof -
  show refl: "trace_only s s" unfolding trace_only_def by (rule exI [of _ "io_trace s"]) simp
  show "trace_only s t \<Longrightarrow> trace_only s (emit e t)" by (auto simp: trace_only_def emit_def)
  then show "trace_only s t \<Longrightarrow> trace_only s (outb port v t)" "trace_only s t \<Longrightarrow> trace_only s (ioWait t)"
      "trace_only s t \<Longrightarrow> trace_only s (snd (inb d port t))" "trace_only s t \<Longrightarrow> trace_only s (mmio_write p w t)"
    by (auto simp: trace_only_def emit_def outb_def ioWait_def inb_def mmio_write_def Let_def)
qed

lemma trace_only_same:
  fixes s :: "'z io_state_scheme"
  assumes "trace_only s s'"
  shows "mem s' = mem s" "hhdm_offset s' = hhdm_offset s" "free_stack s' = free_stack s" "page_tree s' = page_tree s"
  using assms by (auto simp: trace_only_def)

lemma pic_trace: "trace_only s (remapPIC d o1 o2 (disablePIC s))"
  by (simp add: remapPIC_def disablePIC_def Let_def split_beta)

lemma page_masked: "unat (x AND (0xfffff000 :: u32)) mod 4096 = 0"
proof -
  have m: "(0xfffff000 :: u32) = push_bit 12 (mask 20)" by (simp add: mask_eq_exp_minus_1)
  have "take_bit 12 (x AND 0xfffff000) = 0" unfolding m by (rule bit_eqI) (auto simp: bit_simps)
  then have "take_bit 12 (unat (x AND 0xfffff000)) = 0" by (metis unsigned_take_bit_eq unsigned_0)
  then show ?thesis by (simp add: take_bit_eq_mod)
qed

lemma enableAPIC_runs:
  fixes s :: "'z apic_state_scheme"
  assumes inv: "paging_inv s r" and off: "hhdm_ok (hhdm_offset s)" "unat (hhdm_offset s) mod 4096 = 0"
    and free: "3 \<le> length (free_frames s)" and cpu: "hasMSR d" "hasLocalAPIC d" "hasPAT d"
  shows "\<exists>s'. enableAPIC d s = ret s' \<and> paging_inv s' r \<and> hhdm_offset s' = hhdm_offset s \<and>
    set (free_frames s') \<subseteq> set (free_frames s) \<and> length (free_frames s) \<le> length (free_frames s') + 3 \<and> tree_grows s s' r"
proof -
  obtain low high where m: "msr_in d (io_trace s) 0x1B = (low, high)" by fastforce
  define s0 where "s0 = emit (Rdmsr 0x1B low high) s"
  let ?a = "low AND 0xfffff000"
  have m0: "mem s0 = mem s" "hhdm_offset s0 = hhdm_offset s" "free_stack s0 = free_stack s" "page_tree s0 = page_tree s"
    by (simp_all add: s0_def emit_def)
  note same0 = paging_same_mem [OF m0] tree_same_mem [OF m0(1)]
  have "unat ?a mod 4096 = 0" by (rule page_masked)
  from register_page [of s0 r, OF _ _ _ this] obtain s1 where
    s1: "paging_add_mapping (kernel_physical_to_virtual s0 (ucast ?a)) (ucast ?a) pageSize uncached s0 = ret s1" "paging_inv s1 r"
      "same_globals s0 s1" "set (free_frames s1) \<subseteq> set (free_frames s0)" "length (free_frames s0) \<le> length (free_frames s1) + 3"
      "tree_grows s0 s1 r"
    using inv off free by (auto simp: same0 m0)
  let ?v = "kernel_physical_to_virtual s0 (ucast ?a)"
  define s2 where "s2 = emit (Wrmsr 0x1B (ucast ((ucast ?a AND 0xfffff000) OR push_bit 11 1 :: u64)) 0) (s1\<lparr>lapic_baseAddress := ?v\<rparr>)"
  have "enableAPIC d s = ret (lapic_write LAPIC_TASK_PRIORITY 0 (lapic_write LAPIC_SPURIOUS_REGISTER 0x1FF
      (emit Sti (remapPIC d 0x20 0x28 (disablePIC s2)))))"
    using s1(1) cpu m by (simp add: enableAPIC_def localAPICBaseAddress_def readMSR_def s0_def [symmetric] kernel_assert_def
      hardwareEnableLocalAPICAndSetBaseAddress_def writeMSR_def s2_def Let_def)
  moreover have "trace_only s2 (lapic_write LAPIC_TASK_PRIORITY 0 (lapic_write LAPIC_SPURIOUS_REGISTER 0x1FF
      (emit Sti (remapPIC d 0x20 0x28 (disablePIC s2)))))" by (simp add: lapic_write_def pic_trace)
  ultimately obtain s' where s': "enableAPIC d s = ret s'" and m1: "mem s' = mem s1" "hhdm_offset s' = hhdm_offset s1"
      "free_stack s' = free_stack s1" "page_tree s' = page_tree s1"
    using trace_only_same by (fastforce simp: s2_def emit_def)
  note same1 = paging_same_mem [OF m1] tree_same_mem [OF m1(1)]
  have "tree_grows s s' r" using s1(6) by (simp add: tree_grows_def same0 same1 m0(1) m1(1))
  then show ?thesis
    using s' s1 same_globals_simps(1) [OF s1(3)] by (intro exI [of _ s']) (simp add: same0 same1 m0(2) m1(2))
qed

section \<open>All devices\<close>

text \<open>Two states whose memory differs in frames of the page tables or free frames only, which is all that the
  mappings of the devices may change.\<close>

definition memory_beside :: "'z frame_state_scheme \<Rightarrow> 'z frame_state_scheme \<Rightarrow> u64 \<Rightarrow> bool" where
  "memory_beside s s' r \<longleftrightarrow> hhdm_offset s' = hhdm_offset s \<and>
     (\<forall>a. mem s' a \<noteq> mem s a \<longrightarrow> (\<exists>n \<in> tree_nodes s r \<union> set (free_frames s). in_frame n a))"

lemma beside_tables_grows:
  assumes "beside_tables s r t n" "tree_grows s s' r" "set (free_frames s') \<subseteq> set (free_frames s)"
  shows "beside_tables s' r t n"
  using assms unfolding beside_tables_def tree_grows_def by blast

lemma keyboard_trace: "controller_answers d \<Longrightarrow> \<exists>s'. initKeyboardController d s = ret s' \<and> trace_only s s'"
  using keyboard_controller_runs [of d s] unfolding trace_only_def by metis

lemma redirect_trace: "trace_only s (redirectIrq d mgr irq vector s)"
proof -
  have "trace_only s (redirect_first d as irq vector t)" if "trace_only s t" for as t
    using that by (induction as arbitrary: t)
      (auto simp: Let_def split_beta readRedirectionEntryLow_def readRedirectionEntryHigh_def writeRedirectionEntryLow_def
        writeRedirectionEntryHigh_def readRegister_def writeRegister_def mmio_read_def)
  then show ?thesis by (simp add: redirectIrq_def)
qed

lemma entry_low:
  fixes x :: u32
  shows "(((x AND NOT 0xff) OR ucast (0x30 :: u8)) AND NOT (push_bit 16 1)) AND 0xff = 0x30"
    "\<not> bit (((x AND NOT 0xff) OR ucast (0x30 :: u8)) AND NOT (push_bit 16 1)) 16"
proof -
  have "((x AND NOT m OR c) AND NOT p) AND m = (c AND NOT p) AND m" for m c p by (rule bit_eqI) (auto simp: bit_simps)
  from this [of "0xff" "ucast (0x30 :: u8)" "push_bit 16 1"]
  show "(((x AND NOT 0xff) OR ucast (0x30 :: u8)) AND NOT (push_bit 16 1)) AND 0xff = 0x30" by (rule trans) simp
  show "\<not> bit (((x AND NOT 0xff) OR ucast (0x30 :: u8)) AND NOT (push_bit 16 1)) 16" by (simp add: bit_simps)
qed

lemma entry_high: "drop_bit 24 ((y AND 0x00ffffff) OR push_bit 24 (ucast (i :: u8)) :: u32) = ucast i"
proof -
  have m: "(0x00ffffff :: u32) = mask 24" by (simp add: mask_eq_exp_minus_1)
  show ?thesis unfolding m by (rule bit_eqI) (auto simp: bit_simps dest: bit_imp_le_length)
qed

text \<open>C14. The devices come up and the keyboard's interrupt is routed. On a processor with the features the kernel
  asks for, with a keyboard controller that answers and ACPI tables in memory that the kernel does not use, given
  three free frames for the local APIC and for each I/O APIC, the rest of \<^verbatim>\<open>kernel_init\<close> returns with the page tables
  well formed; in the first I/O APIC that handles interrupt 1 the redirection entry then has vector \<open>0x30\<close>, is not
  masked and has the I/O APIC's identifier as its destination.\<close>

theorem kernel_init_devices_routes_keyboard:
  fixes s :: "'z apic_state_scheme" and B :: boot_inputs
  defines "d \<equiv> boot_devices B"
  assumes inv: "paging_inv s r" and off: "hhdm_ok (hhdm_offset s)" "unat (hhdm_offset s) mod 4096 = 0"
    and cpu: "hasMSR d" "hasLocalAPIC d" "hasPAT d" and keyboard: "controller_answers d"
    and tables: "\<forall>s'. memory_beside s s' r \<longrightarrow> acpi_tables s' (boot_rsdp B) madt xs"
    and beside: "beside_tables s r (madt + 44) (length (madt_bytes xs))"
    and free: "3 + 3 * length (table_addresses xs) \<le> length (free_frames s)"
    and ios: "table_ioapics (hhdm_offset s) version xs = pre @ a # post" "length (pre @ a # post) \<le> 16"
    and handles: "list_all (\<lambda>a. \<not> handlesIRQ a 1) pre" "handlesIRQ a 1" "redirection_high a 1 \<noteq> 1"
    and dev: "answers_version d version (hhdm_offset s) (table_addresses xs)" "ioapic_reads d a st"
  shows "\<exists>s' sel regs. kernel_init_devices B s = ret s' \<and> paging_inv s' r \<and>
    ioapic_after a st (io_trace s') = (sel, regs) \<and>
    regs (ucast (redirection_low a 1)) AND 0xff = 0x30 \<and> \<not> bit (regs (ucast (redirection_low a 1))) 16 \<and>
    drop_bit 24 (regs (ucast (redirection_high a 1))) = ucast (m_id a)"
proof -
  obtain s1 where s1: "enableAPIC d s = ret s1" "paging_inv s1 r" "hhdm_offset s1 = hhdm_offset s"
    "set (free_frames s1) \<subseteq> set (free_frames s)" "length (free_frames s) \<le> length (free_frames s1) + 3" "tree_grows s s1 r"
    using enableAPIC_runs [OF inv off _ cpu] free by auto
  obtain s2 where s2: "initKeyboardController d s1 = ret s2" "trace_only s1 s2" using keyboard_trace [OF keyboard] by blast
  note m = trace_only_same [OF s2(2)]
  note same = paging_same_mem [OF m] tree_same_mem [OF m(1)]
  have grows: "tree_grows s s2 r" using s1(6) by (simp add: tree_grows_def same m(1))
  have off2: "hhdm_ok (hhdm_offset s2)" "unat (hhdm_offset s2) mod 4096 = 0" using off by (simp_all add: m(2) s1(3))
  have "memory_beside s s2 r" using grows by (simp add: memory_beside_def tree_grows_def m(2) s1(3))
  then have t2: "acpi_tables s2 (boot_rsdp B) madt xs" using tables by blast
  have b2: "beside_tables s2 r (madt + 44) (length (madt_bytes xs))"
    using s1(4) by (intro beside_tables_grows [OF beside grows]) (simp add: same)
  have f2: "3 * length (table_addresses xs) \<le> length (free_frames s2)" using free s1(5) by (simp add: same)
  have inv2: "paging_inv s2 r" "answers_version d version (hhdm_offset s2) (table_addresses xs)"
    using s1(2) dev(1) by (simp_all add: same m(2) s1(3))
  obtain s3 where s3: "APICManager_initialize d (boot_rsdp B) (APICManager_init 0) s2 =
      ret (ioapic_manager (APICManager_init (boot_rsdp B)) (pre @ a # post), s3)" "paging_inv s3 r"
    using initialize_ioapics [OF inv2(1) off2 t2 b2 f2 inv2(2)] ios by (auto simp: m(2) s1(3))
  let ?mgr = "ioapic_manager (APICManager_init (boot_rsdp B)) (pre @ a # post)"
  obtain sel regs where before: "ioapic_after a st (io_trace s3) = (sel, regs)" by fastforce
  have mgr: "m_ioApics ?mgr = pre @ a # (post @ replicate (16 - length (pre @ a # post)) IOAPIC_default)"
    by (simp add: ioapic_manager_def)
  define s4 where "s4 = redirectIrq d ?mgr 1 0x30 s3"
  have run: "kernel_init_devices B s = ret s4"
    using s1(1) s2(1) s3(1) by (simp add: kernel_init_devices_def d_def s4_def Let_def)
  let ?low = "ucast (redirection_low a 1) :: u32" and ?high = "ucast (redirection_high a 1) :: u32"
  let ?regs = "(regs(?high := (regs ?high AND 0x00ffffff) OR push_bit 24 (ucast (m_id a))))
      (?low := ((regs ?low AND NOT 0xff) OR ucast (0x30 :: u8)) AND NOT (push_bit 16 1))"
  have after: "ioapic_after a st (io_trace s4) = (?low, ?regs)"
    unfolding s4_def by (rule redirectIrq_registers [OF mgr handles(1-3) dev(2) before])
  have "?regs ?low AND 0xff = 0x30" "\<not> bit (?regs ?low) 16" unfolding fun_upd_same by (rule entry_low)+
  moreover have "drop_bit 24 (?regs ?high) = ucast (m_id a)"
    using entry_high [of "regs ?high" "m_id a"] redirection_registers_differ [of a 1] by simp
  moreover have "paging_inv s4 r"
    using s3(2) paging_same_mem(1) [OF trace_only_same [OF redirect_trace [of s3 d ?mgr 1 "0x30"]]] by (simp add: s4_def)
  ultimately show ?thesis using run after by blast
qed

section \<open>An example\<close>

text \<open>The version register of a controller keeps its value.\<close>

lemma version_kept: "snd (ioapic_after a st h) 1 = snd st 1"
proof -
  have "snd (fold (ioapic_write p q) h st) 1 = snd st 1" for p q
    by (induction h arbitrary: st) (auto simp: ioapic_write_def split: io_event.splits)
  then show ?thesis by (simp add: ioapic_after_def)
qed

lemma ioapic_version:
  assumes "ioapic_reads d a st"
  shows "mmio_in d (h @ [MmioWrite (ucast (m_address a)) 1]) (ucast (m_address a + 0x10)) = snd st 1"
proof -
  have "ioapic_after a st (h @ [MmioWrite (ucast (m_address a)) 1]) = (1, snd (ioapic_after a st h))"
    by (simp add: ioapic_after_def ioapic_write_def split: prod.splits)
  then show ?thesis using assms version_kept [of a st h] by (simp add: ioapic_reads_def)
qed

text \<open>One controller with 23 entries, all masked, and the tables of the example above.\<close>

abbreviation routed_ioapic :: IOAPIC where
  "routed_ioapic \<equiv> example_ioapic\<lparr>m_numRedirectionEntries := 23\<rparr>"

definition routed_start :: "u32 \<times> (u32 \<Rightarrow> u32)" where
  "routed_start = (0, (\<lambda>_. 0x10000)(1 := 0x170011))"

definition routed_devices :: devices where
  "routed_devices = example_devices\<lparr>mmio_in := (\<lambda>h p.
     if p = 0xfec00010 then (case ioapic_after routed_ioapic routed_start h of (sel, regs) \<Rightarrow> regs sel) else 0)\<rparr>"

definition routed_inputs :: boot_inputs where
  "routed_inputs = \<lparr>boot_devices = routed_devices, boot_isr_address = (\<lambda>_. 0), boot_gdt_address = 0, boot_idt_address = 0,
     boot_font = (\<lambda>_. 0), boot_characters = blank_lines, boot_framebuffer = small_screen, boot_rsdp = 0xffff80000000a000\<rparr>"

theorem kernel_init_devices_routes_keyboard_witness:
  "\<exists>s' sel regs. kernel_init_devices routed_inputs acpi_running = ret s' \<and>
     ioapic_after routed_ioapic routed_start (io_trace s') = (sel, regs) \<and> regs 0x12 AND 0xff = 0x30 \<and> \<not> bit (regs 0x12) 16"
proof -
  let ?d = routed_devices and ?s = acpi_running
  have d: "boot_devices routed_inputs = ?d" "boot_rsdp routed_inputs = 0xffff80000000a000" by (simp_all add: routed_inputs_def)
  have cpu: "hasMSR ?d" "hasLocalAPIC ?d" "hasPAT ?d" "controller_answers ?d"
    by (simp_all add: routed_devices_def example_devices_def hasMSR_def hasLocalAPIC_def hasPAT_def EDX_MSR_def EDX_APIC_def
        EDX_PAT_def controller_answers_def input_full_def output_empty_def)
  have off: "hhdm_ok (hhdm_offset ?s)" "unat (hhdm_offset ?s) mod 4096 = 0" by (simp_all add: hhdm_ok_def acpi_running_facts(3))
  have reads: "ioapic_reads ?d routed_ioapic routed_start" by (simp add: ioapic_reads_def routed_devices_def example_ioapic_def)
  have dev: "answers_version ?d (\<lambda>_. 0x170011) (hhdm_offset ?s) (table_addresses example_madt)"
    using ioapic_version [OF reads]
    by (simp add: answers_version_def example_madt_facts acpi_running_facts(3) example_ioapic_def routed_start_def)
  have beside: "beside_tables ?s 0xf000 (0xa200 + 44) (length (madt_bytes example_madt))"
    using acpi_running_facts(4) by (simp add: example_madt_facts)
  have "acpi_tables s' 0xffff80000000a000 0xa200 example_madt" if "memory_beside ?s s' 0xf000" for s'
  proof (rule acpi_page_tables)
    have b: "beside_tables ?s 0xf000 0xa000 4096"
      using acpi_running_facts(1,5) by (intro data_frame_beside [where f = "0xa000" and k = 0]) (simp_all add: paging_inv_def)
    have "mem s' a = mem ?s a" if a: "0xa000 \<le> a" "a < 0xb000" for a
    proof (rule ccontr)
      assume "mem s' a \<noteq> mem ?s a"
      then obtain n where n: "n \<in> tree_nodes ?s 0xf000 \<union> set (free_frames ?s)" "in_frame n a"
        using \<open>memory_beside ?s s' 0xf000\<close> unfolding memory_beside_def by blast
      then have "unat (0xa000 :: u64) + 4096 \<le> unat n \<or> unat n + 4096 \<le> unat (0xa000 :: u64)"
        using b unfolding beside_tables_def by blast
      then show False using n(2) a by (auto simp: in_frame_def word_le_nat_alt word_less_nat_alt)
    qed
    then show "has_acpi_page s'"
      using acpi_running_page \<open>memory_beside ?s s' 0xf000\<close> by (simp add: has_acpi_page_def memory_beside_def)
  qed
  then have tables: "\<forall>s'. memory_beside ?s s' 0xf000 \<longrightarrow> acpi_tables s' 0xffff80000000a000 0xa200 example_madt" by blast
  have ios: "table_ioapics (hhdm_offset ?s) (\<lambda>_. 0x170011) example_madt = [] @ routed_ioapic # []"
    by (simp add: acpi_running_facts(3) example_madt_facts)
  have h: "handlesIRQ routed_ioapic 1" "redirection_high routed_ioapic 1 \<noteq> 1" "redirection_low routed_ioapic 1 = 0x12"
    by (simp_all add: handlesIRQ_def redirection_high_def redirection_low_def example_ioapic_def)
  show ?thesis
    using kernel_init_devices_routes_keyboard [of ?s "0xf000" routed_inputs, unfolded d, OF acpi_running_facts(1) off cpu tables
      beside _ ios _ _ h(1,2) dev reads]
    by (simp add: acpi_running_facts(2) example_madt_facts h(3)) blast
qed

end
