(* ===== verification/Heap_Clients.thy ===== *)
theory Heap_Clients
  imports Free_List
begin

text \<open>
  Clients of the free-list allocator: they allocate, write into the memory they hold and free it, in any
  order. The invariant is that the free blocks and the blocks held never overlap and together are the memory
  the allocator was given.
\<close>

section \<open>Blocks that keep apart\<close>

lemma beside_shrink:
  assumes "beside a t (xs @ (b, u) # ys)" "24 \<le> u'" "u' \<le> u" shows "beside a t (xs @ (b, u') # ys)"
  using assms by (auto simp: beside_def)

lemma join_beside:
  assumes "beside v w bs" "0 < w" "24 \<le> t" "a + t \<le> v \<or> v + w \<le> a"
  shows "beside v w (join (a, t) bs)"
  using assms by (cases "((a, t), bs)" rule: join.cases) (auto simp: beside_def)

lemma release_beside:
  "beside v w bs \<Longrightarrow> 0 < w \<Longrightarrow> 24 \<le> t \<Longrightarrow> a + t \<le> v \<or> v + w \<le> a \<Longrightarrow> beside v w (release (a, t) bs)"
proof (induction bs)
  case Nil
  then show ?case by (auto simp: beside_def)
next
  case (Cons x bs)
  obtain b u where x: "x = (b, u)" by fastforce
  have bs: "beside v w bs" "24 \<le> u" "b + u \<le> v \<or> v + w \<le> b" using Cons.prems(1) by (auto simp: x beside_def)
  then have "beside v w (join (b, u) (release (a, t) bs))" using Cons by (intro join_beside) auto
  moreover have "beside v w (join (a, t) (x # bs))" using Cons.prems by (intro join_beside) auto
  ultimately show ?case by (simp add: x del: join.simps)
qed

lemma block_bytes_append [simp]: "block_bytes (xs @ ys) = block_bytes xs \<union> block_bytes ys"
  by (auto simp: block_bytes_def)

lemma carve_bytes:
  assumes "r \<le> t"
  shows "block_bytes (xs @ (a, t - r) # ys) \<union> {a + (t - r)..<a + t} = block_bytes (xs @ (a, t) # ys)"
  using assms by auto

section \<open>Steps of the clients\<close>

text \<open>A client holds pointers with the sizes it asked for. Exact fits, which lose the list, and requests of
  fewer than 8 bytes, whose blocks are too small to be freed, are left out.\<close>

type_synonym held = "(u64 \<times> u64) list"

inductive heap_step ::
  "u64 \<times> 'z machine_scheme \<times> held \<Rightarrow> u64 \<times> 'z machine_scheme \<times> held \<Rightarrow> bool" where
  client_allocates: "8 \<le> unat r \<Longrightarrow> unat r + 16 < 2 ^ 64 \<Longrightarrow> find_fit r s head = ret node \<Longrightarrow> \<not> perfect_fit r node s \<Longrightarrow>
    allocate_impl r (head, s) = ret (p, head', s') \<Longrightarrow> heap_step (head, s, H) (head', s', (p, r) # H)"
| client_writes: "(p, r) \<in> set H \<Longrightarrow> unat p \<le> unat q \<Longrightarrow> unat q + 8 \<le> unat p + unat r \<Longrightarrow>
    heap_step (head, s, H) (head, store64 q v s, H)"
| client_frees: "(p, r) \<in> set H \<Longrightarrow> deallocate_impl p (head, s) = ret (head', s') \<Longrightarrow>
    heap_step (head, s, H) (head', s', remove1 (p, r) H)"

inductive heap_reach ::
  "u64 \<times> 'z machine_scheme \<times> held \<Rightarrow> u64 \<times> 'z machine_scheme \<times> held \<Rightarrow> bool" for c0 where
  heap_start: "heap_reach c0 c0"
| heap_more: "heap_reach c0 c \<Longrightarrow> heap_step c c' \<Longrightarrow> heap_reach c0 c'"

text \<open>The block of a pointer, header included.\<close>

definition held_block :: "u64 \<times> u64 \<Rightarrow> nat \<times> nat" where
  "held_block = (\<lambda>(p, r). (unat (p - 16), unat r + 16))"

definition separate :: "nat \<times> nat \<Rightarrow> nat \<times> nat \<Rightarrow> bool" where
  "separate = (\<lambda>(a, t) (b, u). a + t \<le> b \<or> b + u \<le> a)"

definition holds_block :: "'z machine_scheme \<Rightarrow> u64 list \<Rightarrow> u64 \<times> u64 \<Rightarrow> bool" where
  "holds_block s as = (\<lambda>(p, r). used_block s as (p - 16) (unat r + 16) \<and> 16 \<le> p)"

definition heap_inv :: "nat set \<Rightarrow> u64 list \<Rightarrow> u64 \<times> 'z machine_scheme \<times> held \<Rightarrow> bool" where
  "heap_inv B as = (\<lambda>(head, s, H). free_list s head as \<and> (\<forall>h \<in> set H. holds_block s as h) \<and>
     sorted_wrt separate (map held_block H) \<and>
     block_bytes (blocks s as) \<union> block_bytes (map held_block H) = B)"

section \<open>What the steps keep\<close>

lemma separate_sym: "separate x y \<longleftrightarrow> separate y x"
  by (cases x; cases y) (auto simp: separate_def)

lemma separate_members:
  "sorted_wrt separate (map held_block H) \<Longrightarrow> g \<in> set H \<Longrightarrow> h \<in> set H \<Longrightarrow> g \<noteq> h \<Longrightarrow>
     separate (held_block g) (held_block h)"
  by (induction H) (auto simp: separate_sym)

lemma separate_distinct: "sorted_wrt separate (map held_block H) \<Longrightarrow> distinct H"
proof (induction H)
  case (Cons h H)
  have "\<not> separate (held_block h) (held_block h)" by (cases h) (simp add: separate_def held_block_def)
  then show ?case using Cons by auto
qed simp

lemma separate_remove:
  "sorted_wrt separate (map held_block H) \<Longrightarrow> sorted_wrt separate (map held_block (remove1 h H))"
  by (induction H) (auto dest: notin_set_remove1 [THEN contrapos_pp] simp: in_set_remove1)

lemma held_bytes_remove:
  assumes "h \<in> set H"
  shows "block_bytes (map held_block H) = block_bytes [held_block h] \<union> block_bytes (map held_block (remove1 h H))"
proof -
  have "set H = insert h (set (remove1 h H))" using assms by (induction H) auto
  then show ?thesis by (simp add: block_bytes_def)
qed

lemma clear_of_beside:
  assumes "beside a t bs" "a \<le> unat q" "unat q + 8 \<le> a + t" shows "clear_of bs q"
  using assms by (auto simp: beside_def clear_of_def list_all_iff)

lemma holds_blockD:
  assumes "holds_block s as (p, r)"
  shows "used_block s as (p - 16) (unat r + 16)" "block_size s (p - 16) = r"
    "beside (unat (p - 16)) (unat r + 16) (blocks s as)" "within (hhdm_offset s) (unat (p - 16)) (unat r + 16)"
    "8 \<le> unat r" "16 \<le> p" "unat p = unat (p - 16) + 16"
proof -
  show u: "used_block s as (p - 16) (unat r + 16)" and p: "16 \<le> p" using assms by (simp_all add: holds_block_def)
  have "unat r + 16 = unat (block_size s (p - 16)) + 16" using u unfolding used_block_def by blast
  then show "block_size s (p - 16) = r" by (simp add: word_unat_eq_iff)
  show "beside (unat (p - 16)) (unat r + 16) (blocks s as)" "within (hhdm_offset s) (unat (p - 16)) (unat r + 16)"
    using u unfolding used_block_def by blast+
  have "24 \<le> unat r + 16" using u unfolding used_block_def by blast
  then show "8 \<le> unat r" by simp
  show "unat p = unat (p - 16) + 16" using p unat_sub [OF p] by (simp add: word_le_nat_alt)
qed

text \<open>A block is held as long as its header is not written and no free block grows into it.\<close>

lemma holds_block_cong:
  assumes h: "holds_block s as (p, r)" and off: "hhdm_offset s' = hhdm_offset s"
    and b: "beside (unat (p - 16)) (unat r + 16) (blocks s' as')"
    and same: "\<And>q. unat (p - 16) \<le> unat q \<Longrightarrow> unat q + 8 \<le> unat (p - 16) + 16 \<Longrightarrow> load64 s' q = load64 s q"
  shows "holds_block s' as' (p, r)"
proof -
  note hD = holds_blockD [OF h]
  have "unat (p - 16 + 8) = unat (p - 16) + 8" using hD(4,5) unat_field [of "p - 16"] by (simp add: within_def)
  then have "used_magic s' (p - 16) = used_magic s (p - 16)" by (intro same) simp_all
  moreover have "block_size s' (p - 16) = block_size s (p - 16)" by (intro same) simp_all
  ultimately have "used_block s' as' (p - 16) (unat r + 16)"
    using hD(1) b off unfolding used_block_def by metis
  then show ?thesis using hD(6) by (simp add: holds_block_def)
qed

lemma allocate_step:
  fixes s :: "'z machine_scheme"
  assumes inv: "heap_inv B as (head, s, H)" and r: "8 \<le> unat r" "unat r + 16 < 2 ^ 64"
    and node: "find_fit r s head = ret node" "\<not> perfect_fit r node s"
    and al: "allocate_impl r (head, s) = ret (p, head', s')"
  shows "heap_inv B as (head', s', (p, r) # H)"
proof -
  have fl: "free_list s head as" using inv by (simp add: heap_inv_def)
  show ?thesis
  proof (cases rule: first_fitting [of s "unat r + 16" as])
    case 1
    then have "find_fit r s head = ret 0"
      using fl r by (intro find_fit_none) (auto simp: free_list_def list_all_iff can_fit_iff)
    then show ?thesis using al by (simp add: allocate_impl_def)
  next
    case (2 xs a ys)
    note as = 2(1)
    have "find_fit r s head = ret a"
      using fl 2 r by (intro find_fit_first [where xs = xs and ys = ys])
        (auto simp: free_list_def can_fit_iff list_all_iff)
    then have f: "unat r + 16 < unat (block_size s a)" using node 2(3) r(2) by (simp add: perfect_fit_iff)
    obtain x s1 where al': "allocate_impl r (head, s) = ret (x + 16, head, s1)"
      and x: "unat x = unat a + (unat (block_size s a) + 24 - (unat r + 16))" "unat (x + 16) = unat x + 16"
      and new: "block_size s1 x = r" "hhdm_offset s1 = hhdm_offset s" "free_list s1 head as" "used_block s1 as x (unat r + 16)"
      and bl: "blocks s1 as = blocks s xs @ (unat a, unat (block_size s a) + 24 - (unat r + 16)) # blocks s ys"
      and out: "\<And>q. within (hhdm_offset s) (unat q) 8 \<Longrightarrow> clear_of (blocks s as) q \<Longrightarrow> load64 s1 q = load64 s q"
      by (rule allocate_used [OF fl [unfolded as] f 2(2) r(1)]) (simp add: as)
    have eq: "p = x + 16" "head' = head" "s' = s1" using al al' by simp_all
    have keep: "holds_block s1 as h \<and> separate (held_block (p, r)) (held_block h)" if h_in: "h \<in> set H" for h
    proof -
      obtain q k where h: "h = (q, k)" by fastforce
      have hb: "holds_block s as (q, k)" using inv h_in by (simp add: heap_inv_def h)
      note hD = holds_blockD [OF hb]
      have "holds_block s1 as (q, k)"
      proof (rule holds_block_cong [OF hb new(2)])
        show "beside (unat (q - 16)) (unat k + 16) (blocks s1 as)"
          unfolding bl by (rule beside_shrink [of _ _ _ _ "unat (block_size s a) + 24"])
            (use hD(3) f in \<open>simp_all add: as\<close>)
        fix w :: u64 assume w: "unat (q - 16) \<le> unat w" "unat w + 8 \<le> unat (q - 16) + 16"
        then show "load64 s1 w = load64 s w"
          using hD(3-5) clear_of_beside [OF hD(3), of w] by (intro out) (auto simp: within_def)
      qed
      moreover have "separate (held_block (p, r)) (held_block (q, k))"
        using hD(3) x f by (auto simp: separate_def held_block_def eq as beside_def)
      ultimately show ?thesis by (simp add: h)
    qed
    have "holds_block s1 as (p, r)" using new x by (simp add: holds_block_def eq word_le_nat_alt)
    moreover have "block_bytes (blocks s1 as) \<union> block_bytes (map held_block ((p, r) # H)) = B"
    proof -
      have "unat x + (unat r + 16) = unat a + (unat (block_size s a) + 24)" using x f by simp
      then have "block_bytes (blocks s1 as) \<union> {unat x..<unat x + (unat r + 16)}
          = block_bytes (blocks s xs @ (unat a, unat (block_size s a) + 24) # blocks s ys)"
        unfolding bl using carve_bytes [of "unat r + 16" "unat (block_size s a) + 24"] f by (simp only: x(1))
      then have "block_bytes (blocks s1 as) \<union> {unat x..<unat x + (unat r + 16)} = block_bytes (blocks s as)"
        by (simp only: as blocks_simps)
      then show ?thesis using inv by (auto simp: heap_inv_def held_block_def eq)
    qed
    ultimately show ?thesis
      using inv keep new(3) by (simp add: heap_inv_def eq)
  qed
qed

lemma write_step:
  fixes s :: "'z machine_scheme"
  assumes inv: "heap_inv B as (head, s, H)" and p: "(p, r) \<in> set H" "unat p \<le> unat q" "unat q + 8 \<le> unat p + unat r"
  shows "heap_inv B as (head, store64 q v s, H)"
proof -
  have fl: "free_list s head as" and ok: "hhdm_ok (hhdm_offset s)" using inv by (auto simp: heap_inv_def free_list_def)
  have pb: "holds_block s as (p, r)" using inv p(1) by (simp add: heap_inv_def)
  note pD = holds_blockD [OF pb]
  have q: "unat (p - 16) + 16 \<le> unat q" "unat q + 8 \<le> unat (p - 16) + (unat r + 16)" using p(2,3) pD(7) by simp_all
  have far: "load64 (store64 q v s) w = load64 s w"
    if "within (hhdm_offset s) (unat w) 8" "unat w + 8 \<le> unat q \<or> unat q + 8 \<le> unat w" for w
    using that q by (intro load_store_apart [OF ok _ _ _ pD(4)]) auto
  have clear: "unat b + 24 \<le> unat q \<or> unat q + 8 \<le> unat b" if "b \<in> set as" for b
    using pD(3) that q by (fastforce simp: beside_def blocks_def list_all_iff)
  have fields: "block_size (store64 q v s) b = block_size s b" "block_next (store64 q v s) b = block_next s b"
    if b_in: "b \<in> set as" for b
    using free_list_header [OF fl b_in] clear [OF b_in] by (auto intro!: far simp: within_def)
  note keep = free_list_cong [OF fl machine_frame(1) fields]
  have "holds_block (store64 q v s) as h" if h_in: "h \<in> set H" for h
  proof -
    obtain w k where h: "h = (w, k)" by fastforce
    have hb: "holds_block s as (w, k)" using inv h_in by (simp add: heap_inv_def h)
    note hD = holds_blockD [OF hb]
    have apart: "h = (p, r) \<or> separate (held_block (w, k)) (held_block (p, r))"
      using separate_members [of H h "(p, r)"] inv h_in p(1) by (auto simp: heap_inv_def h)
    show ?thesis unfolding h
    proof (rule holds_block_cong [OF hb machine_frame(1)])
      show "beside (unat (w - 16)) (unat k + 16) (blocks (store64 q v s) as)" using hD(3) keep(2) by simp
      fix z :: u64 assume z: "unat (w - 16) \<le> unat z" "unat z + 8 \<le> unat (w - 16) + 16"
      then show "load64 (store64 q v s) z = load64 s z"
        using apart hD(4,5) q by (intro far) (auto simp: within_def separate_def held_block_def h)
    qed
  qed
  then show ?thesis using inv keep by (simp add: heap_inv_def)
qed

lemma free_step:
  fixes s :: "'z machine_scheme"
  assumes inv: "heap_inv B as (head, s, H)" and p: "(p, r) \<in> set H"
  shows "\<exists>head' s' as'. deallocate_impl p (head, s) = ret (head', s') \<and> heap_inv B as' (head', s', remove1 (p, r) H)"
proof -
  have fl: "free_list s head as" and sep: "sorted_wrt separate (map held_block H)"
    using inv by (simp_all add: heap_inv_def)
  have pb: "holds_block s as (p, r)" using inv p by (simp add: heap_inv_def)
  note pD = holds_blockD [OF pb]
  obtain head' s' as' where d: "deallocate_impl p (head, s) = ret (head', s')" "free_list s' head' as'"
    and bl: "blocks s' as' = release (unat (p - 16), unat r + 16) (blocks s as)"
    and w: "header_writes (insert (p - 16) (set as)) s s'"
    using deallocate_releases [OF fl, of p "unat r + 16"] pD(1) by (auto simp: sizeof_used_def)
  have off: "hhdm_offset s' = hhdm_offset s" using w by (simp add: header_writes_def)
  have "holds_block s' as' h" if h_in: "h \<in> set (remove1 (p, r) H)" for h
  proof -
    obtain z k where h: "h = (z, k)" by fastforce
    have hH: "h \<in> set H" "h \<noteq> (p, r)" using h_in separate_distinct [OF sep] by auto
    then have hb: "holds_block s as (z, k)" using inv by (simp add: heap_inv_def h)
    note hD = holds_blockD [OF hb]
    have ap: "unat (z - 16) + (unat k + 16) \<le> unat (p - 16) \<or> unat (p - 16) + (unat r + 16) \<le> unat (z - 16)"
      using separate_members [OF sep hH(1) p hH(2)] by (auto simp: separate_def held_block_def h)
    show ?thesis unfolding h
    proof (rule holds_block_cong [OF hb off])
      show "beside (unat (z - 16)) (unat k + 16) (blocks s' as')"
        unfolding bl using hD(3) pD(5) ap by (intro release_beside) auto
      fix q :: u64 assume q: "unat (z - 16) \<le> unat q" "unat q + 8 \<le> unat (z - 16) + 16"
      have "within (hhdm_offset s) (unat q) 8" using q hD(4,5) by (auto simp: within_def)
      moreover have "unat q + 8 \<le> unat a \<or> unat a + 24 \<le> unat q" if "a \<in> insert (p - 16) (set as)" for a
      proof (cases "a = p - 16")
        case True
        then show ?thesis using ap q pD(5) by auto
      next
        case False
        then have "(unat a, unat (block_size s a) + 24) \<in> set (blocks s as)" using that by (auto simp: blocks_def)
        then have "unat a + (unat (block_size s a) + 24) \<le> unat (z - 16) \<or> unat (z - 16) + (unat k + 16) \<le> unat a"
          using hD(3) by (auto simp: beside_def list_all_iff)
        then show ?thesis using q hD(5) by auto
      qed
      ultimately show "load64 s' q = load64 s q" using w by (simp add: header_writes_def)
    qed
  qed
  moreover have "block_bytes (blocks s' as') \<union> block_bytes (map held_block (remove1 (p, r) H)) = B"
    using inv held_bytes_remove [OF p] by (auto simp: heap_inv_def bl release_bytes held_block_def)
  ultimately show ?thesis using d separate_remove [OF sep] by (auto simp: heap_inv_def)
qed

lemma heap_step_inv:
  assumes "heap_step c c'" "\<exists>as. heap_inv B as c" shows "\<exists>as. heap_inv B as c'"
  using assms
proof (cases rule: heap_step.cases)
  case (client_frees p r H head s head' s')
  then show ?thesis using free_step [of B _ head s H p r] assms(2) by fastforce
qed (use assms(2) allocate_step write_step in blast)+

lemma heap_reach_inv:
  "heap_reach c0 c \<Longrightarrow> \<exists>as. heap_inv B as c0 \<Longrightarrow> \<exists>as. heap_inv B as c"
  by (induction rule: heap_reach.induct) (auto intro: heap_step_inv)

text \<open>C10. Blocks never overlap. From a well-formed list with nothing handed out, however clients allocate
  (at least 8 bytes, not so many that the size wraps with the header, no exact fit), write into the memory they hold and free it, the free blocks form a
  well-formed list, no held block meets a free one or another held one, and together they are exactly the
  memory of the start. A held block records the size asked for, and freeing it returns.\<close>

theorem heap_blocks_never_overlap:
  assumes "free_list s0 head0 as0" and "heap_reach (head0, s0, []) (head, s, H)"
  shows "\<exists>as. free_list s head as \<and>
    (\<forall>(p, r) \<in> set H. beside (unat (p - 16)) (unat r + 16) (blocks s as) \<and> get_size_impl p (head, s) = r \<and>
       (\<exists>head' s'. deallocate_impl p (head, s) = ret (head', s'))) \<and>
    sorted_wrt separate (map held_block H) \<and>
    block_bytes (blocks s as) \<union> block_bytes (map held_block H) = block_bytes (blocks s0 as0)"
proof -
  let ?B = "block_bytes (blocks s0 as0)"
  have "heap_inv ?B as0 (head0, s0, [])" using assms(1) by (simp add: heap_inv_def)
  then obtain as where inv: "heap_inv ?B as (head, s, H)" using heap_reach_inv [OF assms(2)] by blast
  have "beside (unat (p - 16)) (unat r + 16) (blocks s as) \<and> get_size_impl p (head, s) = r \<and>
      (\<exists>head' s'. deallocate_impl p (head, s) = ret (head', s'))" if "(p, r) \<in> set H" for p r
    using holds_blockD [of s as p r] free_step [OF inv that] inv that
    by (auto simp: heap_inv_def get_size_impl_def sizeof_used_def)
  then show ?thesis using inv by (auto simp: heap_inv_def)
qed

theorem heap_blocks_never_overlap_witness:
  "\<exists>p s. heap_reach (0x100001000, example_heap, []) (0x100001000, s, [(p, 200)]) \<and> get_size_impl p (0x100001000, s) = 200"
proof -
  have "find_fit 200 example_heap 0x100001000 = ret 0x100002000"
    by (subst find_fit.simps; subst find_fit.simps) (simp add: can_fit_def sizeof_used_def)
  moreover have "\<not> perfect_fit 200 0x100002000 example_heap" by (simp add: perfect_fit_def sizeof_used_def)
  moreover obtain p s where "allocate_impl 200 (0x100001000, example_heap) = ret (p, 0x100001000, s)"
    using calculation by (cases "reserve_end 200 0x100002000 example_heap") (simp add: allocate_impl_def)
  ultimately have "heap_step (0x100001000, example_heap, []) (0x100001000, s, [(p, 200)])"
    by (intro client_allocates) simp_all
  then have reach: "heap_reach (0x100001000, example_heap, []) (0x100001000, s, [(p, 200)])"
    by (rule heap_more [OF heap_start])
  from heap_blocks_never_overlap [OF example_heap_free_list reach] reach show ?thesis by auto
qed

section \<open>Nested use\<close>

text \<open>Memory that is freed in the reverse order of its allocation.\<close>

fun lifo_use :: "u64 list \<Rightarrow> u64 \<times> 'z machine_scheme \<Rightarrow> (u64 \<times> 'z machine_scheme) res" where
  "lifo_use [] c = ret c"
| "lifo_use (r # rs) c = res_bind (allocate_impl r c) (\<lambda>(p, c). res_bind (lifo_use rs c) (deallocate_impl p))"

definition same_outside :: "(nat \<times> nat) list \<Rightarrow> 'z machine_scheme \<Rightarrow> 'z machine_scheme \<Rightarrow> bool" where
  "same_outside bs s s' \<longleftrightarrow> hhdm_offset s' = hhdm_offset s \<and>
     (\<forall>q. within (hhdm_offset s) (unat q) 8 \<and> clear_of bs q \<longrightarrow> load64 s' q = load64 s q)"

lemma used_block_same_outside:
  assumes ub: "used_block s as u t" and same: "same_outside (blocks s as) s s'" and bl: "blocks s' as = blocks s as"
  shows "used_block s' as u t"
proof -
  have b: "beside (unat u) t (blocks s as)" "within (hhdm_offset s) (unat u) t" "24 \<le> t"
    using ub unfolding used_block_def by blast+
  have keep: "load64 s' q = load64 s q" if "unat u \<le> unat q" "unat q + 8 \<le> unat u + t" for q
    using same b that clear_of_beside [OF b(1) that] unfolding same_outside_def within_def by auto
  have "unat (u + 8) = unat u + 8" using b by (intro unat_add_no_wrap [THEN trans]) (auto simp: within_def)
  then have "block_size s' u = block_size s u" "used_magic s' u = used_magic s u"
    using b(3) by (auto intro!: keep)
  moreover have "hhdm_offset s' = hhdm_offset s" using same by (simp add: same_outside_def)
  ultimately show ?thesis using ub unfolding used_block_def bl by argo
qed

lemma lifo_use_restores:
  fixes s :: "'z machine_scheme"
  assumes "free_list s head [a]" "list_all (\<lambda>r. 8 \<le> unat r) rs"
    "sum_list (map (\<lambda>r. unat r + 16) rs) < unat (block_size s a)"
  shows "\<exists>s'. lifo_use rs (head, s) = ret (head, s') \<and> free_list s' head [a] \<and> blocks s' [a] = blocks s [a] \<and>
    same_outside (blocks s [a]) s s'"
  using assms
proof (induction rs arbitrary: s)
  case Nil
  then show ?case by (auto simp: same_outside_def)
next
  case (Cons r rs)
  let ?r = "unat r + 16" and ?t = "unat (block_size s a) + 24"
  have r: "8 \<le> unat r" "?r < unat (block_size s a)" using Cons.prems by auto
  obtain x s1 where al: "allocate_impl r (head, s) = ret (x + 16, head, s1)" and x: "unat x = unat a + (?t - ?r)"
    and fl1: "free_list s1 head [a]" and ub: "used_block s1 [a] x ?r" and bl1: "blocks s1 [a] = [(unat a, ?t - ?r)]"
    and out1: "same_outside (blocks s [a]) s s1"
  proof (rule allocate_used [of s head "[]" a "[]" r])
    show "free_list s head ([] @ [a])" using Cons.prems(1) by simp
  qed (use r in \<open>auto simp: same_outside_def\<close>)
  have "unat (block_size s1 a) = unat (block_size s a) - ?r" using bl1 r by simp
  then have room: "list_all (\<lambda>r. 8 \<le> unat r) rs" "sum_list (map (\<lambda>r. unat r + 16) rs) < unat (block_size s1 a)"
    using Cons.prems by auto
  obtain s2 where s2: "lifo_use rs (head, s1) = ret (head, s2)" "free_list s2 head [a]" "blocks s2 [a] = blocks s1 [a]"
    "same_outside (blocks s1 [a]) s1 s2"
    using Cons.IH [OF fl1 room] by blast
  have ub2: "used_block s2 [a] (x + 16 - sizeof_used) ?r"
    using used_block_same_outside [OF ub s2(4,3)] by (simp add: sizeof_used_def)
  obtain h3 s3 bs where d: "deallocate_impl (x + 16) (head, s2) = ret (h3, s3)" "free_list s3 h3 bs"
    "blocks s3 bs = release (unat x, ?r) (blocks s2 [a])" "header_writes (insert x {a}) s2 s3"
    using deallocate_releases [OF s2(2) ub2] by (auto simp: sizeof_used_def)
  have bl3: "blocks s3 bs = blocks s [a]"
    unfolding d(3) s2(3) bl1 x using release_carved [of "[]" "unat a" ?t "[]" ?r] r by simp
  then have bs: "bs = [a]" by (rule blocks_inject)
  have "h3 = head" "a = head"
    using next_path_hd [of s3 h3 bs] d(2) next_path_hd [of s2 head "[a]"] s2(2) by (simp_all add: free_list_def bs)
  have "load64 s3 q = load64 s q" if q: "within (hhdm_offset s) (unat q) 8" "clear_of (blocks s [a]) q" for q
  proof -
    have c: "clear_of (blocks s1 [a]) q" "unat q + 8 \<le> unat a \<or> unat a + ?t \<le> unat q"
      using q(2) unfolding bl1 by (auto simp: clear_of_def)
    have "unat q + 8 \<le> unat x \<or> unat x + 24 \<le> unat q" "unat q + 8 \<le> unat a \<or> unat a + 24 \<le> unat q"
      using c(2) r by (auto simp: x)
    then have "load64 s3 q = load64 s2 q"
      using d(4) q(1) out1 s2(4) unfolding header_writes_def same_outside_def by auto
    also have "\<dots> = load64 s1 q" using s2(4) q(1) c(1) out1 unfolding same_outside_def by auto
    also have "\<dots> = load64 s q" using out1 q unfolding same_outside_def by blast
    finally show ?thesis .
  qed
  then have "same_outside (blocks s [a]) s s3"
    using d(4) s2(4) out1 by (auto simp: same_outside_def header_writes_def)
  then show ?case using al s2(1) d(1,2) bl3 \<open>h3 = head\<close> by (auto simp: bs)
qed

end
