(* ===== verification/Kernel_Tests.thy ===== *)
theory Kernel_Tests
  imports Boot Mmu Heap_Clients
begin

text \<open>
  The tests that the kernel runs at every start (\<^verbatim>\<open>tests.cpp\<close>), and \<^verbatim>\<open>kernel_main\<close> up to its input loop. The
  paging test reads and writes through the page tables. Of the two tests that the suite leaves out, one executes a
  breakpoint instruction and one overruns its stack frame on purpose.

  A string literal that is printed with \<^verbatim>\<open>%s\<close> is an address in the kernel image: \<open>literal\<close> gives it. The
  interrupt flag of the processor is an argument.
\<close>

section \<open>The tests\<close>

record GlobalConstructorTest =
  m_test_value :: u64

definition GlobalConstructorTest_init :: GlobalConstructorTest where
  "GlobalConstructorTest_init = \<lparr>m_test_value = 0xdeadbeef\<rparr>"

definition was_constructed :: "GlobalConstructorTest \<Rightarrow> bool" where
  "was_constructed t \<longleftrightarrow> m_test_value t = 0xdeadbeef"

text \<open>The interrupt test, which the suite leaves out because it ends in a panic: \<^verbatim>\<open>int $3\<close> raises the breakpoint
  exception.\<close>

definition test_interrupt_handling :: "devices \<Rightarrow> interrupt_state \<Rightarrow> interrupt_state res" where
  "test_interrupt_handling d s =
     res_bind (shell_printf (ascii ''running interrupt handling test...\<newline>'') [] s) (run_isr d 0 isr_breakpoint)"

definition test_global_constructor :: "GlobalConstructorTest \<Rightarrow> interrupt_state \<Rightarrow> interrupt_state res" where
  "test_global_constructor global_constructor_test s =
     res_bind (shell_printf (ascii ''running global constructor test...\<newline>'') [] s) (\<lambda>s.
     if was_constructed global_constructor_test
     then shell_printf (ascii ''global constructor test: PASSED\<newline>'') [] s else ret s)"

definition test_paging :: "interrupt_state \<Rightarrow> interrupt_state res" where
  "test_paging s =
     res_bind (shell_printf (ascii ''running paging test...\<newline>'') [] s) (\<lambda>s.
     res_bind (allocate_frame s) (\<lambda>(new_frame, s).
     let write_vpage = 0x80002000; read_vpage = 0x80000000; test_value = 0xabcd1234
     in res_bind (paging_add_mapping write_vpage new_frame 0x1000 PageFlags_Write s) (\<lambda>s.
        res_bind (paging_add_mapping read_vpage new_frame 0x1000 PageFlags_Write s) (\<lambda>s.
        res_bind (vstore32 write_vpage test_value s) (\<lambda>s.
        res_bind (vload32 read_vpage s) (\<lambda>(v, s).
        if v = test_value
        then shell_printf (ascii ''paging test: PASSED\<newline>'') [] s
        else res_bind (shell_printf (ascii ''paging test: FAILED\<newline>'') [] s) (\<lambda>s.
             res_bind (vload32 read_vpage s) (\<lambda>(v, s).
             shell_printf (ascii ''read %d at %p, expected %d\<newline>'') [ucast v, new_frame, ucast test_value] s))))))))"

definition test_allocator :: "interrupt_state \<Rightarrow> interrupt_state res" where
  "test_allocator s =
     res_bind (shell_printf (ascii ''running allocator test...\<newline>'') [] s) (\<lambda>s.
     res_bind (paging_get_initial_free_regions s) (\<lambda>free_regions.
     let allocator = (0, s); free_region = free_regions ! 0; free_region_max_size = 0x1000
     in res_bind (Allocator_add_memory (region_base free_region)
          (kpp_max (region_size free_region) free_region_max_size) allocator) (\<lambda>allocator.
        res_bind (Allocator_allocate 0x20 allocator) (\<lambda>(p1, allocator).
        res_bind (Allocator_allocate 0x30 allocator) (\<lambda>(p2, allocator).
        res_bind (Allocator_allocate 0x50 allocator) (\<lambda>(p3, allocator).
        res_bind (Allocator_deallocate p3 0 allocator) (\<lambda>allocator.
        res_bind (Allocator_deallocate p2 0 allocator) (\<lambda>allocator.
        res_bind (Allocator_deallocate p1 0 allocator) (\<lambda>(head, s).
        shell_printf (ascii ''allocator test: PASSED\<newline>'') [] s)))))))))"

definition test_interprocessor_interrupts :: "devices \<Rightarrow> interrupt_state \<Rightarrow> interrupt_state res" where
  "test_interprocessor_interrupts d s =
     res_bind (shell_printf (ascii ''running interprocessor interrupt test...\<newline>'') [] s)
       (sendInterprocessorInterrupt d 0 0xff)"

text \<open>The output of the keyboard test about the controller's command byte, and about the local APIC.\<close>

definition print_command_byte :: "(string \<Rightarrow> u64) \<Rightarrow> u8 \<Rightarrow> interrupt_state \<Rightarrow> interrupt_state res" where
  "print_command_byte literal cmd s =
     (let irq1_enabled = cmd AND push_bit 0 1 \<noteq> 0;
          irq12_enabled = cmd AND push_bit 1 1 \<noteq> 0;
          kbd_clock_enabled = \<not> cmd AND push_bit 4 1 \<noteq> 0;
          translation_enabled = cmd AND push_bit 6 1 \<noteq> 0;
          state = (\<lambda>b. literal (if b then ''enabled'' else ''disabled''));
          verdict = (\<lambda>b. literal (if b then ''OK'' else ''EXPECTED ENABLED''))
      in res_bind (shell_printf (ascii ''Command Byte: 0x%x\<newline>'') [ucast cmd] s) (\<lambda>s.
         res_bind (shell_printf (ascii ''  IRQ1 (keyboard):       %s (%s)\<newline>'') [state irq1_enabled, verdict irq1_enabled] s) (\<lambda>s.
         res_bind (shell_printf (ascii ''  IRQ12 (mouse):         %s\<newline>'') [state irq12_enabled] s) (\<lambda>s.
         res_bind (shell_printf (ascii ''  Keyboard clock:        %s (%s)\<newline>'') [state kbd_clock_enabled, verdict kbd_clock_enabled] s) (\<lambda>s.
         res_bind (shell_printf (ascii ''  Scancode translation:  %s\<newline>'') [state translation_enabled] s) (\<lambda>s.
         if irq1_enabled \<and> kbd_clock_enabled
         then shell_printf (ascii ''keyboard controller test: PASSED\<newline>'') [] s
         else shell_printf (ascii ''keyboard controller test: FAILED\<newline>'') [] s))))))"

definition print_local_apic :: "devices \<Rightarrow> (string \<Rightarrow> u64) \<Rightarrow> bool \<Rightarrow> interrupt_state \<Rightarrow> interrupt_state res" where
  "print_local_apic d literal interrupt_flag s =
     (let (tpr, s) = lapic_read d 0x80 s
      in res_bind (shell_printf (ascii ''TPR: 0x%x (%s)\<newline>'') [ucast tpr, literal (if tpr = 0 then ''OK'' else ''EXPECTED 0'')] s) (\<lambda>s.
         res_bind (shell_printf (ascii ''IF enabled: %s (%s)\<newline>'')
           [literal (if interrupt_flag then ''yes'' else ''no''), literal (if interrupt_flag then ''OK'' else ''EXPECTED yes'')] s) (\<lambda>s.
         let (svr, s) = lapic_read d 0xF0 s; apic_enabled = svr AND push_bit 8 1 \<noteq> 0
         in res_bind (shell_printf (ascii ''SVR: 0x%x\<newline>'') [ucast svr] s) (\<lambda>s.
            shell_printf (ascii ''  APIC enabled bit: %s (%s)\<newline>'')
              [literal (if apic_enabled then ''yes'' else ''no''), literal (if apic_enabled then ''OK'' else ''EXPECTED yes'')] s))))"

definition test_keyboard :: "devices \<Rightarrow> (string \<Rightarrow> u64) \<Rightarrow> bool \<Rightarrow> interrupt_state \<Rightarrow> interrupt_state res" where
  "test_keyboard d literal interrupt_flag s =
     res_bind (shell_printf (ascii ''running keyboard controller test...\<newline>'') [] s) (\<lambda>s.
     let s = outb 0x64 0x20 s; s = ioWait s; (cmd, s) = inb d 0x60 s
     in res_bind (print_command_byte literal cmd s) (print_local_apic d literal interrupt_flag))"

record test_inputs =
  test_literal :: "string \<Rightarrow> u64"
  test_interrupt_flag :: bool
  test_object :: GlobalConstructorTest

definition run_all_tests :: "devices \<Rightarrow> test_inputs \<Rightarrow> interrupt_state \<Rightarrow> interrupt_state res" where
  "run_all_tests d I s =
     res_bind (shell_printf (ascii ''\<newline>=========================\<newline>'') [] s) (\<lambda>s.
     res_bind (shell_printf (ascii ''RUNNING TEST SUITE...\<newline>\<newline>'') [] s) (\<lambda>s.
     res_bind (test_global_constructor (test_object I) s) (\<lambda>s.
     res_bind (test_paging s) (\<lambda>s.
     res_bind (test_allocator s) (\<lambda>s.
     res_bind (test_interprocessor_interrupts d s) (\<lambda>s.
     res_bind (test_keyboard d (test_literal I) (test_interrupt_flag I) s) (\<lambda>s.
     res_bind (shell_printf (ascii ''\<newline>PASSED ALL TESTS\<newline>'') [] s)
       (shell_printf (ascii ''=========================\<newline>\<newline>'') []))))))))"

text \<open>The constructors of global objects, in the order of the linker's table, and the listing of the memory map,
  which nothing calls.\<close>

definition call_global_constructors :: "('g \<Rightarrow> 'g) list \<Rightarrow> 'g \<Rightarrow> 'g" where
  "call_global_constructors init_array g = fold (\<lambda>ctor g. ctor g) init_array g"

definition print_memory_map :: "(string \<Rightarrow> u64) \<Rightarrow> interrupt_state \<Rightarrow> interrupt_state res" where
  "print_memory_map literal s = res_fold (\<lambda>entry s.
     shell_printf (ascii ''base: %x, limit: %x, type: %s\<newline>'')
       [entry_base entry, entry_length entry, literal (limine_memmap_type (sint (ucast (entry_type entry) :: u32)))] s)
     (memory_map s) s"

text \<open>\<^verbatim>\<open>abort\<close> ends in an undefined instruction, \<^verbatim>\<open>__stack_chk_fail\<close> is called where the compiler finds a frame
  overwritten.\<close>

definition kpp_abort :: "devices \<Rightarrow> interrupt_state \<Rightarrow> interrupt_state res" where
  "kpp_abort d s = res_bind (shell_printf (ascii ''abort()\<newline>'') [] s) (\<lambda>s.
     res_bind (run_isr d 0 isr_invalid_opcode s) (\<lambda>s. kernel_hang ()))"

definition stack_chk_fail :: "unit \<Rightarrow> 'a res" where
  "stack_chk_fail u = kernel_panic ''stack smashed!\<newline>''"

text \<open>\<^verbatim>\<open>kernel_main\<close> before the loop that \<open>shell_step\<close> describes. The allocator of the virtual memory manager is
  the state's first part; the tests do not touch its head.\<close>

definition kernel_main_start :: "boot_inputs \<Rightarrow> test_inputs \<Rightarrow> u64 \<times> interrupt_state \<Rightarrow> (u64 \<times> interrupt_state) res" where
  "kernel_main_start B I c =
     res_bind (kernel_init B c) (\<lambda>(head, s).
     res_bind (run_all_tests (boot_devices B) I s) (\<lambda>s.
     res_bind (shell_printf (ascii ''Hello, world!\<newline>'') [] s) (\<lambda>s.
     res_bind (shell_printf (ascii ''\<newline>'') [] s) (\<lambda>s. ret (head, s)))))"

section \<open>Ends\<close>

text \<open>These ends do not return, whatever the terminal does.\<close>

lemma ends_do_not_return:
  "kpp_abort d s \<noteq> ret s'" "test_interrupt_handling d s \<noteq> ret s'"
  by (auto simp: kpp_abort_def test_interrupt_handling_def res_bind_eq_ret kernel_hang_not_ret exception_routines isr_panic_def)

section \<open>The paging test\<close>

lemma same_globals_terminal:
  assumes "same_globals s (s' :: interrupt_state)" shows "terminal s' = terminal s"
proof -
  have s': "s' = s\<lparr>mem := mem s', free_stack := free_stack s'\<rparr>" using assms by (simp add: same_globals_def)
  show ?thesis by (subst s') simp
qed

text \<open>A page mapped to a frame of data, in a state with enough memory.\<close>

lemma map_data_page:
  fixes s :: "'z paging_state_scheme"
  assumes inv: "paging_inv s r" and f: "data_frame s r f" and free: "3 \<le> length (free_frames s)"
    and page: "unat page mod 4096 = 0" "unat page + 8192 \<le> 2 ^ 64"
  shows "\<exists>s'. paging_add_mapping page f 0x1000 PageFlags_Write s = ret s' \<and> paging_inv s' r \<and> same_globals s s' \<and>
    data_frame s' r f \<and> set (free_frames s') \<subseteq> set (free_frames s) \<and> length (free_frames s) \<le> length (free_frames s') + 3 \<and>
    (\<forall>va. page_entry s' r va = (if same_page va page then flagged f PageFlags_Write else page_entry s r va)) \<and>
    (\<forall>va. same_page va page \<or> hw_usable s r va \<longrightarrow> hw_usable s' r va)"
proof -
  have "unat f mod 4096 = 0" using f by (simp add: data_frame_def node_frame_def)
  then have one: "paging_add_mapping page f 0x1000 PageFlags_Write s = map_page (page, f, PageFlags_Write) s"
    using paging_add_one_page [OF page] by (simp add: pageSize_def)
  have "card (missing_paths s r page) \<le> length (free_frames s)" using missing_paths_3 [of s r page] free by simp
  from map_page_ok [OF inv write_flag_ok this, of f]
  obtain s' where s': "map_page (page, f, PageFlags_Write) s = ret s'" "paging_inv s' r" "same_globals s s'"
    "free_frames s' = drop (card (missing_paths s r page)) (free_frames s)"
    "\<forall>va. page_entry s' r va = (if same_page va page then flagged f PageFlags_Write else page_entry s r va)"
    "tree_grows s s' r" "entries_after r page f PageFlags_Write s s'"
    by blast
  have sub: "set (free_frames s') \<subseteq> set (free_frames s)" unfolding s'(4) by (rule set_drop_subset)
  have "PageFlags_Write AND PageFlags_Write \<noteq> 0" by (simp add: PageFlags_Write_def)
  then have "\<forall>va. same_page va page \<or> hw_usable s r va \<longrightarrow> hw_usable s' r va" using hw_usable_after [OF s'(7)] by blast
  then show ?thesis
    using one s' sub data_frame_grows [OF f s'(6) sub] missing_paths_3 [of s r page] by (intro exI [of _ s']) auto
qed

text \<open>The paging test passes whenever the page tables are well formed, seven frames are free and the terminal
  has room: a frame that was free is mapped at both test addresses, the value written through one address is read
  through the other, and the test prints that it has passed. It leaves its traces: the frame is never given back,
  and the two addresses, which the identity map covered, translate to that frame from then on.\<close>

lemma paging_test_passes:
  assumes inv: "paging_inv s (ptbr s)" and free: "7 \<le> length (free_frames s)"
    and room: "room_for (ascii ''running paging test...\<newline>'' @ ascii ''paging test: PASSED\<newline>'') (screen s)"
  shows "\<exists>s' f. test_paging s = ret s' \<and>
    m_lineBuffer (screen s') = lb_write_all (ascii ''running paging test...\<newline>'' @ ascii ''paging test: PASSED\<newline>'') (m_lineBuffer (screen s)) \<and>
    f \<in> set (free_frames s) \<and> f \<notin> set (free_frames s') \<and> paging_inv s' (ptbr s') \<and> read_u32 (mem s') f = 0xabcd1234 \<and>
    (\<forall>va. paging_get_translation s' va =
      (if same_page va 0x80002000 \<or> same_page va 0x80000000
       then ret \<lparr>physical_address = f, translation_flags = PageFlags_Write OR PageFlags_Present\<rparr>
       else paging_get_translation s va))"
proof -
  let ?r = "ptbr s" and ?w = "0x80002000 :: u64" and ?d = "0x80000000 :: u64"
  let ?m1 = "ascii ''running paging test...\<newline>''" and ?m2 = "ascii ''paging test: PASSED\<newline>''"
  have plain: "plain_text ?m1" "plain_text ?m2" by (simp_all add: plain_text_def ascii_def)
  obtain t0 where t0: "shell_printf ?m1 [] s = ret (s\<lparr>terminal := (terminal s)\<lparr>buffer := t0\<rparr>\<rparr>)" "room_for (?m2 @ []) t0"
    "m_lineBuffer t0 = lb_write_all ?m1 (m_lineBuffer (screen s))"
    using shell_printf_plain [OF plain(1), of ?m2 s] room by auto
  define s0 where s0: "s0 = s\<lparr>terminal := (terminal s)\<lparr>buffer := t0\<rparr>\<rparr>"
  have m0: "mem s0 = mem s" "hhdm_offset s0 = hhdm_offset s" "free_stack s0 = free_stack s" "page_tree s0 = page_tree s"
    by (simp_all add: s0)
  note same0 = paging_same_mem [OF m0] tree_same_mem [OF m0(1)]
  obtain f fs where fs: "free_frames s0 = f # fs" using free by (cases "free_frames s0") (auto simp: same0)
  obtain s1 where s1: "allocate_frame s0 = ret (f, s1)" "paging_inv s1 ?r" "same_globals s0 s1" "free_frames s1 = fs"
    "\<forall>va. page_entry s1 ?r va = page_entry s0 ?r va" "data_frame s1 ?r f"
    using allocate_keeps_paging [OF _ fs, of ?r] inv by (auto simp: same0)
  have len: "6 \<le> length fs" using free fs by (simp add: same0)
  obtain s2 where s2: "paging_add_mapping ?w f 0x1000 PageFlags_Write s1 = ret s2" "paging_inv s2 ?r" "same_globals s1 s2"
    "data_frame s2 ?r f" "set (free_frames s2) \<subseteq> set fs" "length fs \<le> length (free_frames s2) + 3"
    "\<forall>va. page_entry s2 ?r va = (if same_page va ?w then flagged f PageFlags_Write else page_entry s1 ?r va)"
    "\<forall>va. same_page va ?w \<or> hw_usable s1 ?r va \<longrightarrow> hw_usable s2 ?r va"
    using map_data_page [OF s1(2,6), of ?w] s1(4) len by auto
  obtain s3 where s3: "paging_add_mapping ?d f 0x1000 PageFlags_Write s2 = ret s3" "paging_inv s3 ?r" "same_globals s2 s3"
    "data_frame s3 ?r f" "set (free_frames s3) \<subseteq> set (free_frames s2)"
    "\<forall>va. page_entry s3 ?r va = (if same_page va ?d then flagged f PageFlags_Write else page_entry s2 ?r va)"
    "\<forall>va. same_page va ?d \<or> hw_usable s2 ?r va \<longrightarrow> hw_usable s3 ?r va"
    using map_data_page [OF s2(2,4), of ?d] s2(6) len by auto
  have globals: "same_globals s0 s3" by (rule same_globals_trans [OF same_globals_trans [OF s1(3) s2(3)] s3(3)])
  have r3: "ptbr s3 = ?r" and t3: "terminal s3 = terminal s0"
    using same_globals_paging(2) [OF globals] same_globals_terminal [OF globals] by (simp_all add: s0)
  have e3: "page_entry s3 ?r va = (if same_page va ?w \<or> same_page va ?d then flagged f PageFlags_Write else page_entry s ?r va)" for va
    using s3(6) s2(7) s1(5) by (auto simp: same0)
  have f: "flagged f PageFlags_Write AND child_mask = f" "flagged f PageFlags_Write AND 0xff = PageFlags_Write OR PageFlags_Present"
    using s1(6) flagged_child [OF write_flag_ok, of f] flagged_flags [of f PageFlags_Write] node_frame_masked [of f]
    by (simp_all add: data_frame_def PageFlags_Write_def PageFlags_Present_def)
  have use: "hw_usable s3 (ptbr s3) ?w" "hw_usable s3 (ptbr s3) ?d" using s3(7) s2(8) by (simp_all add: r3)
  define s' where "s' = s3\<lparr>mem := write_u32 (f + ?w mod pageSize) 0xabcd1234 (mem s3)\<rparr>"
  note keeps = store_load_usable [OF s3(2) [folded r3] use(1) s3(4) [folded r3], of "0xabcd1234", folded s'_def]
  have page: "page_entry s3 (ptbr s3) ?w AND child_mask = f" "unat ?w mod 4096 + 4 \<le> 4096" by (simp_all add: e3 r3 f)
  note keeps = keeps [OF page]
  have r': "ptbr s' = ?r" "terminal s' = terminal s0" by (simp_all add: s'_def r3 t3)
  have cells: "hw_cell s' ?d = f" "f + ?w mod pageSize = f"
    using keeps(4) by (simp_all add: hw_cell_def r' r3 e3 f pageSize_def)
  have load: "vload32 ?d s' = ret (0xabcd1234, s')"
    using load_usable [of s' ?d] keeps(5) use(2) cells by (simp add: r' r3) (simp add: s'_def)
  obtain t2 where t2: "shell_printf ?m2 [] s' = ret (s'\<lparr>terminal := (terminal s')\<lparr>buffer := t2\<rparr>\<rparr>)"
    "m_lineBuffer t2 = lb_write_all ?m2 (m_lineBuffer (screen s'))"
    using shell_printf_plain [OF plain(2), of "[]" s'] t0(2) by (auto simp: r' s0)
  define s'' where s'': "s'' = s'\<lparr>terminal := (terminal s')\<lparr>buffer := t2\<rparr>\<rparr>"
  have m: "mem s'' = mem s'" "hhdm_offset s'' = hhdm_offset s'" "free_stack s'' = free_stack s'" "page_tree s'' = page_tree s'"
    "ptbr s'' = ptbr s'"
    by (simp_all add: s'')
  note same = paging_same_mem [OF m(1-4)] tree_same_mem [OF m(1)]
  have inv'': "paging_inv s'' (ptbr s'')" using keeps(2) by (simp add: same m(5) r' r3)
  have "test_paging s = ret s''"
    using t0(1) s1(1) s2(1) s3(1) keeps(1) load t2(1) by (simp add: test_paging_def s0 s'')
  moreover have "m_lineBuffer (screen s'') = lb_write_all (?m1 @ ?m2) (m_lineBuffer (screen s))"
    using t2(2) t0(3) by (simp add: s'' r' s0 lb_write_all_def)
  moreover have "read_u32 (mem s'') f = 0xabcd1234" using cells(2) by (simp add: m(1)) (simp add: s'_def)
  moreover have "f \<in> set (free_frames s)" using fs by (simp add: same0)
  moreover have "f \<notin> set (free_frames s'')" using s3(4) by (simp add: same keeps(3) data_frame_def)
  moreover have "paging_get_translation s'' va =
      (if same_page va ?w \<or> same_page va ?d
       then ret \<lparr>physical_address = f, translation_flags = PageFlags_Write OR PageFlags_Present\<rparr>
       else paging_get_translation s va)" for va
    using paging_get_translation_entry [OF inv'', of va] paging_get_translation_entry [OF inv, of va] keeps(4)
    by (simp add: same m(5) r' e3 r3 f)
  ultimately show ?thesis using inv'' by (intro exI [of _ s''] exI [of _ f]) simp
qed

lemma paging_test_passes_example:
  "\<exists>s'. test_paging example_running = ret s' \<and> paging_get_translation s' 0x80000000 = paging_get_translation s' 0x80002000"
proof -
  have "screen example_running = Terminal_init blank_lines small_screen (terminalFont (\<lambda>_. 0))"
    by (simp add: example_running_def example_interrupts_def apic_state.defs Optional_init_def)
  then have "room_for (ascii ''running paging test...\<newline>'' @ ascii ''paging test: PASSED\<newline>'') (screen example_running)"
    by (simp only:) (rule Terminal_init_room, simp_all add: small_screen_def line_break_def ascii_def)
  then show ?thesis using paging_test_passes [of example_running] by (auto simp: example_running_facts)
qed

section \<open>The allocator test\<close>

text \<open>The test on its own region: the allocations are given back in reverse order.\<close>

lemma test_allocator_lifo:
  "test_allocator s =
     res_bind (shell_printf (ascii ''running allocator test...\<newline>'') [] s) (\<lambda>s.
     res_bind (paging_get_initial_free_regions s) (\<lambda>free_regions.
     res_bind (add_memory_impl (region_base (free_regions ! 0)) (kpp_max (region_size (free_regions ! 0)) 0x1000) (0, s)) (\<lambda>allocator.
     res_bind (lifo_use [0x20, 0x30, 0x50] allocator) (\<lambda>(head, s).
     shell_printf (ascii ''allocator test: PASSED\<newline>'') [] s))))"
  by (simp add: test_allocator_def res_bind_assoc case_prod_unfold Let_def)

lemma lifo_on_region:
  fixes s :: "'z machine_scheme"
  assumes ok: "hhdm_ok (hhdm_offset s)" and r: "regions_ok (hhdm_offset s) (r # rs)" "0x1000 \<le> unat (region_size r)"
  shows "\<exists>s'. res_bind (add_memory_impl (region_base r) (region_size r) (0, s)) (lifo_use [0x20, 0x30, 0x50]) = ret (region_base r, s') \<and>
    free_list s' (region_base r) [region_base r] \<and> blocks s' [region_base r] = [region_block r]"
proof -
  let ?a = "region_base r" and ?z = "region_size r"
  have fl0: "free_list s 0 []" using ok by (simp add: free_list_def blocks_ok_def)
  have b: "?a \<noteq> 0" "8 \<le> unat ?z" "within (hhdm_offset s) (unat ?a) (unat ?z + 16)"
    "beside (unat ?a) (unat ?z + 16) (blocks s [])"
    using r(1) by (auto simp: regions_ok_def blocks_ok_def region_block_def beside_def)
  obtain h s1 as where s1: "add_memory_impl ?a ?z (0, s) = ret (h, s1)" "free_list s1 h as" "blocks s1 as = [(unat ?a, unat ?z + 16)]"
    using add_memory_releases [OF fl0 b] by auto
  obtain a where as: "as = [a]" using s1(3) by (cases as) (auto simp: blocks_def)
  then have "a = ?a" using s1(3) by (simp add: word_unat_eq_iff)
  then have a: "a = ?a" "unat (block_size s1 ?a) + 24 = unat ?z + 16" using s1(3) as by simp_all
  have h: "h = ?a" using next_path_hd [of s1 h as] s1(2) by (simp add: free_list_def as a)
  have fl1: "free_list s1 ?a [?a]" using s1(2) by (simp add: as a h)
  have "sum_list (map (\<lambda>r. unat r + 16) [0x20, 0x30, 0x50 :: u64]) < unat (block_size s1 ?a)" using a(2) r(2) by simp
  then obtain s2 where "lifo_use [0x20, 0x30, 0x50] (?a, s1) = ret (?a, s2)" "free_list s2 ?a [?a]" "blocks s2 [?a] = blocks s1 [?a]"
    using lifo_use_restores [OF fl1, of "[0x20, 0x30, 0x50]"] by auto
  then show ?thesis using s1(1,3) by (simp add: h as a region_block_def del: lifo_use.simps)
qed

lemma free_list_same_mem:
  fixes s :: "'z machine_scheme" and s' :: "'y machine_scheme"
  assumes "mem s' = mem s" "hhdm_offset s' = hhdm_offset s"
  shows "free_list s' h as = free_list s h as" "blocks s' as = blocks s as"
proof -
  have l: "load64 s' p = load64 s p" for p using assms by (simp add: load64_def)
  have "next_path s' g bs z = next_path s g bs z" for g bs z by (induction bs arbitrary: g) (simp_all add: l)
  moreover show "blocks s' as = blocks s as" by (simp add: blocks_def l)
  ultimately show "free_list s' h as = free_list s h as" using assms by (simp add: free_list_def)
qed

text \<open>The allocator changes the memory and nothing else of the state.\<close>

lemma more_headers [simp]:
  "machine.more (new_used p v s) = machine.more s" "machine.more (new_free p v n q s) = machine.more s"
  "machine.more (unlink p s) = machine.more s" "machine.more (coalesce_next p s) = machine.more s"
  "machine.more (coalesce_prev p s) = machine.more s" "machine.more (snd (reserve_end r p s)) = machine.more s"
  "machine.more (snd (reserve_entire r p s)) = machine.more s"
  by (simp_all add: new_used_def new_free_def unlink_def coalesce_next_def coalesce_prev_def reserve_end_def
      reserve_entire_def Let_def case_prod_unfold)

lemma more_allocate: "allocate_impl r c = ret (p, c') \<Longrightarrow> machine.more (snd c') = machine.more (snd c)"
  by (cases c) (auto simp: allocate_impl_def res_bind_eq_ret Let_def case_prod_unfold split: if_splits)

lemma more_deallocate: "deallocate_impl p c = ret c' \<Longrightarrow> machine.more (snd c') = machine.more (snd c)"
  by (cases c) (auto simp: deallocate_impl_def res_bind_eq_ret Let_def case_prod_unfold split: if_splits)

lemma more_add_memory: "add_memory_impl p z c = ret c' \<Longrightarrow> machine.more (snd c') = machine.more (snd c)"
  by (cases c) (auto simp: add_memory_impl_def Let_def dest: more_deallocate)

lemma more_lifo_use: "lifo_use rs c = ret c' \<Longrightarrow> machine.more (snd c') = machine.more (snd c)"
proof (induction rs arbitrary: c c')
  case (Cons r rs)
  then show ?case by (auto simp: res_bind_eq_ret case_prod_unfold) (metis more_allocate more_deallocate prod.collapse)
qed simp

text \<open>C29. The allocator test takes the kernel's own memory. It returns and reports that it has passed, and gives
  its allocator's single block back whole; but that block is the first region of the virtual memory manager, to
  which \<^verbatim>\<open>vmm_init\<close> has given the blocks of all regions before: afterwards the manager's list ends with its first
  block, and every other region is lost to it.\<close>

theorem allocator_test_cuts_vmm_list:
  fixes s s1 :: interrupt_state
  assumes regions: "paging_get_initial_free_regions s = ret (r # regions)" "paging_get_initial_free_regions s1 = ret (r # regions)"
    and nonempty: "0x1000 \<le> unat (region_size r)"
    and ok: "hhdm_ok (hhdm_offset s)" "regions_ok (hhdm_offset s) (r # filter (\<lambda>r. region_size r \<noteq> 0) regions)" "hhdm_offset s1 = hhdm_offset s"
    and room: "room_for (ascii ''running allocator test...\<newline>'' @ ascii ''allocator test: PASSED\<newline>'') (screen s1)"
  shows "\<exists>head s0 as s'. vmm_init (0, s) = ret (head, s0) \<and> free_list s0 head as \<and>
    blocks s0 as = map region_block (r # filter (\<lambda>r. region_size r \<noteq> 0) regions) \<and>
    test_allocator s1 = ret s' \<and> free_list s' head [head] \<and> blocks s' [head] = [region_block r] \<and>
    m_lineBuffer (screen s') = lb_write_all (ascii ''running allocator test...\<newline>'' @ ascii ''allocator test: PASSED\<newline>'') (m_lineBuffer (screen s1))"
proof -
  let ?m1 = "ascii ''running allocator test...\<newline>''" and ?m2 = "ascii ''allocator test: PASSED\<newline>''"
  let ?a = "region_base r" and ?rs = "filter (\<lambda>r. region_size r \<noteq> 0) regions"
  have nz: "filter (\<lambda>r. region_size r \<noteq> 0) (r # regions) = r # ?rs" using nonempty by auto
  obtain s0 ys where init: "vmm_init (0, s) = ret (?a, s0)" "free_list s0 ?a (?a # ys)" "blocks s0 (?a # ys) = map region_block (r # ?rs)"
    by (rule vmm_init_blocks [OF regions(1) nz ok(1,2)])
  have plain: "plain_text ?m1" "plain_text ?m2" by (simp_all add: plain_text_def ascii_def)
  obtain t1 where t1: "shell_printf ?m1 [] s1 = ret (s1\<lparr>terminal := (terminal s1)\<lparr>buffer := t1\<rparr>\<rparr>)" "room_for (?m2 @ []) t1"
    "m_lineBuffer t1 = lb_write_all ?m1 (m_lineBuffer (screen s1))"
    using shell_printf_plain [OF plain(1), of ?m2 s1] room by auto
  define s2 where "s2 = s1\<lparr>terminal := (terminal s1)\<lparr>buffer := t1\<rparr>\<rparr>"
  have off: "hhdm_offset s2 = hhdm_offset s" using ok(3) by (simp add: s2_def)
  have reg2: "paging_get_initial_free_regions s2 = ret (r # regions)"
    using regions(2) by (simp add: s2_def paging_get_initial_free_regions_def unavailable_virtual_memory_ranges_def initial_mappings_def)
  obtain s3 where s3: "res_bind (add_memory_impl ?a (region_size r) (0, s2)) (lifo_use [0x20, 0x30, 0x50]) = ret (?a, s3)"
    "free_list s3 ?a [?a]" "blocks s3 [?a] = [region_block r]"
    using lifo_on_region [of s2 r ?rs] ok(1,2) nonempty off by auto
  obtain c where c: "add_memory_impl ?a (region_size r) (0, s2) = ret c" "lifo_use [0x20, 0x30, 0x50] c = ret (?a, s3)"
    using s3(1) unfolding res_bind_eq_ret by blast
  have "machine.more s3 = machine.more s2" using more_add_memory [OF c(1)] more_lifo_use [OF c(2)] by simp
  then have "terminal s3 = terminal s2" by (cases s3, cases s2) simp
  then have tm: "terminal s3 = (terminal s1)\<lparr>buffer := t1\<rparr>" by (simp add: s2_def)
  obtain t3 where t3: "shell_printf ?m2 [] s3 = ret (s3\<lparr>terminal := (terminal s3)\<lparr>buffer := t3\<rparr>\<rparr>)"
    "m_lineBuffer t3 = lb_write_all ?m2 (m_lineBuffer (screen s3))"
    using shell_printf_plain [OF plain(2), of "[]" s3] t1(2) by (auto simp: tm)
  define s' where "s' = s3\<lparr>terminal := (terminal s3)\<lparr>buffer := t3\<rparr>\<rparr>"
  have m: "mem s' = mem s3" "hhdm_offset s' = hhdm_offset s3" by (simp_all add: s'_def)
  have "kpp_max (region_size r) 0x1000 = region_size r"
    using nonempty by (simp add: kpp_max_def word_less_nat_alt)
  then have "test_allocator s1 = ret s'"
    using t1(1) reg2 s3(1) t3(1)
    by (simp add: test_allocator_lifo res_bind_assoc [symmetric] s2_def s'_def del: lifo_use.simps)
  moreover have "free_list s' ?a [?a]" "blocks s' [?a] = [region_block r]"
    using s3(2,3) unfolding free_list_same_mem [OF m] by blast+
  moreover have "m_lineBuffer (screen s') = lb_write_all (?m1 @ ?m2) (m_lineBuffer (screen s1))"
    using t3(2) t1(3) by (simp add: s'_def tm lb_write_all_def)
  ultimately show ?thesis
    using init by (intro exI [of _ ?a] exI [of _ s0] exI [of _ "?a # ys"] exI [of _ s']) simp
qed

text \<open>On the example machine, where the manager had two regions.\<close>

theorem allocator_test_cuts_vmm_list_witness:
  "\<exists>head s0 as s'. vmm_init (0, example_running) = ret (head, s0) \<and> free_list s0 head as \<and> length as = 2 \<and>
     test_allocator example_running = ret s' \<and> free_list s' head [head]"
proof -
  let ?r1 = "\<lparr>region_base = 0x100001000, region_size = 0x7ffefffff000\<rparr>"
  let ?r2 = "\<lparr>region_base = 0xffff800100000000, region_size = 0x7ffe80000000\<rparr>"
  let ?rs = "?r2 # replicate 14 \<lparr>region_base = 0, region_size = 0\<rparr>"
  note defs = example_running_def example_interrupts_def apic_state.defs example_acpi_def io_state.defs example_io_def
    paging_state.defs example_kernel_def
  have off: "hhdm_offset example_running = 0xffff800000000000"
    by (simp add: example_running_def example_space_facts(3)) (simp add: example_kernel_def)
  have "initial_mappings example_running = initial_mappings example_kernel"
    using off by (simp add: initial_mappings_def) (simp add: defs)
  then have regions: "paging_get_initial_free_regions example_running = ret (?r1 # ?rs)"
    using example_free_regions by (simp add: paging_get_initial_free_regions_def unavailable_virtual_memory_ranges_def)
  have nz: "filter (\<lambda>r. region_size r \<noteq> 0) ?rs = [?r2]" by (simp add: filter_replicate)
  have ok: "hhdm_ok (hhdm_offset example_running)" "regions_ok (hhdm_offset example_running) (?r1 # filter (\<lambda>r. region_size r \<noteq> 0) ?rs)"
    unfolding nz off by (simp_all add: regions_ok_def blocks_ok_def region_block_def within_def)
  have "screen example_running = Terminal_init blank_lines small_screen (terminalFont (\<lambda>_. 0))"
    by (simp add: example_running_def example_interrupts_def apic_state.defs Optional_init_def)
  then have room: "room_for (ascii ''running allocator test...\<newline>'' @ ascii ''allocator test: PASSED\<newline>'') (screen example_running)"
    by (simp only:) (rule Terminal_init_room, simp_all add: small_screen_def line_break_def ascii_def)
  have "length as = 2" if "blocks s0 as = map region_block [?r1, ?r2]" for s0 :: interrupt_state and as
    using arg_cong [OF that, of length] by (simp add: blocks_def)
  then show ?thesis
    using allocator_test_cuts_vmm_list [OF regions regions _ ok refl room] unfolding nz by force
qed

end
