(* ===== verification/Kpp_Unique.thy ===== *)
theory Kpp_Unique
  imports Kernel_Prelude
begin

text \<open>
  \<^verbatim>\<open>kpp::UniquePtr\<close> (\<^verbatim>\<open>UniquePtr.hpp\<close>), a pointer that owns an object and destroys it. Objects live in a
  store that maps addresses to values; a destructor call takes the object out of the store and is recorded. Where \<^verbatim>\<open>operator new\<close>, which is not
  part of the sources, is called, the address it returns is an argument.
\<close>

section \<open>UniquePtr\<close>

record UniquePtr =
  m_resource :: u64

record 'a object_store =
  objects :: "u64 \<rightharpoonup> 'a"
  destructor_calls :: "u64 list"

definition UniquePtr_default :: UniquePtr where
  "UniquePtr_default = \<lparr>m_resource = 0\<rparr>"

definition UniquePtr_init :: "u64 \<Rightarrow> UniquePtr" where
  "UniquePtr_init resource = \<lparr>m_resource = resource\<rparr>"

definition UniquePtr_bool :: "UniquePtr \<Rightarrow> bool" where
  "UniquePtr_bool p \<longleftrightarrow> m_resource p \<noteq> 0"

definition UniquePtr_release :: "UniquePtr \<Rightarrow> u64 \<times> UniquePtr" where
  "UniquePtr_release p = (let ptr = m_resource p; p = p\<lparr>m_resource := 0\<rparr> in (ptr, p))"

text \<open>\<^verbatim>\<open>m_resource->~Resource()\<close>: the destructor runs, the memory is not given back.\<close>

definition destroy_object :: "u64 \<Rightarrow> 'a object_store \<Rightarrow> 'a object_store" where
  "destroy_object r w = w\<lparr>objects := (objects w)(r := None), destructor_calls := destructor_calls w @ [r]\<rparr>"

definition UniquePtr_destroy :: "UniquePtr \<Rightarrow> 'a object_store \<Rightarrow> 'a object_store" where
  "UniquePtr_destroy p w = (if m_resource p \<noteq> 0 then destroy_object (m_resource p) w else w)"

text \<open>The moves work on variables, because the source is changed and may be the target.\<close>

definition UniquePtr_move :: "'v \<Rightarrow> 'v \<Rightarrow> ('v \<rightharpoonup> UniquePtr) \<Rightarrow> ('v \<rightharpoonup> UniquePtr)" where
  "UniquePtr_move this source vars =
     (let (r, source') = UniquePtr_release (the (vars source));
          vars = vars(source \<mapsto> source')
      in vars(this \<mapsto> UniquePtr_init r))"

definition UniquePtr_move_assign ::
  "'v \<Rightarrow> 'v \<Rightarrow> ('v \<rightharpoonup> UniquePtr) \<times> 'a object_store \<Rightarrow> ('v \<rightharpoonup> UniquePtr) \<times> 'a object_store" where
  "UniquePtr_move_assign this source = (\<lambda>(vars, w).
     let w = (if m_resource (the (vars this)) \<noteq> 0 then destroy_object (m_resource (the (vars this))) w else w);
         (r, source') = UniquePtr_release (the (vars source));
         vars = vars(source \<mapsto> source')
     in (vars(this \<mapsto> (the (vars this))\<lparr>m_resource := r\<rparr>), w))"

text \<open>Access is not checked: through a pointer that owns nothing there is no object.\<close>

definition UniquePtr_arrow :: "UniquePtr \<Rightarrow> u64" where
  "UniquePtr_arrow p = m_resource p"

definition UniquePtr_deref :: "UniquePtr \<Rightarrow> 'a object_store \<Rightarrow> 'a option" where
  "UniquePtr_deref p w = (if m_resource p = 0 then None else objects w (m_resource p))"

text \<open>\<^verbatim>\<open>makeUnique\<close>, where \<open>ptr\<close> is the address that \<^verbatim>\<open>new\<close> returned.\<close>

definition makeUnique :: "u64 \<Rightarrow> 'a \<Rightarrow> 'a object_store \<Rightarrow> UniquePtr \<times> 'a object_store" where
  "makeUnique ptr value w = (UniquePtr_init ptr, w\<lparr>objects := (objects w)(ptr \<mapsto> value)\<rparr>)"

section \<open>Programs with owning pointers\<close>

text \<open>A program declares variables, moves between them, releases the object of one and ends their
  lifetimes. The lists record the addresses that \<^verbatim>\<open>new\<close> returned and the pointers that were released; \<^verbatim>\<open>new\<close>
  returns an address that is not null and not that of another object of the program. A variable that
  owns an object is not assigned to itself: there the code destroys the object twice, as the last lemma shows.\<close>

record ('v, 'a) owner_state =
  owner_vars :: "'v \<rightharpoonup> UniquePtr"
  owner_store :: "'a object_store"
  owner_new :: "u64 list"
  owner_released :: "u64 list"

inductive owner_step :: "('v, 'a) owner_state \<Rightarrow> ('v, 'a) owner_state \<Rightarrow> bool" where
  declares: "owner_vars c x = None \<Longrightarrow> owner_step c (c\<lparr>owner_vars := (owner_vars c)(x \<mapsto> UniquePtr_default)\<rparr>)"
| makes: "owner_vars c x = None \<Longrightarrow> r \<noteq> 0 \<Longrightarrow> r \<notin> set (owner_new c) \<Longrightarrow> makeUnique r value (owner_store c) = (p, w) \<Longrightarrow>
    owner_step c (c\<lparr>owner_vars := (owner_vars c)(x \<mapsto> p), owner_store := w, owner_new := r # owner_new c\<rparr>)"
| moves: "owner_vars c x = None \<Longrightarrow> owner_vars c y = Some p \<Longrightarrow>
    owner_step c (c\<lparr>owner_vars := UniquePtr_move x y (owner_vars c)\<rparr>)"
| assigns: "owner_vars c x = Some p \<Longrightarrow> owner_vars c y = Some q \<Longrightarrow> x \<noteq> y \<or> m_resource p = 0 \<Longrightarrow>
    UniquePtr_move_assign x y (owner_vars c, owner_store c) = (vars, w) \<Longrightarrow>
    owner_step c (c\<lparr>owner_vars := vars, owner_store := w\<rparr>)"
| releases: "owner_vars c x = Some p \<Longrightarrow> UniquePtr_release p = (r, p') \<Longrightarrow>
    owner_step c (c\<lparr>owner_vars := (owner_vars c)(x \<mapsto> p'), owner_released := (if r = 0 then [] else [r]) @ owner_released c\<rparr>)"
| ends: "owner_vars c x = Some p \<Longrightarrow>
    owner_step c (c\<lparr>owner_vars := (owner_vars c)(x := None), owner_store := UniquePtr_destroy p (owner_store c)\<rparr>)"

text \<open>The object that a variable owns, 0 when there is none.\<close>

definition owns :: "('v, 'a) owner_state \<Rightarrow> 'v \<Rightarrow> u64" where
  "owns c x = (case owner_vars c x of None \<Rightarrow> 0 | Some p \<Rightarrow> m_resource p)"

abbreviation owned_by :: "('v \<Rightarrow> u64) \<Rightarrow> u64 set" where
  "owned_by f \<equiv> range f - {0}"

abbreviation destroyed :: "('v, 'a) owner_state \<Rightarrow> u64 list" where
  "destroyed c \<equiv> destructor_calls (owner_store c)"

definition sole :: "('v \<Rightarrow> u64) \<Rightarrow> bool" where
  "sole f \<longleftrightarrow> (\<forall>x y. f x = f y \<and> f x \<noteq> 0 \<longrightarrow> x = y)"

lemma sole_upd: "sole f \<Longrightarrow> r = 0 \<or> r \<notin> range f \<Longrightarrow> sole (f(x := r))"
  by (auto simp: sole_def image_iff)

lemma owned_by_new: "f x = 0 \<Longrightarrow> r \<noteq> 0 \<Longrightarrow> owned_by (f(x := r)) = insert r (owned_by f)"
  by (auto simp: image_iff)

lemma owned_by_drop: "sole f \<Longrightarrow> owned_by (f(x := 0)) = owned_by f - {f x}"
  by (auto simp: image_iff sole_def split: if_splits)

lemma sole_move:
  assumes "sole f" "x \<noteq> y"
  shows "sole (f(y := 0, x := f y))" "owned_by (f(y := 0, x := f y)) = owned_by (f(x := 0))"
proof -
  have "f y = 0 \<or> f y \<notin> range (f(y := 0))" using assms by (auto simp: sole_def image_iff)
  then show "sole (f(y := 0, x := f y))" using assms by (intro sole_upd) auto
  show "owned_by (f(y := 0, x := f y)) = owned_by (f(x := 0))"
    using assms(2) by (auto simp: image_iff split: if_splits)
qed

text \<open>Each object that \<^verbatim>\<open>new\<close> made is in one of three places: with its only owner, destroyed, or released.\<close>

definition ownership :: "('v \<Rightarrow> u64) \<Rightarrow> u64 list \<Rightarrow> u64 list \<Rightarrow> u64 list \<Rightarrow> bool" where
  "ownership f new des rel \<longleftrightarrow> sole f \<and> 0 \<notin> set new \<and> owned_by f \<union> set des \<union> set rel = set new \<and>
     owned_by f \<inter> set des = {} \<and> owned_by f \<inter> set rel = {} \<and> set des \<inter> set rel = {} \<and> distinct des"

definition owner_inv :: "('v, 'a) owner_state \<Rightarrow> bool" where
  "owner_inv c \<longleftrightarrow> ownership (owns c) (owner_new c) (destroyed c) (owner_released c) \<and>
     dom (objects (owner_store c)) = set (owner_new c) - set (destroyed c)"

lemma ownership_new:
  assumes "ownership f new des rel" "f x = 0" "r \<noteq> 0" "r \<notin> set new"
  shows "ownership (f(x := r)) (r # new) des rel"
proof -
  have "r \<notin> range f" using assms by (auto simp: ownership_def)
  then show ?thesis
    using assms sole_upd [of f r x] owned_by_new [of f x r] by (auto simp: ownership_def)
qed

lemma ownership_drop:
  assumes "ownership f new des rel"
  shows "ownership (f(x := 0)) new (if f x \<noteq> 0 then des @ [f x] else des) rel"
    "ownership (f(x := 0)) new des ((if f x = 0 then [] else [f x]) @ rel)"
proof -
  define A where "A = owned_by f"
  have s: "sole f" "sole (f(x := 0))" using assms sole_upd [of f 0 x] by (auto simp: ownership_def)
  have o: "owned_by (f(x := 0)) = A - {f x}" using owned_by_drop [OF s(1)] by (simp add: A_def)
  have fx: "f x = 0 \<or> f x \<in> A" by (auto simp: A_def)
  have a: "0 \<notin> set new" "A \<union> set des \<union> set rel = set new" "A \<inter> set des = {}" "A \<inter> set rel = {}"
    "set des \<inter> set rel = {}" "distinct des"
    using assms by (simp_all add: ownership_def A_def)
  show "ownership (f(x := 0)) new (if f x \<noteq> 0 then des @ [f x] else des) rel"
    "ownership (f(x := 0)) new des ((if f x = 0 then [] else [f x]) @ rel)"
    unfolding ownership_def o using s(2) a fx by (cases "f x = 0"; auto)+
qed

lemma ownership_move:
  assumes "ownership (f(x := 0)) new des rel" "sole f" "x \<noteq> y"
  shows "ownership (f(y := 0, x := f y)) new des rel"
  using assms sole_move [OF assms(2,3)] by (simp add: ownership_def)

lemma owns_upd [simp]:
  "owns (c\<lparr>owner_store := w\<rparr>) = owns c" "owns (c\<lparr>owner_new := n\<rparr>) = owns c" "owns (c\<lparr>owner_released := n\<rparr>) = owns c"
  "owns (c\<lparr>owner_vars := (owner_vars c)(x := v)\<rparr>) = (owns c)(x := (case v of None \<Rightarrow> 0 | Some p \<Rightarrow> m_resource p))"
  "owns (c\<lparr>owner_vars := (owner_vars c)(x := v, y := u)\<rparr>)
     = (owns c)(x := (case v of None \<Rightarrow> 0 | Some p \<Rightarrow> m_resource p), y := (case u of None \<Rightarrow> 0 | Some p \<Rightarrow> m_resource p))"
  by (auto simp: owns_def)

lemma dom_destroy: "dom (objects (destroy_object r w)) = dom (objects w) - {r}"
  and calls_destroy [simp]: "destructor_calls (destroy_object r w) = destructor_calls w @ [r]"
  by (auto simp: destroy_object_def)

lemma UniquePtr_destroy_calls:
  "destructor_calls (UniquePtr_destroy p w)
     = (if m_resource p \<noteq> 0 then destructor_calls w @ [m_resource p] else destructor_calls w)"
  by (simp add: UniquePtr_destroy_def)

lemma UniquePtr_destroy_dom:
  assumes "dom (objects w) = A - set (destructor_calls w)"
  shows "dom (objects (UniquePtr_destroy p w)) = A - set (destructor_calls (UniquePtr_destroy p w))"
  using assms by (auto simp: UniquePtr_destroy_def dom_destroy)

lemma owner_step_inv:
  assumes "owner_step c c'" "owner_inv c" shows "owner_inv c'"
proof -
  have own: "ownership (owns c) (owner_new c) (destroyed c) (owner_released c)" and sole: "sole (owns c)"
    and live: "dom (objects (owner_store c)) = set (owner_new c) - set (destroyed c)"
    using assms(2) by (auto simp: owner_inv_def ownership_def)
  from assms(1) show ?thesis
  proof (cases rule: owner_step.cases)
    case (declares x)
    then have "owns c x = 0" by (simp add: owns_def)
    then have "owns c' = owns c" using declares by (auto simp: UniquePtr_default_def)
    then show ?thesis using assms(2) declares by (simp add: owner_inv_def)
  next
    case (makes x r v p w)
    have "ownership ((owns c)(x := r)) (r # owner_new c) (destroyed c) (owner_released c)"
      using makes by (intro ownership_new [OF own]) (simp_all add: owns_def)
    moreover have "r \<notin> set (destroyed c)" using own makes by (auto simp: ownership_def)
    moreover have "p = \<lparr>m_resource = r\<rparr>" "w = (owner_store c)\<lparr>objects := (objects (owner_store c))(r \<mapsto> v)\<rparr>"
      using makes by (simp_all add: makeUnique_def UniquePtr_init_def)
    ultimately show ?thesis using makes(1) live by (simp add: owner_inv_def insert_Diff_if)
  next
    case (moves x y p)
    then have "x \<noteq> y" "(owns c)(x := 0) = owns c" by (auto simp: owns_def)
    then have "ownership ((owns c)(y := 0, x := owns c y)) (owner_new c) (destroyed c) (owner_released c)"
      using own sole by (intro ownership_move) simp_all
    then show ?thesis
      using moves live by (simp add: owner_inv_def UniquePtr_move_def UniquePtr_release_def UniquePtr_init_def Let_def owns_def)
  next
    case (assigns x p y q vars w)
    show ?thesis
    proof (cases "x \<noteq> y")
      case True
      have c': "c' = c\<lparr>owner_vars := (owner_vars c)(y \<mapsto> q\<lparr>m_resource := 0\<rparr>, x \<mapsto> p\<lparr>m_resource := m_resource q\<rparr>),
          owner_store := UniquePtr_destroy p (owner_store c)\<rparr>"
        using assigns True by (auto simp: UniquePtr_move_assign_def UniquePtr_release_def UniquePtr_destroy_def Let_def)
      have own_xy: "owns c x = m_resource p" "owns c y = m_resource q" using assigns by (simp_all add: owns_def)
      have "owns c' = (owns c)(y := 0, x := owns c y)" by (simp add: c' own_xy)
      moreover have "destroyed c' = (if owns c x \<noteq> 0 then destroyed c @ [owns c x] else destroyed c)"
        by (simp add: c' own_xy UniquePtr_destroy_calls)
      moreover have "owner_new c' = owner_new c" "owner_released c' = owner_released c" by (simp_all add: c')
      moreover have "dom (objects (owner_store c')) = set (owner_new c) - set (destroyed c')"
        using UniquePtr_destroy_dom [OF live] by (simp add: c')
      ultimately show ?thesis
        using ownership_move [OF ownership_drop(1) [OF own, of x] sole True] by (simp only: owner_inv_def)
    next
      case False
      then have "q = p" "m_resource p = 0" using assigns by auto
      then have "owns c' = owns c" "owner_store c' = owner_store c" "owner_new c' = owner_new c"
        "owner_released c' = owner_released c"
        using assigns False by (auto simp: UniquePtr_move_assign_def UniquePtr_release_def Let_def owns_def)
      then show ?thesis using assms(2) by (simp add: owner_inv_def)
    qed
  next
    case (releases x p r p')
    then have r: "r = owns c x" and p': "m_resource p' = 0"
      by (auto simp: UniquePtr_release_def Let_def owns_def)
    have "owns c' = (owns c)(x := 0)" using releases(1) p' by simp
    moreover have "owner_released c' = (if owns c x = 0 then [] else [owns c x]) @ owner_released c"
      using releases(1) r by simp
    moreover have "owner_new c' = owner_new c" "owner_store c' = owner_store c" using releases(1) by simp_all
    ultimately show ?thesis using ownership_drop(2) [OF own, of x] live by (simp only: owner_inv_def)
  next
    case (ends x p)
    then have "owns c x = m_resource p" by (simp add: owns_def)
    moreover have "owns c' = (owns c)(x := 0)" using ends by simp
    moreover have "destroyed c' = (if m_resource p \<noteq> 0 then destroyed c @ [m_resource p] else destroyed c)"
      using ends by (simp add: UniquePtr_destroy_calls)
    moreover have "owner_new c' = owner_new c" "owner_released c' = owner_released c" using ends by simp_all
    moreover have "dom (objects (owner_store c')) = set (owner_new c) - set (destroyed c')"
      using UniquePtr_destroy_dom [OF live] ends by simp
    ultimately show ?thesis using ownership_drop(1) [OF own, of x] by (simp only: owner_inv_def)
  qed
qed

inductive owner_reach :: "('v, 'a) owner_state \<Rightarrow> ('v, 'a) owner_state \<Rightarrow> bool" for c0 where
  owner_start: "owner_reach c0 c0"
| owner_more: "owner_reach c0 c \<Longrightarrow> owner_step c c' \<Longrightarrow> owner_reach c0 c'"

definition no_owners :: "('v, 'a) owner_state" where
  "no_owners = \<lparr>owner_vars = Map.empty, owner_store = \<lparr>objects = Map.empty, destructor_calls = []\<rparr>,
     owner_new = [], owner_released = []\<rparr>"

lemma owner_reach_inv: "owner_reach c0 c \<Longrightarrow> owner_inv c0 \<Longrightarrow> owner_inv c"
  by (induction rule: owner_reach.induct) (auto intro: owner_step_inv)

lemma no_owners_inv: "owner_inv no_owners"
  by (simp add: owner_inv_def ownership_def sole_def owns_def [abs_def] no_owners_def)

text \<open>C37. A program with owning pointers that does not assign a variable that owns an object to itself
  destroys each object at most once and none that is still owned, where \<^verbatim>\<open>new\<close> returns addresses
  that are not null and not used before. In every state it reaches, no two variables own the same object, the destructor calls are distinct, the objects in
  the store are those not destroyed, and what was made is owned, destroyed or released, and only one of these;
  when no variable is left, every object that was not released has been destroyed.\<close>

theorem unique_ptr_destroys_each_once:
  assumes "owner_reach no_owners c"
  shows "distinct (destroyed c) \<and>
    (\<forall>x y. owns c x = owns c y \<and> owns c x \<noteq> 0 \<longrightarrow> x = y) \<and>
    dom (objects (owner_store c)) = set (owner_new c) - set (destroyed c) \<and>
    owned_by (owns c) \<inter> set (destroyed c) = {} \<and> set (destroyed c) \<inter> set (owner_released c) = {} \<and>
    (owner_vars c = Map.empty \<longrightarrow> set (owner_new c) = set (destroyed c) \<union> set (owner_released c))"
proof -
  have inv: "ownership (owns c) (owner_new c) (destroyed c) (owner_released c)"
    "dom (objects (owner_store c)) = set (owner_new c) - set (destroyed c)"
    using owner_reach_inv [OF assms no_owners_inv] by (simp_all add: owner_inv_def)
  have "set (owner_new c) = set (destroyed c) \<union> set (owner_released c)" if "owner_vars c = Map.empty"
  proof -
    have "owned_by (owns c) = {}" using that by (auto simp: owns_def)
    then show ?thesis using inv(1) unfolding ownership_def by (metis Un_empty_left)
  qed
  then show ?thesis using inv unfolding ownership_def sole_def by blast
qed

text \<open>A program that makes two objects, moves the first over the second and ends both variables.\<close>

lemma owner_example:
  "\<exists>c :: (bool, nat) owner_state. owner_reach no_owners c \<and> owner_vars c = Map.empty \<and> owner_new c = [32, 16] \<and>
     destroyed c = [32, 16] \<and> owner_released c = []"
proof -
  note ops = makeUnique_def UniquePtr_init_def UniquePtr_move_assign_def UniquePtr_release_def UniquePtr_destroy_def
    destroy_object_def
  define c0 :: "(bool, nat) owner_state" where "c0 = no_owners"
  define c1 where "c1 = c0\<lparr>owner_vars := [True \<mapsto> UniquePtr_init 16],
    owner_store := \<lparr>objects = [16 \<mapsto> 1], destructor_calls = []\<rparr>, owner_new := [16]\<rparr>"
  define c2 where "c2 = c1\<lparr>owner_vars := [True \<mapsto> UniquePtr_init 16, False \<mapsto> UniquePtr_init 32],
    owner_store := \<lparr>objects = [16 \<mapsto> 1, 32 \<mapsto> 2], destructor_calls = []\<rparr>, owner_new := [32, 16]\<rparr>"
  define c3 where "c3 = c2\<lparr>owner_vars := [True \<mapsto> UniquePtr_init 0, False \<mapsto> UniquePtr_init 16],
    owner_store := \<lparr>objects = (objects (owner_store c2))(32 := None), destructor_calls = [32]\<rparr>\<rparr>"
  define c4 where "c4 = c3\<lparr>owner_vars := (owner_vars c3)(False := None), owner_store := UniquePtr_destroy (UniquePtr_init 16) (owner_store c3)\<rparr>"
  define c5 where "c5 = c4\<lparr>owner_vars := (owner_vars c4)(True := None), owner_store := UniquePtr_destroy (UniquePtr_init 0) (owner_store c4)\<rparr>"
  have "owner_step c0 c1"
    using makes [of c0 True 16 1] by (simp add: c1_def c0_def no_owners_def ops)
  moreover have "owner_step c1 c2"
    using makes [of c1 False 32 2] by (simp add: c2_def c1_def c0_def no_owners_def ops fun_upd_twist)
  moreover have "owner_step c2 c3"
    using assigns [of c2 False "UniquePtr_init 32" True "UniquePtr_init 16"]
    by (simp add: c3_def c2_def c1_def c0_def no_owners_def ops fun_upd_twist)
  moreover have "owner_step c3 c4" using ends [of c3 False "UniquePtr_init 16"] by (simp add: c4_def c3_def)
  moreover have "owner_step c4 c5" using ends [of c4 True "UniquePtr_init 0"] by (simp add: c5_def c4_def c3_def)
  ultimately have "owner_reach c0 c5" by (meson owner_start owner_more)
  then show ?thesis
    by (intro exI [of _ c5])
      (auto simp: c5_def c4_def c3_def c2_def c1_def c0_def no_owners_def ops)
qed

theorem unique_ptr_destroys_each_once_witness:
  "\<exists>c :: (bool, nat) owner_state. owner_reach no_owners c \<and> distinct (destroyed c) \<and> set (destroyed c) = {16, 32} \<and>
     dom (objects (owner_store c)) = {}"
proof -
  obtain c :: "(bool, nat) owner_state" where c: "owner_reach no_owners c" "owner_vars c = Map.empty"
    "owner_new c = [32, 16]" "owner_released c = []"
    using owner_example by blast
  show ?thesis using unique_ptr_destroys_each_once [OF c(1)] c by (intro exI [of _ c]) auto
qed

text \<open>Assigning a variable that owns an object to itself, which the programs above do not do, destroys its object and keeps the
  pointer: the object is destroyed again when the variable ends.\<close>

lemma self_move_destroys_twice:
  assumes "vars x = Some p" "m_resource p \<noteq> 0" and "UniquePtr_move_assign x x (vars, w) = (vars', w')"
  shows "destructor_calls (UniquePtr_destroy (the (vars' x)) w') = destructor_calls w @ [m_resource p, m_resource p]"
  using assms by (auto simp: UniquePtr_move_assign_def UniquePtr_release_def UniquePtr_destroy_def)

end
