(* ===== verification/Kpp_Function.thy ===== *)
theory Kpp_Function
  imports Kpp_Unique
begin

text \<open>
  \<^verbatim>\<open>kpp::Function\<close> (\<^verbatim>\<open>functional.hpp\<close>): a value that can be called, behind an owning pointer. What \<^verbatim>\<open>operator()\<close> of the
  stored object does is a parameter, a function from the object and the argument to the result and the object
  afterwards. The constructor deduces \<^verbatim>\<open>CallableType\<close> from a forwarding reference: a temporary is stored by value, but
  for a named object the type is a reference, so the \<^verbatim>\<open>CallableImpl\<close> holds a reference to the client's object and a
  clone of it holds the same reference.
\<close>

section \<open>Function\<close>

datatype 's CallableImpl = holds_value 's | holds_reference u64

record Function =
  m_callable :: UniquePtr

text \<open>The memory of a program with functions: the objects made by \<^verbatim>\<open>new\<close>, and the client's named objects.\<close>

record 's function_memory =
  callables :: "'s CallableImpl object_store"
  functors :: "u64 \<rightharpoonup> 's"

definition CallableImpl_call ::
  "('s \<Rightarrow> 'a \<Rightarrow> 'r \<times> 's) \<Rightarrow> u64 \<Rightarrow> 'a \<Rightarrow> 's function_memory \<Rightarrow> ('r \<times> 's function_memory) option" where
  "CallableImpl_call invoke this args m =
     (case objects (callables m) this of
        None \<Rightarrow> None
      | Some (holds_value s) \<Rightarrow>
          (let (r, s') = invoke s args
           in Some (r, m\<lparr>callables := (callables m)\<lparr>objects := (objects (callables m))(this \<mapsto> holds_value s')\<rparr>\<rparr>))
      | Some (holds_reference q) \<Rightarrow>
          (case functors m q of
             None \<Rightarrow> None
           | Some s \<Rightarrow> (let (r, s') = invoke s args in Some (r, m\<lparr>functors := (functors m)(q \<mapsto> s')\<rparr>))))"

text \<open>\<^verbatim>\<open>clone\<close> makes a new object from the stored one, at the address \<open>ptr\<close> that \<^verbatim>\<open>new\<close> returned.\<close>

definition CallableImpl_clone ::
  "u64 \<Rightarrow> u64 \<Rightarrow> 's function_memory \<Rightarrow> (UniquePtr \<times> 's function_memory) option" where
  "CallableImpl_clone this ptr m =
     (case objects (callables m) this of
        None \<Rightarrow> None
      | Some c \<Rightarrow> (let (p, w) = makeUnique ptr c (callables m) in Some (p, m\<lparr>callables := w\<rparr>)))"

definition Function_default :: Function where
  "Function_default = \<lparr>m_callable = UniquePtr_default\<rparr>"

definition Function_null :: Function where
  "Function_null = \<lparr>m_callable = UniquePtr_init 0\<rparr>"

definition Function_init :: "u64 \<Rightarrow> 's CallableImpl \<Rightarrow> 's function_memory \<Rightarrow> Function \<times> 's function_memory" where
  "Function_init ptr callable m =
     (let (p, w) = makeUnique ptr callable (callables m) in (\<lparr>m_callable = p\<rparr>, m\<lparr>callables := w\<rparr>))"

definition Function_copy :: "Function \<Rightarrow> u64 \<Rightarrow> 's function_memory \<Rightarrow> (Function \<times> 's function_memory) option" where
  "Function_copy source ptr m =
     (if UniquePtr_bool (m_callable source)
      then (case CallableImpl_clone (m_resource (m_callable source)) ptr m of
              None \<Rightarrow> None
            | Some (p, m') \<Rightarrow> Some (\<lparr>m_callable = p\<rparr>, m'))
      else Some (\<lparr>m_callable = UniquePtr_init 0\<rparr>, m))"

text \<open>The defaulted move constructor moves the member; the argument is left without a callable.\<close>

definition Function_move :: "Function \<Rightarrow> Function \<times> Function" where
  "Function_move source = (let (r, p) = UniquePtr_release (m_callable source)
     in (\<lparr>m_callable = UniquePtr_init r\<rparr>, source\<lparr>m_callable := p\<rparr>))"

text \<open>The defaulted move assignment, to another function: the callable it had is destroyed.\<close>

definition Function_move_assign ::
  "Function \<Rightarrow> Function \<Rightarrow> 's function_memory \<Rightarrow> Function \<times> Function \<times> 's function_memory" where
  "Function_move_assign this source m =
     (let p = m_callable this;
          w = (if m_resource p \<noteq> 0 then destroy_object (m_resource p) (callables m) else callables m);
          (r, q) = UniquePtr_release (m_callable source)
      in (this\<lparr>m_callable := p\<lparr>m_resource := r\<rparr>\<rparr>, source\<lparr>m_callable := q\<rparr>, m\<lparr>callables := w\<rparr>))"

text \<open>The call does not test the pointer: calling an empty function has no result.\<close>

definition Function_call ::
  "('s \<Rightarrow> 'a \<Rightarrow> 'r \<times> 's) \<Rightarrow> Function \<Rightarrow> 'a \<Rightarrow> 's function_memory \<Rightarrow> ('r \<times> 's function_memory) option" where
  "Function_call invoke f args m =
     (if UniquePtr_bool (m_callable f) then CallableImpl_call invoke (m_resource (m_callable f)) args m else None)"

definition Function_destroy :: "Function \<Rightarrow> 's function_memory \<Rightarrow> 's function_memory" where
  "Function_destroy f m = m\<lparr>callables := UniquePtr_destroy (m_callable f) (callables m)\<rparr>"

section \<open>A function and its copy\<close>

text \<open>Calls on two functions in some order: each pair says which function is called and with what.\<close>

fun run_calls ::
  "('s \<Rightarrow> 'a \<Rightarrow> 'r \<times> 's) \<Rightarrow> Function \<Rightarrow> Function \<Rightarrow> (bool \<times> 'a) list \<Rightarrow> 's function_memory \<Rightarrow> (bool \<times> 'r) list option" where
  "run_calls invoke f g [] m = Some []"
| "run_calls invoke f g ((b, a) # cs) m =
     (case Function_call invoke (if b then f else g) a m of
        None \<Rightarrow> None
      | Some (r, m') \<Rightarrow> map_option (\<lambda>rs. (b, r) # rs) (run_calls invoke f g cs m'))"

text \<open>The results of an object that is called on its own.\<close>

fun run_object :: "('s \<Rightarrow> 'a \<Rightarrow> 'r \<times> 's) \<Rightarrow> 'a list \<Rightarrow> 's \<Rightarrow> 'r list" where
  "run_object invoke [] s = []"
| "run_object invoke (a # as) s = fst (invoke s a) # run_object invoke as (snd (invoke s a))"

abbreviation calls_on :: "bool \<Rightarrow> (bool \<times> 'a) list \<Rightarrow> 'a list" where
  "calls_on b cs \<equiv> map snd (filter (\<lambda>c. fst c = b) cs)"

abbreviation callable_of :: "Function \<Rightarrow> 's function_memory \<Rightarrow> 's CallableImpl option" where
  "callable_of f m \<equiv> objects (callables m) (m_resource (m_callable f))"

lemma Function_call_value:
  assumes "callable_of f m = Some (holds_value s)" "m_resource (m_callable f) \<noteq> 0"
  shows "Function_call invoke f a m = Some (fst (invoke s a), m\<lparr>callables := (callables m)\<lparr>objects :=
    (objects (callables m))(m_resource (m_callable f) \<mapsto> holds_value (snd (invoke s a)))\<rparr>\<rparr>)"
  using assms by (simp add: Function_call_def UniquePtr_bool_def CallableImpl_call_def case_prod_beta)

lemma Function_call_reference:
  assumes "callable_of f m = Some (holds_reference q)" "functors m q = Some s" "m_resource (m_callable f) \<noteq> 0"
  shows "Function_call invoke f a m = Some (fst (invoke s a), m\<lparr>functors := (functors m)(q \<mapsto> snd (invoke s a))\<rparr>)"
  using assms by (simp add: Function_call_def UniquePtr_bool_def CallableImpl_call_def case_prod_beta)

lemma run_calls_values:
  assumes "callable_of f m = Some (holds_value s)" "callable_of g m = Some (holds_value t)"
    "m_resource (m_callable f) \<noteq> 0" "m_resource (m_callable g) \<noteq> 0" "m_resource (m_callable f) \<noteq> m_resource (m_callable g)"
  shows "\<exists>rs. run_calls invoke f g cs m = Some rs \<and> map fst rs = map fst cs \<and>
    calls_on True rs = run_object invoke (calls_on True cs) s \<and> calls_on False rs = run_object invoke (calls_on False cs) t"
  using assms(1,2)
proof (induction cs arbitrary: m s t)
  case (Cons c cs)
  obtain b a where c: "c = (b, a)" by (cases c)
  define h where "h = (if b then f else g)"
  define s' t' where "s' = (if b then snd (invoke s a) else s)" and "t' = (if b then t else snd (invoke t a))"
  define m' where "m' = m\<lparr>callables := (callables m)\<lparr>objects := (objects (callables m))
      (m_resource (m_callable h) \<mapsto> holds_value (if b then s' else t'))\<rparr>\<rparr>"
  have call: "Function_call invoke h a m = Some (if b then fst (invoke s a) else fst (invoke t a), m')"
    using Function_call_value [of m h "if b then s else t" invoke a] Cons.prems assms(3,4)
    by (simp add: h_def m'_def s'_def t'_def split: if_splits)
  have "callable_of f m' = Some (holds_value s')" "callable_of g m' = Some (holds_value t')"
    using Cons.prems assms(5) by (auto simp: m'_def h_def s'_def t'_def)
  from Cons.IH [OF this] show ?case
    using call by (auto simp: c h_def s'_def t'_def split: if_splits)
qed simp

lemma run_calls_references:
  assumes "callable_of f m = Some (holds_reference q)" "callable_of g m = Some (holds_reference q)"
    "functors m q = Some s" "m_resource (m_callable f) \<noteq> 0" "m_resource (m_callable g) \<noteq> 0"
  shows "\<exists>rs. run_calls invoke f g cs m = Some rs \<and> map fst rs = map fst cs \<and>
    map snd rs = run_object invoke (map snd cs) s"
  using assms(1-3)
proof (induction cs arbitrary: m s)
  case (Cons c cs)
  obtain b a where c: "c = (b, a)" by (cases c)
  define m' where "m' = m\<lparr>functors := (functors m)(q \<mapsto> snd (invoke s a))\<rparr>"
  have call: "Function_call invoke (if b then f else g) a m = Some (fst (invoke s a), m')"
    using Function_call_reference [of m "if b then f else g" q s invoke a] Cons.prems assms(4,5) by (cases b) (simp_all add: m'_def)
  have "callable_of f m' = Some (holds_reference q)" "callable_of g m' = Some (holds_reference q)"
    "functors m' q = Some (snd (invoke s a))"
    using Cons.prems by (simp_all add: m'_def)
  from Cons.IH [OF this] show ?case using call by (auto simp: c)
qed simp

lemma Function_init_copy:
  assumes "Function_init p callable m = (f, m1)" "Function_copy f q m1 = Some (g, m2)" "p \<noteq> 0" "q \<noteq> p"
  shows "callable_of f m2 = Some callable" "callable_of g m2 = Some callable"
    "m_resource (m_callable f) = p" "m_resource (m_callable g) = q" "functors m2 = functors m"
  using assms
  by (auto simp: Function_init_def Function_copy_def CallableImpl_clone_def makeUnique_def UniquePtr_init_def
      UniquePtr_bool_def split: if_splits)

lemma Function_copy_returns:
  assumes "Function_init p callable m = (f, m1)" shows "\<exists>g m2. Function_copy f q m1 = Some (g, m2)"
  using assms by (auto simp: Function_init_def Function_copy_def CallableImpl_clone_def makeUnique_def UniquePtr_init_def)

text \<open>C38. A function made from a temporary and its copy have objects of their own: whatever the order in which the
  two are called, every call returns, and the results of each are those of the object called with that function's
  arguments alone. For a function made from a named object the copy is not independent: both call that object, and
  the results are those of one object called with all the arguments in order.\<close>

theorem function_copy_independent:
  assumes "p \<noteq> 0" "q \<noteq> 0" "q \<noteq> p" "Function_init p callable m = (f, m1)"
  shows "\<exists>g m2. Function_copy f q m1 = Some (g, m2) \<and>
    (\<forall>s. callable = holds_value s \<longrightarrow>
      (\<exists>rs. run_calls invoke f g cs m2 = Some rs \<and> map fst rs = map fst cs \<and>
         calls_on True rs = run_object invoke (calls_on True cs) s \<and>
         calls_on False rs = run_object invoke (calls_on False cs) s)) \<and>
    (\<forall>x s. callable = holds_reference x \<and> functors m x = Some s \<longrightarrow>
      (\<exists>rs. run_calls invoke f g cs m2 = Some rs \<and> map fst rs = map fst cs \<and>
         map snd rs = run_object invoke (map snd cs) s))"
proof -
  obtain g m2 where copy: "Function_copy f q m1 = Some (g, m2)" using Function_copy_returns [OF assms(4)] by blast
  note both = Function_init_copy [OF assms(4) copy assms(1,3)]
  show ?thesis
    using copy both assms(1-3) run_calls_values [of m2 f _ g _ invoke cs] run_calls_references [of m2 f _ g _ invoke cs]
    by (intro exI [of _ g] exI [of _ m2]) auto
qed

text \<open>The functor of the library's own test, which counts when told to.\<close>

definition counting_functor :: "nat \<Rightarrow> bool \<Rightarrow> nat \<times> nat" where
  "counting_functor x increment = (if increment then (x + 1, x + 1) else (x, x))"

theorem function_copy_independent_witness:
  "\<exists>f m1 g m2 rs. Function_init 16 (holds_value 1) \<lparr>callables = \<lparr>objects = Map.empty, destructor_calls = []\<rparr>, functors = Map.empty\<rparr> = (f, m1) \<and>
     Function_copy f 32 m1 = Some (g, m2) \<and>
     run_calls counting_functor f g [(True, True), (False, False), (True, True), (False, True)] m2 = Some rs \<and>
     calls_on True rs = [2, 3] \<and> calls_on False rs = [1, 2]"
proof -
  let ?m = "\<lparr>callables = \<lparr>objects = Map.empty, destructor_calls = []\<rparr>, functors = Map.empty\<rparr> :: nat function_memory"
  obtain f m1 where init: "Function_init 16 (holds_value 1) ?m = (f, m1)" by fastforce
  show ?thesis
    using function_copy_independent [of 16 32, OF _ _ _ init, of counting_functor "[(True, True), (False, False), (True, True), (False, True)]"]
      init by (auto simp: counting_functor_def)
qed

text \<open>A moved function keeps working through its new name, and the old name is empty.\<close>

lemma Function_move_calls:
  "Function_move f = (g, f') \<Longrightarrow> Function_call invoke g a m = Function_call invoke f a m \<and> Function_call invoke f' a m = None"
  by (auto simp: Function_move_def UniquePtr_release_def UniquePtr_init_def Function_call_def UniquePtr_bool_def)

lemma empty_function_has_no_result:
  "Function_call invoke Function_default a m = None" "Function_call invoke Function_null a m = None"
  "Function_copy Function_default q m = Some (Function_null, m)"
  by (simp_all add: Function_call_def Function_default_def Function_null_def UniquePtr_default_def UniquePtr_init_def
      UniquePtr_bool_def Function_copy_def)

end
