(* ===== verification/Kpp_Tests.thy ===== *)
theory Kpp_Tests
  imports Kpp_Function
begin

text \<open>
  The library's own unit tests (\<^verbatim>\<open>lib/kpp/tests\<close>), run on the models of \<^verbatim>\<open>UniquePtr\<close> and \<^verbatim>\<open>Function\<close>. A test gives the
  list of the outcomes of its expectations. That they all hold is a check of the models against what the authors
  of the library observed.
\<close>

section \<open>UniquePtr\<close>

text \<open>\<^verbatim>\<open>ResourcePool\<close> counts the resources alive: each constructor adds one and each destructor takes one away. The
  address of a resource is what \<^verbatim>\<open>new\<close> returned.\<close>

record pool_state =
  m_numResourcesAlive :: int
  pool_store :: "unit object_store"

definition ResourcePool_init :: pool_state where
  "ResourcePool_init = \<lparr>m_numResourcesAlive = 0, pool_store = \<lparr>objects = Map.empty, destructor_calls = []\<rparr>\<rparr>"

definition makeResource :: "u64 \<Rightarrow> pool_state \<Rightarrow> u64 \<times> pool_state" where
  "makeResource ptr s = (ptr, s\<lparr>m_numResourcesAlive := m_numResourcesAlive s + 1,
     pool_store := (pool_store s)\<lparr>objects := (objects (pool_store s))(ptr \<mapsto> ())\<rparr>\<rparr>)"

text \<open>An operation of the pointer on the store; the destructors it runs untrack their resources.\<close>

definition with_store :: "(unit object_store \<Rightarrow> unit object_store) \<Rightarrow> pool_state \<Rightarrow> pool_state" where
  "with_store f s = (let w = f (pool_store s);
       n = length (destructor_calls w) - length (destructor_calls (pool_store s))
     in s\<lparr>m_numResourcesAlive := m_numResourcesAlive s - int n, pool_store := w\<rparr>)"

definition ReleasesObjectOnDestruction :: "bool list" where
  "ReleasesObjectOnDestruction =
     (let (r, s) = makeResource 16 ResourcePool_init;
          ptr = UniquePtr_init r;
          e1 = (m_numResourcesAlive s = 1);
          s = with_store (UniquePtr_destroy ptr) s;
          e2 = (m_numResourcesAlive s = 0)
      in [e1, e2])"

definition TransfersOwnershipOnMoveConstructor :: "bool list" where
  "TransfersOwnershipOnMoveConstructor =
     (let (r, s) = makeResource 16 ResourcePool_init;
          vars = [''firstPtr'' \<mapsto> UniquePtr_init r];
          vars = UniquePtr_move ''secondPtr'' ''firstPtr'' vars;
          e1 = (m_numResourcesAlive s = 1);
          s = with_store (UniquePtr_destroy (the (vars ''secondPtr''))) s;
          e2 = (m_numResourcesAlive s = 0);
          s = with_store (UniquePtr_destroy (the (vars ''firstPtr''))) s;
          e3 = (m_numResourcesAlive s = 0)
      in [e1, e2, e3])"

definition TransfersOwnershipOnMoveAssignment :: "bool list" where
  "TransfersOwnershipOnMoveAssignment =
     (let (r, s) = makeResource 16 ResourcePool_init;
          vars = [''firstPtr'' \<mapsto> UniquePtr_init r, ''secondPtr'' \<mapsto> UniquePtr_default];
          vars' = fst (UniquePtr_move_assign ''secondPtr'' ''firstPtr'' (vars, pool_store s));
          s = with_store (\<lambda>w. snd (UniquePtr_move_assign ''secondPtr'' ''firstPtr'' (vars, w))) s;
          e1 = (m_numResourcesAlive s = 1);
          s = with_store (UniquePtr_destroy (the (vars' ''secondPtr''))) s;
          e2 = (m_numResourcesAlive s = 0);
          s = with_store (UniquePtr_destroy (the (vars' ''firstPtr''))) s;
          e3 = (m_numResourcesAlive s = 0)
      in [e1, e2, e3])"

text \<open>A virtual call depends on the class of the object that the pointer owns.\<close>

datatype test_class = Base | Derived

datatype test_value = base_value | derived_value

fun foo_method :: "test_class \<Rightarrow> test_value" where
  "foo_method Base = base_value"
| "foo_method Derived = derived_value"

definition StoresDerivedClass :: "bool list" where
  "StoresDerivedClass =
     (let (p, w) = makeUnique 16 Derived \<lparr>objects = Map.empty, destructor_calls = []\<rparr>;
          vars = UniquePtr_move ''basePtrContainingDerived'' ''temporary'' [''temporary'' \<mapsto> p]
      in [map_option foo_method (UniquePtr_deref (the (vars ''basePtrContainingDerived'')) w) = Some derived_value])"

section \<open>Function\<close>

definition empty_memory :: "'s function_memory" where
  "empty_memory = \<lparr>callables = \<lparr>objects = Map.empty, destructor_calls = []\<rparr>, functors = Map.empty\<rparr>"

text \<open>A call that does not change the object.\<close>

definition constant_call :: "'s \<Rightarrow> 'a \<Rightarrow> 's \<times> 's" where
  "constant_call s a = (s, s)"

definition CallsFunctionPointer :: "bool list" where
  "CallsFunctionPointer =
     (let (f, m) = Function_init 16 (holds_value 2) empty_memory
      in [map_option fst (Function_call constant_call f () m) = Some (2 :: int)])"

text \<open>The lambda is a named object, so the function holds a reference to it; it has no state.\<close>

definition CallsNonCapturingLambda :: "bool list" where
  "CallsNonCapturingLambda =
     (let (f, m) = Function_init 16 (holds_reference 64) (empty_memory\<lparr>functors := [64 \<mapsto> ()]\<rparr>)
      in [map_option fst (Function_call (\<lambda>s x. (x, s)) f (2 :: int) m) = Some 2])"

text \<open>The object of the captures, here a variable with the value 2.\<close>

definition CallsCapturingLambda :: "bool list" where
  "CallsCapturingLambda =
     (let x = 2 :: int;
          (f, m) = Function_init 16 (holds_reference 64) (empty_memory\<lparr>functors := [64 \<mapsto> x]\<rparr>)
      in [map_option fst (Function_call constant_call f () m) = Some 2])"

definition CallsFunctor :: "bool list" where
  "CallsFunctor =
     (let x = 2 :: int;
          (f, m) = Function_init 16 (holds_reference 64) (empty_memory\<lparr>functors := [64 \<mapsto> x]\<rparr>)
      in [map_option fst (Function_call constant_call f () m) = Some 2])"

definition CopiesCallable :: "bool list" where
  "CopiesCallable =
     (let (source, m) = Function_init 16 (holds_value 1) empty_memory
      in case Function_copy source 32 m of
           None \<Rightarrow> [False]
         | Some (destination, m) \<Rightarrow>
             [run_calls counting_functor source destination [(True, False), (False, False), (True, True), (False, True)] m =
                Some [(True, 1), (False, 1), (True, 2), (False, 2)]])"

section \<open>The outcome\<close>

lemma unique_ptr_tests_pass:
  "list_all id (ReleasesObjectOnDestruction @ TransfersOwnershipOnMoveConstructor @ TransfersOwnershipOnMoveAssignment @ StoresDerivedClass)"
  by (simp add: ReleasesObjectOnDestruction_def TransfersOwnershipOnMoveConstructor_def TransfersOwnershipOnMoveAssignment_def
      StoresDerivedClass_def makeResource_def ResourcePool_init_def with_store_def UniquePtr_init_def UniquePtr_default_def
      UniquePtr_destroy_def UniquePtr_move_def UniquePtr_move_assign_def UniquePtr_release_def UniquePtr_deref_def destroy_object_def
      makeUnique_def Let_def)

lemma function_tests_pass:
  "list_all id (CallsFunctionPointer @ CallsNonCapturingLambda @ CallsCapturingLambda @ CallsFunctor @ CopiesCallable)"
  by (simp add: CallsFunctionPointer_def CallsNonCapturingLambda_def CallsCapturingLambda_def CallsFunctor_def CopiesCallable_def
      Function_init_def Function_call_def Function_copy_def CallableImpl_call_def CallableImpl_clone_def makeUnique_def
      UniquePtr_init_def UniquePtr_bool_def empty_memory_def constant_call_def counting_functor_def Let_def)

text \<open>What an owning pointer gives access to: its object, and nothing after it was moved from.\<close>

lemma deref_after_move:
  assumes "vars source = Some p" "this \<noteq> source"
  shows "UniquePtr_deref (the (UniquePtr_move this source vars this)) w = UniquePtr_deref p w"
    "UniquePtr_deref (the (UniquePtr_move this source vars source)) w = None"
    "UniquePtr_arrow (the (UniquePtr_move this source vars source)) = 0"
  using assms by (auto simp: UniquePtr_move_def UniquePtr_release_def UniquePtr_init_def UniquePtr_deref_def UniquePtr_arrow_def Let_def)

end
