(* ===== verification/Limine.thy ===== *)
theory Limine
  imports Boot
begin

text \<open>
  What the bootloader hands over (\<^verbatim>\<open>limine_features.cpp\<close>, the structures of \<^verbatim>\<open>limine.h\<close> that the kernel uses). The
  kernel's image contains requests; the bootloader fills in the address of each response, and the constructors of
  the globals copy these addresses. The responses are structures in memory that the kernel reads on every use. They
  lie in memory that the bootloader reports as reclaimable: the frame allocator does not touch it, but \<^verbatim>\<open>paging_init\<close>
  gives it to the frame allocator while the kernel still reads the responses.
\<close>

section \<open>Requests\<close>

record limine_request =
  request_id :: "u64 list"
  request_revision :: u64
  request_response :: u64

definition LIMINE_COMMON_MAGIC :: "u64 list" where
  "LIMINE_COMMON_MAGIC = [0xc7b1dd30df4c8b88, 0x0a82e883a194f07b]"

definition LIMINE_MEMMAP_REQUEST :: "u64 list" where
  "LIMINE_MEMMAP_REQUEST = LIMINE_COMMON_MAGIC @ [0x67cf3d9d378a806f, 0xe304acdfc50c3c62]"

definition LIMINE_FRAMEBUFFER_REQUEST :: "u64 list" where
  "LIMINE_FRAMEBUFFER_REQUEST = LIMINE_COMMON_MAGIC @ [0x9d5827dcd881dd75, 0xa3148604f6fab11b]"

definition LIMINE_KERNEL_ADDRESS_REQUEST :: "u64 list" where
  "LIMINE_KERNEL_ADDRESS_REQUEST = LIMINE_COMMON_MAGIC @ [0x71ba76863cc55f63, 0xb2644a48c516a487]"

definition LIMINE_HHDM_REQUEST :: "u64 list" where
  "LIMINE_HHDM_REQUEST = LIMINE_COMMON_MAGIC @ [0x48dcf1cb8ad2b852, 0x63984e959a98244b]"

definition LIMINE_RSDP_REQUEST :: "u64 list" where
  "LIMINE_RSDP_REQUEST = LIMINE_COMMON_MAGIC @ [0xc5e77b6b397e7b43, 0x27637845accdcf3c]"

definition memmap_request :: limine_request where
  "memmap_request = \<lparr>request_id = LIMINE_MEMMAP_REQUEST, request_revision = 0, request_response = 0\<rparr>"

definition framebuffer_request :: limine_request where
  "framebuffer_request = \<lparr>request_id = LIMINE_FRAMEBUFFER_REQUEST, request_revision = 1, request_response = 0\<rparr>"

definition kernel_address_request :: limine_request where
  "kernel_address_request = \<lparr>request_id = LIMINE_KERNEL_ADDRESS_REQUEST, request_revision = 0, request_response = 0\<rparr>"

definition hhdm_request :: limine_request where
  "hhdm_request = \<lparr>request_id = LIMINE_HHDM_REQUEST, request_revision = 0, request_response = 0\<rparr>"

definition rsdp_request :: limine_request where
  "rsdp_request = \<lparr>request_id = LIMINE_RSDP_REQUEST, request_revision = 0, request_response = 0\<rparr>"

text \<open>The bootloader is a parameter: the response it provides for the identifier of a request, 0 where it does
  not know the feature. The requests are volatile, so the globals are initialised by constructors that read them.\<close>

definition answered :: "(u64 list \<Rightarrow> u64) \<Rightarrow> limine_request \<Rightarrow> limine_request" where
  "answered respond r = r\<lparr>request_response := respond (request_id r)\<rparr>"

record limine_globals =
  memory_map_response :: u64
  framebuffers_info :: u64
  kernel_address_response :: u64
  hhdm_address :: u64
  rsdp_address_response :: u64

definition limine_features_init :: "(u64 list \<Rightarrow> u64) \<Rightarrow> limine_globals" where
  "limine_features_init respond =
     \<lparr>memory_map_response = request_response (answered respond memmap_request),
      framebuffers_info = request_response (answered respond framebuffer_request),
      kernel_address_response = request_response (answered respond kernel_address_request),
      hhdm_address = request_response (answered respond hhdm_request),
      rsdp_address_response = request_response (answered respond rsdp_request)\<rparr>"

section \<open>Responses\<close>

text \<open>Every response begins with its revision. Fields are read at their offsets.\<close>

definition memmap_entry_at :: "'z machine_scheme \<Rightarrow> u64 \<Rightarrow> limine_memmap_entry" where
  "memmap_entry_at s p = \<lparr>entry_base = load64 s p, entry_length = load64 s (p + 8), entry_type = load64 s (p + 16)\<rparr>"

definition memmap_entry_pointers :: "'z machine_scheme \<Rightarrow> u64 \<Rightarrow> u64 list" where
  "memmap_entry_pointers s p = map (\<lambda>i. load64 s (p + 16) + 8 * of_nat i) [0..<unat (load64 s (p + 8))]"

definition limine_memory_map :: "'z machine_scheme \<Rightarrow> u64 \<Rightarrow> limine_memmap_entry list" where
  "limine_memory_map s p = map (\<lambda>q. memmap_entry_at s (load64 s q)) (memmap_entry_pointers s p)"

definition limine_hhdm_offset :: "'z machine_scheme \<Rightarrow> u64 \<Rightarrow> u64" where
  "limine_hhdm_offset s p = load64 s (p + 8)"

definition limine_physical_base :: "'z machine_scheme \<Rightarrow> u64 \<Rightarrow> u64" where
  "limine_physical_base s p = load64 s (p + 8)"

definition limine_rsdp_address :: "'z machine_scheme \<Rightarrow> u64 \<Rightarrow> u64" where
  "limine_rsdp_address s p = load64 s (p + 8)"

record limine_framebuffer =
  lfb_address :: u64
  lfb_width :: u64
  lfb_height :: u64
  lfb_pitch :: u64
  lfb_bpp :: u16

definition limine_framebuffer_at :: "'z machine_scheme \<Rightarrow> u64 \<Rightarrow> limine_framebuffer" where
  "limine_framebuffer_at s p =
     \<lparr>lfb_address = load64 s p, lfb_width = load64 s (p + 8), lfb_height = load64 s (p + 16),
      lfb_pitch = load64 s (p + 24), lfb_bpp = ucast (load32 s (p + 32))\<rparr>"

definition limine_framebuffer_entry :: "'z machine_scheme \<Rightarrow> u64 \<Rightarrow> u64 \<Rightarrow> limine_framebuffer" where
  "limine_framebuffer_entry s p i = limine_framebuffer_at s (load64 s (load64 s (p + 16) + 8 * i))"

text \<open>The inputs of \<^verbatim>\<open>kernel_init\<close> are what the kernel reads through these globals: the memory map, the offset of the
  direct map, the physical base of the kernel, the size of the first framebuffer and the address of the RSDP.\<close>

definition boot_information :: "limine_globals \<Rightarrow> boot_inputs \<Rightarrow> 'z paging_state_scheme \<Rightarrow> bool" where
  "boot_information g B s \<longleftrightarrow>
     memory_map s = limine_memory_map s (memory_map_response g) \<and>
     hhdm_offset s = limine_hhdm_offset s (hhdm_address g) \<and>
     kernel_physical_base s = limine_physical_base s (kernel_address_response g) \<and>
     fb_width (boot_framebuffer B) = lfb_width (limine_framebuffer_entry s (framebuffers_info g) 0) \<and>
     fb_height (boot_framebuffer B) = lfb_height (limine_framebuffer_entry s (framebuffers_info g) 0) \<and>
     boot_rsdp B = limine_rsdp_address s (rsdp_address_response g)"

text \<open>The words of memory these reads depend on.\<close>

definition memmap_words :: "'z machine_scheme \<Rightarrow> u64 \<Rightarrow> u64 list" where
  "memmap_words s p = [p + 8, p + 16] @ memmap_entry_pointers s p @
     concat (map (\<lambda>q. [load64 s q, load64 s q + 8, load64 s q + 16]) (memmap_entry_pointers s p))"

definition boot_words :: "limine_globals \<Rightarrow> 'z machine_scheme \<Rightarrow> u64 list" where
  "boot_words g s = memmap_words s (memory_map_response g) @
     [hhdm_address g + 8, kernel_address_response g + 8, rsdp_address_response g + 8, framebuffers_info g + 16,
      load64 s (framebuffers_info g + 16), load64 s (load64 s (framebuffers_info g + 16)) + 8,
      load64 s (load64 s (framebuffers_info g + 16)) + 16]"

lemma memory_map_cong:
  assumes "\<forall>q \<in> set (memmap_words s p). load64 s' q = load64 s q"
  shows "limine_memory_map s' p = limine_memory_map s p"
proof -
  have "memmap_entry_pointers s' p = memmap_entry_pointers s p"
    using assms by (simp add: memmap_entry_pointers_def memmap_words_def)
  then show ?thesis
    using assms by (auto simp: limine_memory_map_def memmap_entry_at_def memmap_words_def)
qed

lemma boot_information_cong:
  fixes s s' :: "'z paging_state_scheme"
  assumes "boot_information g B s" "\<forall>q \<in> set (boot_words g s). load64 s' q = load64 s q"
    and "memory_map s' = memory_map s" "hhdm_offset s' = hhdm_offset s" "kernel_physical_base s' = kernel_physical_base s"
  shows "boot_information g B s'"
  using assms memory_map_cong [of s "memory_map_response g" s']
  by (simp add: boot_information_def boot_words_def limine_hhdm_offset_def limine_physical_base_def limine_rsdp_address_def
      limine_framebuffer_entry_def limine_framebuffer_at_def)

section \<open>The responses outlive the frame allocator's initialisation\<close>

text \<open>A word of a response: it is aligned and is reached through the direct map.\<close>

definition response_word :: "u64 \<Rightarrow> u64 \<Rightarrow> bool" where
  "response_word off p \<longleftrightarrow> 4096 \<le> unat (p - off) \<and> unat (p - off) < 2 ^ 32 \<and> unat (p - off) mod 8 = 0"

definition word_frame :: "u64 \<Rightarrow> u64 \<Rightarrow> u64" where
  "word_frame off p = page_floor (p - off)"

lemma response_word_entry:
  assumes "response_word off p"
  obtains i where "node_frame (word_frame off p)" "i < (512 :: u16)" "p = entry_ptr (word_frame off p + off) i"
proof -
  let ?c = "p - off" and ?n = "word_frame off p"
  define k where "k = unat ?c mod 4096 div 8"
  have c: "unat ?n = unat ?c - unat ?c mod 4096" "unat ?c mod 4096 = 8 * k" "k < 512"
  proof -
    show "unat ?n = unat ?c - unat ?c mod 4096" by (simp add: word_frame_def unat_page_floor minus_mod_eq_mult_div [symmetric])
    have "unat ?c mod 4096 mod 8 = 0" using assms by (simp add: response_word_def mod_mod_cancel)
    then show "unat ?c mod 4096 = 8 * k" by (simp add: k_def mod_0_imp_dvd)
    show "k < 512" by (simp add: k_def less_mult_imp_div_less)
  qed
  have n: "node_frame ?n"
    using assms c(1) by (auto simp: node_frame_def response_word_def word_unat_eq_iff minus_mod_eq_mult_div)
  have "unat (of_nat k :: u16) = k" using c(3) by (simp add: unat_of_nat take_bit_nat_eq_self)
  then have i: "(of_nat k :: u16) < 512" "unat (8 * ucast (of_nat k :: u16) :: u64) = 8 * k"
    using c(3) by (simp_all add: word_less_nat_alt unat_word_ariths unat_ucast_u16)
  have "unat (?n + 8 * ucast (of_nat k :: u16)) = unat ?c"
    using c i(2) unat_add_no_wrap [of ?n "8 * ucast (of_nat k :: u16)"] unat_less_2p [of ?c] by simp
  then have "?n + 8 * ucast (of_nat k :: u16) = ?c" by (simp add: word_unat_eq_iff)
  then have "p = entry_ptr (?n + off) (of_nat k)" by (simp add: entry_ptr_def algebra_simps)
  then show thesis using that n i(1) by blast
qed

lemma entry_at_pushes:
  fixes s :: "'z frame_state_scheme"
  assumes "frame_inv s" "node_frame n" "off_stack s n" "i < 512"
  shows "entry_at (fold free_stack_push fs s) n i = entry_at s n i" "off_stack (fold free_stack_push fs s) n = off_stack s n"
  using assms by (induction fs arbitrary: s) (simp_all add: entry_at_push free_stack_push_props(1))

lemma pushes_keep_word:
  fixes s :: "'z frame_state_scheme"
  assumes "frame_inv s" "response_word (hhdm_offset s) p" "off_stack s (word_frame (hhdm_offset s) p)"
  shows "load64 (fold free_stack_push fs s) p = load64 s p"
proof -
  obtain i where i: "node_frame (word_frame (hhdm_offset s) p)" "i < (512 :: u16)" "p = entry_ptr (word_frame (hhdm_offset s) p + hhdm_offset s) i"
    using response_word_entry [OF assms(2)] .
  have "load64 t p = entry_at t (word_frame (hhdm_offset s) p) i" if "hhdm_offset t = hhdm_offset s" for t :: "'z frame_state_scheme"
    using load64_entry [OF i(1,2), of t] that by (simp add: i(3) [symmetric])
  then show ?thesis
    using entry_at_pushes(1) [OF assms(1) i(1) assms(3) i(2)] by (simp add: fold_push_globals)
qed

text \<open>The frame allocator reads the memory map again and again while it builds its stack: the stack, in frames
  that are usable, is not in the way of the responses.\<close>

lemma responses_survive_allocator_init:
  fixes s :: "'z paging_state_scheme"
  assumes ok: "\<forall>e \<in> set (memory_map s). is_allocatable e \<longrightarrow> entry_ok e"
    and small: "length (usable_frames (memory_map s)) < 2 ^ 52" and hhdm: "hhdm_ok (hhdm_offset s)"
    and fits: "stack_begin (memory_map s) \<noteq> 0"
    and low: "unat (stack_begin (memory_map s)) + 4096 * unat (stack_frames (memory_map s)) \<le> 2 ^ 32"
    and info: "boot_information g B s"
    and words: "list_all (\<lambda>p. response_word (hhdm_offset s) p \<and>
      (let n = unat (word_frame (hhdm_offset s) p) in n + 4096 \<le> unat (stack_begin (memory_map s)) \<or>
        unat (stack_begin (memory_map s)) + 4096 * unat (stack_frames (memory_map s)) \<le> n)) (boot_words g s)"
  shows "\<exists>s'. frame_allocator_init s = ret s' \<and> boot_information g B s'"
proof -
  from frame_allocator_init_frames [OF ok small hhdm fits low] obtain s' fs opt where
    s': "frame_allocator_init s = ret s'" "frame_capacity s' = length (usable_frames (memory_map s))"
      "m_stack (Optional_deref (free_stack s')) = stack_begin (memory_map s)" "memory_map s' = memory_map s"
      "hhdm_offset s' = hhdm_offset s" "frame_state.more s' = frame_state.more s"
      "s' = fold free_stack_push fs (s\<lparr>free_stack := opt\<rparr>)" "frame_inv (s\<lparr>free_stack := opt\<rparr>)"
    by blast
  have b: "8 * length (usable_frames (memory_map s)) \<le> 4096 * unat (stack_frames (memory_map s))"
    using stack_frames_bound(3) [OF _ small] ok by blast
  have "load64 s' p = load64 s p" if "p \<in> set (boot_words g s)" for p
  proof -
    have w: "response_word (hhdm_offset s) p" using words that by (simp add: list_all_iff)
    let ?n = "word_frame (hhdm_offset s) p"
    have "unat ?n + 4096 \<le> unat (stack_begin (memory_map s)) \<or>
        unat (stack_begin (memory_map s)) + 4096 * unat (stack_frames (memory_map s)) \<le> unat ?n"
      using words that by (simp add: list_all_iff Let_def)
    then have "off_stack s' ?n" using b s'(2,3) by (auto simp: off_stack_def frame_capacity_def Optional_deref_def)
    moreover have "off_stack (fold free_stack_push xs t) n = off_stack t n" for xs n and t :: "'z paging_state_scheme"
      by (induction xs arbitrary: t) simp_all
    ultimately have "off_stack (s\<lparr>free_stack := opt\<rparr>) ?n" using s'(7) by simp
    then show ?thesis using pushes_keep_word [OF s'(8), of p fs] w s'(7) by simp
  qed
  moreover have "kernel_physical_base s' = kernel_physical_base s" using s'(6) by (cases s', cases s) simp
  ultimately show ?thesis using boot_information_cong [OF info _ s'(4,5)] s'(1) by blast
qed

section \<open>The responses are reclaimed while they are in use\<close>


section \<open>An example\<close>




end
