(* ===== verification/Typed_Commands.thy ===== *)
theory Typed_Commands
  imports Shell
begin

text \<open>
  From the keyboard to the screen: the interrupt routine of \<^verbatim>\<open>idt.cpp\<close> fills the buffer of
  \<^verbatim>\<open>KeyboardBuffer.hpp\<close>, the loop of \<^verbatim>\<open>main.cpp\<close> empties it into its array and runs the command, and
  \<^verbatim>\<open>printf.cpp\<close> writes what the command prints on the terminal of \<^verbatim>\<open>Terminal.cpp\<close>. The reference is
  \<open>command_text\<close>, the output of a command as a function of its line.
\<close>

section \<open>The line that the keys in the buffer amount to\<close>

text \<open>A string in memory.\<close>

definition line_at :: "u64 \<Rightarrow> u8 list \<Rightarrow> 'z machine_scheme \<Rightarrow> bool" where
  "line_at a bs s \<longleftrightarrow> list_all (\<lambda>i. load8 s (a + of_nat i) = (bs @ [0]) ! i) [0..<length bs + 1]"


section \<open>What a command prints\<close>



lemma line_at_iff: "line_at a bs s \<longleftrightarrow> (\<forall>i < length bs. load8 s (a + of_nat i) = bs ! i) \<and> load8 s (a + of_nat (length bs)) = 0"
  by (auto simp: line_at_def list_all_iff nth_append less_Suc_eq)

lemma line_at_Cons: "line_at a (b # bs) s \<longleftrightarrow> load8 s a = b \<and> line_at (a + 1) bs s"
  by (auto simp: line_at_iff All_less_Suc2 add.assoc)


lemma strncmp_literal_take:
  "line_at a bs s \<Longrightarrow> 0 \<notin> set lit \<Longrightarrow> strncmp_literal s a lit = 0 \<longleftrightarrow> take (length lit) bs = lit"
proof (induction lit arbitrary: a bs)
  case (Cons c lit)
  have ne: "sint x - sint c = 0 \<longleftrightarrow> x = c" for x by (auto intro: signed_word_eqI)
  show ?case
  proof (cases bs)
    case Nil
    then show ?thesis using Cons.prems ne [of 0] by (auto simp: line_at_iff)
  next
    case (Cons b bs')
    then show ?thesis using Cons.prems Cons.IH [of "a + 1" bs'] ne by (auto simp: line_at_Cons)
  qed
qed simp

lemma strncmp_commands:
  assumes at: "line_at a bs s"
  shows "strncmp_literal s a (ascii ''help'') = 0 \<longleftrightarrow> take 4 bs = ascii ''help''"
    "strncmp_literal s a (ascii ''echo '') = 0 \<longleftrightarrow> take 5 bs = ascii ''echo ''"
    "strncmp_literal s a (ascii ''exit'') = 0 \<longleftrightarrow> take 4 bs = ascii ''exit''"
    "strncmp_literal s a (ascii ''clear'') = 0 \<longleftrightarrow> take 5 bs = ascii ''clear''"
proof -
  have cmp: "strncmp_literal s a (ascii x) = 0 \<longleftrightarrow> take n bs = ascii x"
    if "list_all (\<lambda>c. of_char c \<noteq> (0 :: u8)) x" "length x = n" for x n
  proof -
    have "0 \<notin> set (ascii x)" using that(1) by (force simp: ascii_def list_all_iff)
    then show ?thesis using strncmp_literal_take [OF at] that(2) by (simp add: ascii_def)
  qed
  show "strncmp_literal s a (ascii ''help'') = 0 \<longleftrightarrow> take 4 bs = ascii ''help''" by (rule cmp) simp_all
  show "strncmp_literal s a (ascii ''echo '') = 0 \<longleftrightarrow> take 5 bs = ascii ''echo ''" by (rule cmp) simp_all
  show "strncmp_literal s a (ascii ''exit'') = 0 \<longleftrightarrow> take 4 bs = ascii ''exit''" by (rule cmp) simp_all
  show "strncmp_literal s a (ascii ''clear'') = 0 \<longleftrightarrow> take 5 bs = ascii ''clear''" by (rule cmp) simp_all
qed





text \<open>A line that begins with \<^verbatim>\<open>exit\<close>, whatever follows, ends the shell: the command does not return.\<close>

lemma exit_does_not_return:
  assumes "line_at input bs s" and "take 4 bs = ascii ''exit''" and "n \<noteq> 0"
  shows "handle_command input n s \<noteq> ret s'"
proof -
  have "take 4 bs = take 4 (ascii ''echo '')" if "take 5 bs = ascii ''echo ''"
    using arg_cong [OF that, of "take 4"] by (simp add: min_def)
  then have "take 5 bs \<noteq> ascii ''echo ''" "take 4 bs \<noteq> ascii ''help''" using assms(2) by (auto simp: ascii_def)
  then show ?thesis
    using strncmp_commands [OF assms(1)] assms(2,3)
    by (simp add: handle_command_def res_bind_eq_ret kernel_hang_not_ret)
qed

section \<open>From the keyboard to the command\<close>

















end
