(* ===== verification/Virtual_Memory.thy ===== *)
theory Virtual_Memory
  imports Mmu
begin

text \<open>
  Virtual memory as programs use it: the 64-bit accesses of the kernel's heap (the headers of the free-list
  allocator) run through the page tables, and the page-fault routine backs pages on demand. The specification
  is a store, a finite map from addresses to values. The page tables, the frame allocator and the service
  routine refine it as long as no fault happens in the page before one that is in use already, because the
  routine maps the page behind an unaligned faulting address anew.
\<close>

section \<open>Accesses\<close>

partial_function (option) vstore64 :: "u64 \<Rightarrow> u64 \<Rightarrow> interrupt_state \<Rightarrow> interrupt_state res" where
  "vstore64 va v s =
     (if hw_usable s (ptbr s) va then ret (s\<lparr>mem := write_u64 (hw_cell s va) v (mem s)\<rparr>)
      else res_bind (run_isr_page_fault va s) (\<lambda>s. vstore64 va v s))"

partial_function (option) vload64 :: "u64 \<Rightarrow> interrupt_state \<Rightarrow> (u64 \<times> interrupt_state) res" where
  "vload64 va s =
     (if hw_mapped s (ptbr s) va then ret (read_u64 (mem s) (hw_cell s va), s)
      else res_bind (run_isr_page_fault va s) (\<lambda>s. vload64 va s))"

datatype vm_op = VStore (vm_address: u64) u64 | VLoad (vm_address: u64)

fun vm_exec :: "vm_op list \<Rightarrow> interrupt_state \<Rightarrow> (u64 list \<times> interrupt_state) res" where
  "vm_exec [] s = ret ([], s)"
| "vm_exec (VStore a v # ops) s = res_bind (vstore64 a v s) (vm_exec ops)"
| "vm_exec (VLoad a # ops) s =
     res_bind (vload64 a s) (\<lambda>(v, s). res_bind (vm_exec ops s) (\<lambda>(vs, s). ret (v # vs, s)))"

text \<open>The specification: what the loads of a program read from a store, where it was written.\<close>

fun store_loads :: "vm_op list \<Rightarrow> (u64 \<rightharpoonup> u64) \<Rightarrow> u64 option list" where
  "store_loads [] m = []"
| "store_loads (VStore a v # ops) m = store_loads ops (m(a \<mapsto> v))"
| "store_loads (VLoad a # ops) m = m a # store_loads ops m"

definition reads_as :: "u64 \<Rightarrow> u64 option \<Rightarrow> bool" where
  "reads_as v o' \<longleftrightarrow> (case o' of Some w \<Rightarrow> v = w | None \<Rightarrow> True)"

text \<open>Addresses of aligned words in the lower half, and the order of accesses: with the pages \<open>ps\<close> in use, an
  access to a new page is at its first byte, or the page behind it is not in use.\<close>

definition heap_address :: "u64 \<Rightarrow> bool" where
  "heap_address a \<longleftrightarrow> unat a mod 8 = 0 \<and> unat a + 8192 \<le> 2 ^ 47"

fun keeps_neighbours :: "u64 list \<Rightarrow> u64 list \<Rightarrow> bool" where
  "keeps_neighbours ps [] \<longleftrightarrow> True"
| "keeps_neighbours ps (a # as) \<longleftrightarrow>
     (if list_ex (same_page a) ps then keeps_neighbours ps as
      else list_all (\<lambda>q. \<not> list_ex (same_page q) ps) (faulted_pages a) \<and> keeps_neighbours (faulted_pages a @ ps) as)"

fun fault_count :: "u64 list \<Rightarrow> u64 list \<Rightarrow> nat" where
  "fault_count ps [] = 0"
| "fault_count ps (a # as) =
     (if list_ex (same_page a) ps then fault_count ps as else Suc (fault_count (faulted_pages a @ ps) as))"

section \<open>The pages in use\<close>

lemma same_page_trans: "same_page a b \<Longrightarrow> same_page b c \<Longrightarrow> same_page a c"
  and same_page_sym: "same_page a b \<longleftrightarrow> same_page b a"
  by (auto simp: same_page_bits)

lemma heap_same_page:
  assumes "heap_address a" "heap_address b" "same_page a b" "a mod pageSize = b mod pageSize"
  shows "a = b"
proof -
  have n: "unat x div 4096 < 2 ^ 36" if "heap_address x" for x
  proof -
    have "unat x div 4096 \<le> 2 ^ 47 div 4096" using that by (intro div_le_mono) (simp add: heap_address_def)
    then show ?thesis by simp
  qed
  have "unat a div 4096 = unat b div 4096"
    using assms(3) n [OF assms(1)] n [OF assms(2)] by (simp add: same_page_number)
  moreover have "unat a mod 4096 = unat b mod 4096" using assms(4) by (metis unat_mod_page)
  ultimately show ?thesis by (metis div_mult_mod_eq word_unat_eq_iff)
qed

lemma heap_in_page: "heap_address a \<Longrightarrow> unat a mod 4096 + 8 \<le> 4096"
proof -
  assume "heap_address a"
  then have "unat a mod 4096 mod 8 = 0" by (simp add: heap_address_def mod_mod_cancel)
  then obtain k where k: "unat a mod 4096 = 8 * k" by auto
  then have "8 * k < 4096" using mod_less_divisor [of 4096 "unat a"] by simp
  then show ?thesis using k by simp
qed

text \<open>Every page in use is backed by a frame of data of its own.\<close>

definition pages_backed :: "interrupt_state \<Rightarrow> u64 list \<Rightarrow> bool" where
  "pages_backed s ps \<longleftrightarrow> paging_inv s (ptbr s) \<and>
     (\<forall>a. list_ex (same_page a) ps \<longrightarrow> hw_usable s (ptbr s) a \<and>
       (\<exists>f. data_frame s (ptbr s) f \<and> page_entry s (ptbr s) a = flagged f PageFlags_Write)) \<and>
     (\<forall>a b. list_ex (same_page a) ps \<longrightarrow> list_ex (same_page b) ps \<longrightarrow>
       page_entry s (ptbr s) a = page_entry s (ptbr s) b \<longrightarrow> same_page a b)"

text \<open>The store that the memory of these pages holds.\<close>

definition holds_store :: "interrupt_state \<Rightarrow> u64 list \<Rightarrow> (u64 \<rightharpoonup> u64) \<Rightarrow> bool" where
  "holds_store s ps m \<longleftrightarrow> (\<forall>a v. m a = Some v \<longrightarrow>
     heap_address a \<and> list_ex (same_page a) ps \<and> read_u64 (mem s) (hw_cell s a) = v)"

lemma flagged_data:
  assumes "data_frame s r f" shows "flagged f PageFlags_Write AND child_mask = f"
  using assms flagged_child [OF write_flag_ok, of f] node_frame_masked [of f] by (simp add: data_frame_def)

lemma data_cell:
  assumes "data_frame s (ptbr s) f" "page_entry s (ptbr s) a = flagged f PageFlags_Write"
  shows "hw_cell s a = f + a mod pageSize" "unat (hw_cell s a) = unat f + unat a mod 4096"
proof -
  show c: "hw_cell s a = f + a mod pageSize" using assms flagged_data [OF assms(1)] by (simp add: hw_cell_def)
  show "unat (hw_cell s a) = unat f + unat a mod 4096"
  proof -
    have "unat f < 2 ^ 32" using assms(1) by (simp add: data_frame_def node_frame_def)
    moreover have "unat (a mod pageSize) < 4096" by (simp add: unat_mod_page)
    ultimately show ?thesis
      unfolding c using unat_add_no_wrap [of f "a mod pageSize"] by (simp add: unat_mod_page [symmetric])
  qed
qed

text \<open>A word of a frame of data: a store to it stays in the frame, and the page tables grow beside it.\<close>

lemma write_data_word:
  assumes "data_frame s r f" "unat c = unat f + d" "d + 8 \<le> 4096" "\<not> (unat f \<le> unat x \<and> unat x < unat f + 4096)"
  shows "write_u64 c v (mem s) x = mem s x"
  using assms by (intro write_u64_in_frame [of f]) (simp_all add: data_frame_def in_frame_def)

lemma data_word_grows:
  assumes inv: "paging_inv s r" and f: "data_frame s r f" "tree_grows s s' r" and c: "unat c = unat f + d" "d + 8 \<le> 4096"
  shows "read_u64 (mem s') c = read_u64 (mem s) c"
proof (rule read_u64_cong)
  fix i :: nat assume "i < 8"
  then have "unat (c + of_nat i) = unat c + i"
    using f(1) c unat_add_no_wrap [of c "of_nat i"] by (simp add: unat_of_nat_small data_frame_def node_frame_def)
  then have "in_frame f (c + of_nat i)" using c \<open>i < 8\<close> by (simp add: in_frame_def)
  then show "mem s' (c + of_nat i) = mem s (c + of_nat i)"
    using data_frame_bytes [OF _ f] inv by (simp add: paging_inv_def)
qed

lemma backed_cell:
  assumes "pages_backed s ps" "list_ex (same_page a) ps"
  obtains f where "data_frame s (ptbr s) f" "page_entry s (ptbr s) a = flagged f PageFlags_Write"
    "page_entry s (ptbr s) a AND child_mask = f" "hw_cell s a = f + a mod pageSize" "unat (hw_cell s a) = unat f + unat a mod 4096"
    "hw_usable s (ptbr s) a"
proof -
  obtain f where f: "data_frame s (ptbr s) f" "page_entry s (ptbr s) a = flagged f PageFlags_Write" "hw_usable s (ptbr s) a"
    using assms by (auto simp: pages_backed_def)
  then show ?thesis using that data_cell [OF f(1,2)] flagged_data [OF f(1)] by simp
qed

text \<open>Different words in use lie in different cells.\<close>

lemma cells_apart:
  assumes b: "pages_backed s ps" and heap: "heap_address x" "heap_address y" "x \<noteq> y"
    and use: "list_ex (same_page x) ps" "list_ex (same_page y) ps"
  shows "sep8 (hw_cell s x) (hw_cell s y)"
proof -
  obtain f where f: "data_frame s (ptbr s) f" "page_entry s (ptbr s) x = flagged f PageFlags_Write"
    "unat (hw_cell s x) = unat f + unat x mod 4096" using backed_cell [OF b use(1)] .
  obtain g where g: "data_frame s (ptbr s) g" "page_entry s (ptbr s) y = flagged g PageFlags_Write"
    "unat (hw_cell s y) = unat g + unat y mod 4096" using backed_cell [OF b use(2)] .
  have fg: "unat f mod 4096 = 0" "unat g mod 4096 = 0" using f(1) g(1) by (simp_all add: data_frame_def node_frame_def)
  have "8 dvd unat f" "8 dvd unat g" using fg by (auto simp: mod_eq_0_iff_dvd intro: dvd_trans [of 8 4096])
  then have al: "unat (hw_cell s x) mod 8 = 0" "unat (hw_cell s y) mod 8 = 0"
    using heap(1,2) by (auto simp: f(3) g(3) heap_address_def mod_eq_0_iff_dvd intro!: dvd_add dvd_mod)
  have "hw_cell s x \<noteq> hw_cell s y"
  proof
    assume e: "hw_cell s x = hw_cell s y"
    have off: "unat x mod 4096 = unat y mod 4096"
    proof -
      have "unat (hw_cell s x) mod 4096 = unat x mod 4096" "unat (hw_cell s y) mod 4096 = unat y mod 4096"
        unfolding f(3) g(3) using fg by (simp_all add: mod_add_left_eq [symmetric])
      then show ?thesis using e by simp
    qed
    then have "unat f = unat g" using e f(3) g(3) by simp
    then have "f = g" by (simp only: word_unat_eq_iff)
    then have "page_entry s (ptbr s) x = page_entry s (ptbr s) y" using f(2) g(2) by simp
    then have "same_page x y" using b use by (simp add: pages_backed_def)
    moreover have "x mod pageSize = y mod pageSize" using off by (simp add: word_unat_eq_iff unat_mod_page)
    ultimately show False using heap_same_page heap by blast
  qed
  then show ?thesis by (rule sep8_aligned [OF al])
qed

section \<open>The steps\<close>

text \<open>The translation of a page in use.\<close>

lemma backed_translation:
  assumes "paging_inv s r" "data_frame s r f" "page_entry s r a = flagged f PageFlags_Write"
  shows "paging_get_translation s a = ret \<lparr>physical_address = f, translation_flags = PageFlags_Write OR PageFlags_Present\<rparr>"
  using paging_get_translation_entry [OF assms(1), of a] flagged_data [OF assms(2)] flagged_flags [of f PageFlags_Write]
  by (simp add: assms(3) PageFlags_Write_def PageFlags_Present_def)

lemma store_step:
  assumes b: "pages_backed s ps" and m: "holds_store s ps m" and a: "heap_address a" "list_ex (same_page a) ps"
  shows "\<exists>s'. vstore64 a v s = ret s' \<and> pages_backed s' ps \<and> holds_store s' ps (m(a \<mapsto> v)) \<and> ptbr s' = ptbr s \<and>
    free_frames s' = free_frames s \<and> (\<forall>x. page_entry s' (ptbr s) x = page_entry s (ptbr s) x)"
proof -
  obtain f where f: "data_frame s (ptbr s) f" "unat (hw_cell s a) = unat f + unat a mod 4096" "hw_usable s (ptbr s) a"
    using backed_cell [OF b a(2)] .
  define s' where "s' = s\<lparr>mem := write_u64 (hw_cell s a) v (mem s)\<rparr>"
  have inv: "paging_inv s (ptbr s)" using b by (simp add: pages_backed_def)
  note keeps = data_write_keeps [OF inv f(1) write_data_word [where v = v, OF f(1,2) heap_in_page [OF a(1)]], folded s'_def]
  have r: "ptbr s' = ptbr s" by (simp add: s'_def)
  have "pages_backed s' ps"
    using b by (simp add: pages_backed_def r keeps)
  moreover have cell: "hw_cell s' x = hw_cell s x" for x by (simp add: hw_cell_def r keeps(3))
  have "holds_store s' ps (m(a \<mapsto> v))"
    using m a cells_apart [OF b _ a(1) _ _ a(2)] unfolding holds_store_def cell by (auto simp: s'_def)
  moreover have "vstore64 a v s = ret s'" using f(3) by (subst vstore64.simps) (simp add: s'_def)
  ultimately show ?thesis using keeps(2,3) r by auto
qed

lemma load_step:
  assumes "pages_backed s ps" "list_ex (same_page a) ps"
  shows "vload64 a s = ret (read_u64 (mem s) (hw_cell s a), s)"
  using assms by (subst vload64.simps) (auto simp: pages_backed_def hw_usable_def)

text \<open>A fault at an address whose page is not present.\<close>

definition absent :: "interrupt_state \<Rightarrow> u64 \<Rightarrow> bool" where
  "absent s a \<longleftrightarrow> page_entry s (ptbr s) a AND PageFlags_Present = 0"

lemma absent_unmapped: "absent s a \<Longrightarrow> \<not> hw_mapped s (ptbr s) a"
  by (simp add: absent_def hw_mapped_def walk_entries_def page_entry_def page_path_def numeral_3_eq_3)

lemma last_entry_range:
  "length gs = length ps \<Longrightarrow> last_entry a (zip ps (map (\<lambda>g. (g, flags)) gs)) = Some e \<Longrightarrow> \<exists>g \<in> set gs. e = flagged g flags"
  by (induction gs ps rule: list_induct2) (auto split: option.splits if_splits)

lemma last_entry_fresh:
  assumes "length gs = length ps" "list_ex (same_page a) ps"
  shows "\<exists>g \<in> set gs. last_entry a (zip ps (map (\<lambda>g. (g, flags)) gs)) = Some (flagged g flags)"
proof -
  have "last_entry a (zip ps (map (\<lambda>g. (g, flags)) gs)) \<noteq> None"
    using assms by (induction gs ps rule: list_induct2) (auto split: option.splits)
  then show ?thesis using last_entry_range [OF assms(1), of a flags] by auto
qed

lemma last_entry_same_page:
  assumes "length gs = length ps" "distinct gs" "list_all (\<lambda>g. flagged g flags AND child_mask = g) gs"
    "last_entry a (zip ps (map (\<lambda>g. (g, flags)) gs)) = Some e" "last_entry b (zip ps (map (\<lambda>g. (g, flags)) gs)) = Some e"
  shows "same_page a b"
  using assms
proof (induction gs ps rule: list_induct2)
  case (Cons g gs p ps)
  have old: "e \<noteq> flagged g flags" if e: "last_entry x (zip ps (map (\<lambda>g. (g, flags)) gs)) = Some e" for x
  proof
    obtain h where h: "h \<in> set gs" "e = flagged h flags" using last_entry_range [OF Cons.hyps e] by blast
    assume "e = flagged g flags"
    moreover have "flagged h flags AND child_mask = h" "flagged g flags AND child_mask = g"
      using h(1) Cons.prems(2) by (auto simp: list_all_iff)
    ultimately show False using h(1,2) Cons.prems(1) by (metis distinct.simps(2))
  qed
  show ?case
  proof (cases "last_entry a (zip ps (map (\<lambda>g. (g, flags)) gs)) = None")
    case True
    then have a: "same_page a p" "e = flagged g flags" using Cons.prems(3) by (simp_all split: if_splits)
    have "last_entry b (zip ps (map (\<lambda>g. (g, flags)) gs)) = None"
    proof (rule ccontr)
      assume "last_entry b (zip ps (map (\<lambda>g. (g, flags)) gs)) \<noteq> None"
      then have "last_entry b (zip ps (map (\<lambda>g. (g, flags)) gs)) = Some e" using Cons.prems(4) by auto
      then show False using old a(2) by blast
    qed
    then have "same_page b p" using Cons.prems(4) by (simp split: if_splits)
    then have "same_page p b" by (rule iffD1 [OF same_page_sym])
    then show ?thesis by (rule same_page_trans [OF a(1)])
  next
    case False
    then have a: "last_entry a (zip ps (map (\<lambda>g. (g, flags)) gs)) = Some e" using Cons.prems(3) by auto
    then have ne: "e \<noteq> flagged g flags" by (rule old)
    have "last_entry b (zip ps (map (\<lambda>g. (g, flags)) gs)) = Some e"
      using ne Cons.prems(4) by (cases "last_entry b (zip ps (map (\<lambda>g. (g, flags)) gs))") (auto split: if_splits)
    moreover have "distinct gs" "list_all (\<lambda>g. flagged g flags AND child_mask = g) gs" using Cons.prems(1,2) by simp_all
    ultimately show ?thesis using a by (intro Cons.IH)
  qed
qed simp

lemma fault_step:
  assumes b: "pages_backed s ps" and m: "holds_store s ps m" and a: "heap_address a"
    and new: "list_all (\<lambda>q. \<not> list_ex (same_page q) ps) (faulted_pages a)" and free: "8 \<le> length (free_frames s)"
  shows "\<exists>s'. run_isr_page_fault a s = ret s' \<and> pages_backed s' (faulted_pages a @ ps) \<and> holds_store s' (faulted_pages a @ ps) m \<and>
    ptbr s' = ptbr s \<and> length (free_frames s) \<le> length (free_frames s') + 8 \<and>
    (\<forall>x. \<not> list_ex (same_page x) (faulted_pages a) \<longrightarrow> page_entry s' (ptbr s) x = page_entry s (ptbr s) x)"
proof -
  let ?r = "ptbr s" and ?qs = "faulted_pages a"
  have inv: "paging_inv s ?r" using b by (simp add: pages_backed_def)
  have "unat a + 8192 \<le> 2 ^ 64" using a by (simp add: heap_address_def)
  from page_fault_effect [OF inv this free]
  obtain s' gs where s': "run_isr_page_fault a s = ret s'" "paging_inv s' ?r" "ptbr s' = ?r" "length gs = length ?qs" "distinct gs"
    "set gs \<subseteq> set (free_frames s)" "list_all (data_frame s' ?r) gs" "set (free_frames s') \<subseteq> set (free_frames s)"
    "length (free_frames s) \<le> length (free_frames s') + 8"
    and e: "\<forall>x. page_entry s' ?r x = (case last_entry x (zip ?qs (map (\<lambda>g. (g, PageFlags_Write)) gs)) of
        Some e \<Rightarrow> e | None \<Rightarrow> page_entry s ?r x)"
    and grows: "tree_grows s s' ?r"
    and use: "\<forall>x. list_ex (same_page x) ?qs \<or> hw_usable s ?r x \<longrightarrow> hw_usable s' ?r x" by blast
  have child: "list_all (\<lambda>g. flagged g PageFlags_Write AND child_mask = g) gs"
    using s'(7) flagged_data by (auto simp: list_all_iff)
  have old: "page_entry s' ?r x = page_entry s ?r x" if "\<not> list_ex (same_page x) ?qs" for x
  proof -
    have "last_entry x (zip ?qs (map (\<lambda>g. (g, PageFlags_Write)) gs)) = None"
      using that by (auto simp: last_entry_None_iff list_ex_iff dest: set_zip_leftD)
    then show ?thesis by (simp add: e)
  qed
  have apart: "\<not> list_ex (same_page x) ?qs" if "list_ex (same_page x) ps" for x
  proof
    assume "list_ex (same_page x) ?qs"
    then obtain q where q: "q \<in> set ?qs" "same_page x q" by (auto simp: list_ex_iff)
    then have "list_ex (same_page q) ps"
      using that same_page_trans [of q x] by (auto simp: list_ex_iff same_page_sym [of q])
    then show False using new q(1) by (auto simp: list_all_iff)
  qed
  have oldf: "\<exists>f. data_frame s' ?r f \<and> data_frame s ?r f \<and> page_entry s' ?r x = flagged f PageFlags_Write"
    if x: "list_ex (same_page x) ps" for x
  proof -
    obtain f where "data_frame s ?r f" "page_entry s ?r x = flagged f PageFlags_Write" using backed_cell [OF b x] .
    then show ?thesis using data_frame_grows [OF _ grows s'(8)] old [OF apart [OF x]] by auto
  qed
  have newf: "\<exists>g \<in> set gs. page_entry s' ?r x = flagged g PageFlags_Write \<and> data_frame s' ?r g"
    if x: "list_ex (same_page x) ?qs" for x
    using last_entry_fresh [OF s'(4) x, of PageFlags_Write] s'(7) by (auto simp: e list_all_iff)
  have differ: "page_entry s' ?r x \<noteq> page_entry s' ?r y" if x: "list_ex (same_page x) ps" and y: "list_ex (same_page y) ?qs" for x y
  proof -
    obtain f where f: "data_frame s' ?r f" "data_frame s ?r f" "page_entry s' ?r x = flagged f PageFlags_Write" using oldf [OF x] by blast
    obtain g where g: "g \<in> set gs" "page_entry s' ?r y = flagged g PageFlags_Write" "data_frame s' ?r g" using newf [OF y] by blast
    have "f \<noteq> g" using f(2) g(1) s'(6) by (auto simp: data_frame_def)
    then show ?thesis using f(3) g(2) flagged_data [OF f(1)] flagged_data [OF g(3)] by auto
  qed
  have "same_page x y" if xy: "list_ex (same_page x) (?qs @ ps)" "list_ex (same_page y) (?qs @ ps)" "page_entry s' ?r x = page_entry s' ?r y" for x y
  proof -
    consider "list_ex (same_page x) ps" "list_ex (same_page y) ps" | "list_ex (same_page x) ?qs" "list_ex (same_page y) ?qs"
      using xy differ [of x y] differ [of y x] by auto
    then show ?thesis
    proof cases
      case 1
      then show ?thesis using xy(3) b by (simp add: old apart pages_backed_def)
    next
      case 2
      obtain g h where "last_entry x (zip ?qs (map (\<lambda>g. (g, PageFlags_Write)) gs)) = Some (flagged g PageFlags_Write)"
        "last_entry y (zip ?qs (map (\<lambda>g. (g, PageFlags_Write)) gs)) = Some (flagged h PageFlags_Write)"
        using last_entry_fresh [OF s'(4) 2(1)] last_entry_fresh [OF s'(4) 2(2)] by blast
      then show ?thesis using xy(3) last_entry_same_page [OF s'(4,5) child] by (simp add: e)
    qed
  qed
  moreover have "hw_usable s' ?r x" if "list_ex (same_page x) (?qs @ ps)" for x
    using that use b by (auto simp: pages_backed_def)
  moreover have "\<exists>f. data_frame s' ?r f \<and> page_entry s' ?r x = flagged f PageFlags_Write" if "list_ex (same_page x) (?qs @ ps)" for x
    using that oldf [of x] newf [of x] unfolding list_ex_append by blast
  ultimately have "pages_backed s' (?qs @ ps)" using s'(2) unfolding pages_backed_def s'(3) by blast
  moreover have "read_u64 (mem s') (hw_cell s' x) = read_u64 (mem s) (hw_cell s x)"
    if x: "heap_address x" "list_ex (same_page x) ps" for x
  proof -
    obtain f where f: "data_frame s ?r f" "hw_cell s x = f + x mod pageSize" "unat (hw_cell s x) = unat f + unat x mod 4096"
      using backed_cell [OF b x(2)] .
    have "hw_cell s' x = hw_cell s x" by (simp add: hw_cell_def s'(3) old [OF apart [OF x(2)]])
    moreover note data_word_grows [OF inv f(1) grows f(3) heap_in_page [OF x(1)]]
    ultimately show ?thesis by simp
  qed
  then have "holds_store s' (?qs @ ps) m" using m by (auto simp: holds_store_def)
  ultimately show ?thesis using s'(1,3,9) old by blast
qed

text \<open>Either way, after the access the page is in use.\<close>

lemma touch:
  assumes b: "pages_backed s ps" and m: "holds_store s ps m" and a: "heap_address a"
    and fresh: "list_ex (same_page a) ps \<or> absent s a" and order: "keeps_neighbours ps (a # as)"
    and free: "8 * fault_count ps (a # as) \<le> length (free_frames s)"
  shows "\<exists>s1 ps1. (\<forall>v. vstore64 a v s = vstore64 a v s1) \<and> vload64 a s = vload64 a s1 \<and>
    pages_backed s1 ps1 \<and> holds_store s1 ps1 m \<and> list_ex (same_page a) ps1 \<and> ptbr s1 = ptbr s \<and>
    keeps_neighbours ps1 as \<and> 8 * fault_count ps1 as \<le> length (free_frames s1) \<and>
    (\<forall>x. list_ex (same_page x) ps1 \<or> \<not> list_ex (same_page x) ps \<and> page_entry s1 (ptbr s) x = page_entry s (ptbr s) x)"
proof (cases "list_ex (same_page a) ps")
  case True
  then show ?thesis using assms by (intro exI [of _ s] exI [of _ ps]) simp
next
  case False
  then have out: "\<not> hw_mapped s (ptbr s) a" using fresh absent_unmapped by blast
  have new: "list_all (\<lambda>q. \<not> list_ex (same_page q) ps) (faulted_pages a)" "keeps_neighbours (faulted_pages a @ ps) as"
    using order False by simp_all
  have "8 \<le> length (free_frames s)" using free False by simp
  from fault_step [OF b m a new(1) this]
  obtain s1 where s1: "run_isr_page_fault a s = ret s1" "pages_backed s1 (faulted_pages a @ ps)" "holds_store s1 (faulted_pages a @ ps) m"
    "ptbr s1 = ptbr s" "length (free_frames s) \<le> length (free_frames s1) + 8"
    "\<forall>x. \<not> list_ex (same_page x) (faulted_pages a) \<longrightarrow> page_entry s1 (ptbr s) x = page_entry s (ptbr s) x" by blast
  have "vstore64 a v s = vstore64 a v s1" for v
    using out s1(1) by (subst vstore64.simps) (simp add: hw_usable_def)
  moreover have "vload64 a s = vload64 a s1" using out s1(1) by (subst vload64.simps) simp
  moreover have "list_ex (same_page a) (faulted_pages a)"
    using faulted_pages_range(2) [of a] a by (simp add: faulted_pages_def heap_address_def)
  ultimately show ?thesis
    using s1 new(2) free False by (intro exI [of _ s1] exI [of _ "faulted_pages a @ ps"]) auto
qed

lemma vm_exec_refines:
  assumes "pages_backed s ps" and "holds_store s ps m" and "list_all heap_address (map vm_address ops)"
    and "list_all (\<lambda>a. list_ex (same_page a) ps \<or> absent s a) (map vm_address ops)"
    and "keeps_neighbours ps (map vm_address ops)" and "8 * fault_count ps (map vm_address ops) \<le> length (free_frames s)"
  shows "\<exists>vs s'. vm_exec ops s = ret (vs, s') \<and> paging_inv s' (ptbr s') \<and> list_all2 reads_as vs (store_loads ops m)"
  using assms
proof (induction ops arbitrary: s ps m)
  case Nil
  then show ?case by (simp add: pages_backed_def)
next
  case (Cons op ops)
  let ?a = "vm_address op" and ?as = "map vm_address ops"
  have a: "heap_address ?a" "list_ex (same_page ?a) ps \<or> absent s ?a" using Cons.prems(3,4) by simp_all
  obtain s1 ps1 where acc: "\<forall>v. vstore64 ?a v s = vstore64 ?a v s1" "vload64 ?a s = vload64 ?a s1"
    and s1: "pages_backed s1 ps1" "holds_store s1 ps1 m" "list_ex (same_page ?a) ps1" "ptbr s1 = ptbr s"
    and rest: "keeps_neighbours ps1 ?as" "8 * fault_count ps1 ?as \<le> length (free_frames s1)"
    and others: "\<forall>x. list_ex (same_page x) ps1 \<or> \<not> list_ex (same_page x) ps \<and> page_entry s1 (ptbr s) x = page_entry s (ptbr s) x"
    using touch [OF Cons.prems(1,2) a, of ?as] Cons.prems(5,6) by (auto simp del: keeps_neighbours.simps fault_count.simps)
  have fresh: "list_all (\<lambda>x. list_ex (same_page x) ps1 \<or> absent s1 x) ?as"
    using Cons.prems(4) others s1(4) by (fastforce simp: list_all_iff absent_def)
  show ?case
  proof (cases op)
    case (VStore b v)
    obtain s2 where s2: "vstore64 b v s1 = ret s2" "pages_backed s2 ps1" "holds_store s2 ps1 (m(b \<mapsto> v))" "ptbr s2 = ptbr s1"
      "free_frames s2 = free_frames s1" "\<forall>x. page_entry s2 (ptbr s1) x = page_entry s1 (ptbr s1) x"
      using store_step [OF s1(1,2), of b v] a(1) s1(3) VStore by auto
    have "list_all (\<lambda>x. list_ex (same_page x) ps1 \<or> absent s2 x) ?as"
      using fresh s2(4,6) by (simp add: absent_def)
    then obtain vs s' where "vm_exec ops s2 = ret (vs, s')" "paging_inv s' (ptbr s')"
        "list_all2 reads_as vs (store_loads ops (m(b \<mapsto> v)))"
      using Cons.IH [OF s2(2,3) _ _ rest(1)] Cons.prems(3) rest(2) s2(5) by (auto simp del: fun_upd_apply)
    then show ?thesis using s2(1) acc(1) VStore by (simp del: fun_upd_apply)
  next
    case (VLoad b)
    have l: "vload64 b s1 = ret (read_u64 (mem s1) (hw_cell s1 b), s1)" using load_step [OF s1(1,3)] VLoad by simp
    have "reads_as (read_u64 (mem s1) (hw_cell s1 b)) (m b)"
      using s1(2) by (auto simp: reads_as_def holds_store_def split: option.split)
    moreover obtain vs s' where "vm_exec ops s1 = ret (vs, s')" "paging_inv s' (ptbr s')" "list_all2 reads_as vs (store_loads ops m)"
      using Cons.IH [OF s1(1,2) _ fresh rest] Cons.prems(3) by auto
    ultimately show ?thesis using l acc(2) VLoad by simp
  qed
qed

section \<open>Memory on demand\<close>

text \<open>C11. Demand-paged memory is memory. Any program of aligned 64-bit loads and stores to pages that are not
  present at the start returns, given eight free frames for each fault, and every load of an address that was
  stored to reads the value of the last store, as a finite map would give it; the page tables are well formed at
  the end. The order matters: the program must not fault inside the page before one in use.\<close>

theorem virtual_memory_refines_store:
  assumes "paging_inv s (ptbr s)" and "list_all heap_address (map vm_address ops)"
    and "list_all (\<lambda>a. page_entry s (ptbr s) a AND PageFlags_Present = 0) (map vm_address ops)"
    and "keeps_neighbours [] (map vm_address ops)" and "8 * fault_count [] (map vm_address ops) \<le> length (free_frames s)"
  shows "\<exists>vs s'. vm_exec ops s = ret (vs, s') \<and> paging_inv s' (ptbr s') \<and>
    list_all2 reads_as vs (store_loads ops (\<lambda>_. None))"
proof -
  have "pages_backed s []" "holds_store s [] (\<lambda>_. None)" using assms(1) by (simp_all add: pages_backed_def holds_store_def)
  then show ?thesis
    using assms(2-5) by (intro vm_exec_refines) (simp_all add: absent_def [symmetric])
qed

text \<open>C12. The order does matter. A fault at an address that is not the first of its page takes the page behind it
  away: a value stored there before sits in a frame that is neither mapped at its address any more nor free.\<close>

theorem unaligned_fault_loses_data:
  fixes a q :: u64
  assumes inv: "paging_inv s (ptbr s)" and a: "heap_address a" "unat a mod 4096 \<noteq> 0"
    and q: "q = page_floor a + pageSize" "heap_address q"
    and absent: "page_entry s (ptbr s) a AND PageFlags_Present = 0" "page_entry s (ptbr s) q AND PageFlags_Present = 0"
    and free: "16 \<le> length (free_frames s)"
  shows "\<exists>s1 s2 f g. vstore64 q v s = ret s1 \<and> vload64 q s1 = ret (v, s1) \<and> vstore64 a w s1 = ret s2 \<and>
    paging_get_translation s1 q = ret \<lparr>physical_address = f, translation_flags = PageFlags_Write OR PageFlags_Present\<rparr> \<and>
    paging_get_translation s2 q = ret \<lparr>physical_address = g, translation_flags = PageFlags_Write OR PageFlags_Present\<rparr> \<and>
    f \<noteq> g \<and> read_u64 (mem s2) f = v \<and> f \<notin> set (free_frames s2)"
proof -
  let ?r = "ptbr s"
  have wrap: "unat a + 8192 \<le> 2 ^ 64" using a(1) by (simp add: heap_address_def)
  note pages = unaligned_pages [OF a(2) wrap]
  have qn: "unat q = unat (page_floor a) + 4096"
    unfolding q(1) using wrap unat_add_no_wrap [of "page_floor a" pageSize] by (simp add: unat_page_floor)
  then have ql: "unat q mod 4096 = 0" by (simp add: unat_page_floor)
  then have fq: "faulted_pages q = [page_floor q]" "page_floor q = q" "q mod pageSize = 0"
    using div_mult_mod_eq [of "unat q" 4096]
    by (simp_all add: faulted_pages_def word_unat_eq_iff unat_page_floor unat_mod_page)
  have fa: "faulted_pages a = [page_floor a, q]" using a(2) by (simp add: faulted_pages_def q(1))
  have "pages_backed s []" "holds_store s [] (\<lambda>_. None)" using inv by (simp_all add: pages_backed_def holds_store_def)
  from fault_step [OF this q(2)] obtain s0 where s0: "run_isr_page_fault q s = ret s0" "pages_backed s0 [q]" "holds_store s0 [q] (\<lambda>_. None)"
    "ptbr s0 = ?r" "length (free_frames s) \<le> length (free_frames s0) + 8"
    "\<forall>x. \<not> same_page x q \<longrightarrow> page_entry s0 ?r x = page_entry s ?r x" using free by (auto simp: fq)
  have use: "list_ex (same_page q) [q]" by simp
  obtain s1 where s1: "vstore64 q v s0 = ret s1" "pages_backed s1 [q]" "holds_store s1 [q] ((\<lambda>_. None)(q \<mapsto> v))" "ptbr s1 = ?r"
    "free_frames s1 = free_frames s0" "\<forall>x. page_entry s1 ?r x = page_entry s0 ?r x"
    using store_step [OF s0(2,3) q(2) use, of v] s0(4) by auto
  have "\<not> hw_mapped s ?r q" using absent_unmapped [of s q] absent(2) by (simp add: absent_def)
  then have st: "vstore64 q v s = ret s1" using s0(1) s1(1) by (subst vstore64.simps) (simp add: hw_usable_def)
  obtain f where f: "data_frame s1 ?r f" "page_entry s1 ?r q = flagged f PageFlags_Write" "hw_cell s1 q = f + q mod pageSize"
    using backed_cell [OF s1(2) use] s1(4) by auto
  have v: "read_u64 (mem s1) f = v"
    using s1(3) [unfolded holds_store_def, rule_format, of q v] f(3) by (simp add: fq)
  have inv1: "paging_inv s1 ?r" using s1(2,4) by (simp add: pages_backed_def)
  have "page_entry s1 ?r a = page_entry s ?r a" using s1(6) s0(6) pages(4) q(1) by simp
  then have out: "\<not> hw_mapped s1 ?r a" using absent_unmapped [of s1 a] absent(1) by (simp add: absent_def s1(4))
  have "8 \<le> length (free_frames s1)" using free s0(5) s1(5) by simp
  from page_fault_effect [OF inv1 wrap this, unfolded fa s1(4)] obtain s1' gs where s1': "run_isr_page_fault a s1 = ret s1'" "paging_inv s1' ?r"
    "ptbr s1' = ?r" "length gs = length [page_floor a, q]" "distinct gs" "set gs \<subseteq> set (free_frames s1)" "list_all (data_frame s1' ?r) gs"
    "set (free_frames s1') \<subseteq> set (free_frames s1)"
    "\<forall>x. page_entry s1' ?r x = (case last_entry x (zip [page_floor a, q] (map (\<lambda>g. (g, PageFlags_Write)) gs)) of
        Some e \<Rightarrow> e | None \<Rightarrow> page_entry s1 ?r x)"
    "tree_grows s1 s1' ?r" "\<forall>x. list_ex (same_page x) [page_floor a, q] \<or> hw_usable s1 ?r x \<longrightarrow> hw_usable s1' ?r x"
    by blast
  obtain h g where gs: "gs = [h, g]" using s1'(4) by (auto simp: length_Suc_conv)
  have e: "page_entry s1' ?r q = flagged g PageFlags_Write" "page_entry s1' ?r a = flagged h PageFlags_Write"
    using pages(2,4) by (simp_all add: s1'(9) gs q(1) [symmetric])
  have fr: "data_frame s1' ?r h" "data_frame s1' ?r g" "f \<noteq> g" "f \<noteq> h"
    using s1'(6,7) gs f(1) by (auto simp: data_frame_def)
  note cell = data_cell [of s1', unfolded s1'(3), OF fr(1) e(2)]
  define s2 where "s2 = s1'\<lparr>mem := write_u64 (hw_cell s1' a) w (mem s1')\<rparr>"
  note bytes = write_data_word [where v = w, OF fr(1) cell(2) heap_in_page [OF a(1)]]
  note keeps = data_write_keeps [OF s1'(2) fr(1) bytes, folded s2_def]
  have "vstore64 a w s1 = vstore64 a w s1'" using out s1'(1) by (subst vstore64.simps) (simp add: hw_usable_def s1(4))
  also have "\<dots> = ret s2" using s1'(3,11) pages(2) by (subst vstore64.simps) (simp add: s2_def)
  finally have st2: "vstore64 a w s1 = ret s2" .
  have "read_u64 (mem s2) f = read_u64 (mem s1') f"
    using node_frames_apart [of h f] fr(1,4) f(1) bytes
    by (intro read_u64_off_frame [of h]) (auto simp: s2_def data_frame_def node_frame_def)
  also have "\<dots> = read_u64 (mem s1) f" using data_word_grows [OF inv1 f(1) s1'(10), of f 0] by simp
  finally have "read_u64 (mem s2) f = v" using v by simp
  moreover have "vload64 q s1 = ret (v, s1)" using load_step [OF s1(2) use] v f(3) by (simp add: fq)
  moreover have "f \<notin> set (free_frames s2)" using f(1) s1'(8) keeps(2) by (auto simp: data_frame_def)
  moreover have "paging_get_translation s2 q = ret \<lparr>physical_address = g, translation_flags = PageFlags_Write OR PageFlags_Present\<rparr>"
    using backed_translation [OF keeps(1), of g q] fr(2) e(1) by (simp add: keeps)
  moreover note backed_translation [OF inv1 f(1,2)]
  ultimately show ?thesis using st st2 fr(3) by blast
qed

section \<open>An example\<close>

lemma example_running_absent: "page_entry example_running 0xf000 a = 0"
proof -
  have "page_entry example_space 0xf000 a = 0" using example_space_facts(5) by (simp add: page_entry_def)
  then show ?thesis using tree_same_mem(1) [of example_running example_space] by (simp add: example_running_def)
qed

text \<open>The header of a block at the first address of the heap is written and read.\<close>

theorem virtual_memory_refines_store_witness:
  "\<exists>v s'. vm_exec [VStore 0x100001000 0x40, VStore 0x100001008 0xdeadbeef, VStore 0x100001000 0x20, VLoad 0x100001000,
       VLoad 0x100001010, VLoad 0x100001008] example_running = ret ([0x20, v, 0xdeadbeef], s')"
proof -
  let ?ops = "[VStore 0x100001000 0x40, VStore 0x100001008 0xdeadbeef, VStore 0x100001000 0x20, VLoad 0x100001000,
       VLoad 0x100001010, VLoad 0x100001008]"
  have h: "list_all heap_address (map vm_address ?ops)" by (simp add: heap_address_def)
  have f: "faulted_pages 0x100001000 = [0x100001000]" by (simp add: faulted_pages_def page_floor_def pageSize_def)
  have p: "same_page 0x100001008 0x100001000" "same_page 0x100001010 0x100001000" by (simp_all add: same_page_number)
  have k: "keeps_neighbours [] (map vm_address ?ops)" "8 * fault_count [] (map vm_address ?ops) \<le> length (free_frames example_running)"
    by (simp_all add: f p example_running_facts)
  show ?thesis
    using virtual_memory_refines_store [OF _ h _ k]
    by (fastforce simp: example_running_facts example_running_absent list_all2_Cons2 reads_as_def)
qed

text \<open>A machine with sixteen free frames and an empty page tree.\<close>

definition sixteen_frames :: interrupt_state where
  "sixteen_frames = example_interrupts\<lparr>
     mem := fold (\<lambda>k. write_u64 (0x1000 + 8 * of_nat k) (0x10000 + 0x1000 * of_nat k)) [0..<16] (\<lambda>_. 0),
     hhdm_offset := 0xffff800000000000,
     free_stack := \<lparr>buffer = \<lparr>m_stack = 0x1000, m_maxSize = 16, m_size = 16\<rparr>, is_present = True\<rparr>,
     page_tree := \<lparr>buffer = \<lparr>root_node = 0xffff80000000f000\<rparr>, is_present = True\<rparr>, ptbr := 0xf000\<rparr>"

definition sixteen_running :: interrupt_state where
  "sixteen_running = snd (PageTree_init (kernel_physical_to_virtual sixteen_frames 0xf000) sixteen_frames)"

lemma sixteen_free: "free_frames sixteen_frames = map (\<lambda>k. 0x10000 + 0x1000 * of_nat k) (rev [0..<16])"
  by (simp add: free_frames_def sixteen_frames_def Optional_deref_def stack_contents_def slot_def load64_def upt_rec sep8_def)

lemma sixteen_apart: "frames_apart sixteen_frames 0xf000"
proof -
  have "off_stack sixteen_frames n \<longleftrightarrow> unat n + 4096 \<le> 4096 \<or> 4224 \<le> unat n" for n
    by (simp add: off_stack_def sixteen_frames_def)
  moreover have "frame_inv sixteen_frames"
    by (simp add: frame_inv_def stack_inv_def Optional_deref_def sixteen_frames_def)
  ultimately show ?thesis unfolding frames_apart_def sixteen_free by (simp add: node_frame_def upt_rec)
qed

lemmas sixteen_facts = PageTree_init_tree [OF sixteen_apart, folded sixteen_running_def]

lemma sixteen_running_facts:
  "ptbr sixteen_running = 0xf000" "paging_inv sixteen_running 0xf000" "length (free_frames sixteen_running) = 16"
  "page_entry sixteen_running 0xf000 a = 0"
proof -
  show "ptbr sixteen_running = 0xf000"
    by (simp add: sixteen_running_def PageTree_init_def PageTreeNode_init_def zero_object_def sixteen_frames_def)
  show "length (free_frames sixteen_running) = 16" by (simp add: sixteen_facts(2) sixteen_free)
  show "paging_inv sixteen_running 0xf000"
    using sixteen_facts(1,3)
    by (simp add: paging_inv_def kernel_physical_to_virtual_def)
       (simp add: sixteen_running_def PageTree_init_def PageTreeNode_init_def zero_object_def sixteen_frames_def)
  show "page_entry sixteen_running 0xf000 a = 0" using sixteen_facts(5) by (simp add: page_entry_def)
qed

theorem unaligned_fault_loses_data_witness:
  "\<exists>s1 s2. vstore64 0x100002000 7 sixteen_running = ret s1 \<and> vload64 0x100002000 s1 = ret (7, s1) \<and>
     vstore64 0x100001008 8 s1 = ret s2 \<and> paging_get_translation s1 0x100002000 \<noteq> paging_get_translation s2 0x100002000"
proof -
  have q: "(0x100002000 :: u64) = page_floor 0x100001008 + pageSize" by (simp add: page_floor_def pageSize_def)
  have h: "heap_address 0x100001008" "heap_address 0x100002000" by (simp_all add: heap_address_def)
  have "unat (0x100001008 :: u64) mod 4096 \<noteq> 0" by simp
  from unaligned_fault_loses_data [OF _ h(1) this q h(2), of sixteen_running 7 8]
  show ?thesis by (auto simp: sixteen_running_facts)
qed

end
