(* ===== verification/Spec2Isabelle.thy ===== *)
theory Spec2Isabelle
  imports Device_Init Kernel_Tests Kpp_Tests Limine Typed_Commands Virtual_Memory
begin

text \<open>
  A verification development of \<^bold>\<open>davOS\<close>, a small x86-64 kernel in C++ that the Limine bootloader starts.

  \<^bold>\<open>The program.\<close> \<^verbatim>\<open>kernel_init\<close> (\<^verbatim>\<open>src/kernel/src/kernel.cpp\<close>) brings the components up in a fixed order:
  the terminal on the framebuffer, the segment and interrupt descriptor tables, the physical frame allocator,
  the page tables, the virtual memory manager, the local APIC, the keyboard controller and the I/O APICs.
  Afterwards \<^verbatim>\<open>kernel_main\<close> (\<^verbatim>\<open>main.cpp\<close>) runs the kernel's tests and reads keys in an endless loop, while the keyboard interrupt fills the
  buffer it reads from. The frame allocator keeps its frames on a stack in memory; paging takes the frames of
  its tables from it; the page-fault handler takes a frame for each page touched; the virtual memory manager
  keeps a list of free blocks in the virtual memory it manages; \<^verbatim>\<open>kpp::printf\<close> writes to the terminal.

  \<^bold>\<open>Conventions.\<close> Machine integers are words of their width and wrap as in the code. A result (type \<open>res\<close>) is
  \<open>None\<close> where the code does not return, \<open>Some (Inl _)\<close> where it stops in \<^verbatim>\<open>kernel_panic\<close> and \<open>Some (Inr x)\<close> where it
  returns \<open>x\<close>. Loops that may run forever are \<^verbatim>\<open>partial_function (option)\<close>, so that returning is something the
  theorems prove; no fuel is used. State is passed explicitly: \<open>machine\<close> (bytes and the direct-map offset) is
  extended by \<open>frame_state\<close>, \<open>paging_state\<close>, \<open>io_state\<close>, \<open>apic_state\<close> and \<open>interrupt_state\<close>, one record per
  component with globals, and operations are polymorphic in what extends their own. Instructions that talk to
  devices (ports, model-specific registers, memory-mapped registers, \<^verbatim>\<open>lgdt\<close>, \<^verbatim>\<open>lidt\<close>, \<^verbatim>\<open>sti\<close>) append an event to a
  trace; what a device answers is a function of the trace and a parameter of the model (\<open>devices\<close>). What the
  linker and the bootloader supply (addresses, memory map, framebuffer, RSDP, the bytes of the font) is a field of
  the state or an argument.

  \<^bold>\<open>Theories.\<close>

  \<^item> \<open>Kernel_Prelude\<close>: results, loops and their rules, lemmas on words. \<open>Machine\<close>: byte-addressed memory with
    little-endian accesses; an address of the direct map names the byte of the identity map.
  \<^item> \<open>Kpp_Stack\<close> (\<^verbatim>\<open>NonOwningStack.hpp\<close>): the stack of pointers implements the locale \<open>bounded_stack\<close>.
    \<open>Kpp_Queue\<close> (\<^verbatim>\<open>CircularQueue.hpp\<close>): the ring implements the locale \<open>bounded_queue\<close>, so that it refines a
    bounded first-in-first-out list. \<open>Kpp_Optional\<close> (\<^verbatim>\<open>optional.hpp\<close>): the destructor is called for the values
    constructed, once each and in order, but for the one present. \<open>Kpp_String\<close> (\<^verbatim>\<open>lib/kpp/string\<close>, \<^verbatim>\<open>StringView.hpp\<close>): \<^verbatim>\<open>memmove\<close> and the other routines on memory.
    \<open>Kpp_Unique\<close> (\<^verbatim>\<open>UniquePtr.hpp\<close>): programs with owning pointers as a step relation, each object is destroyed at most
    once unless its owner is assigned to itself. \<open>Kpp_Function\<close> (\<^verbatim>\<open>functional.hpp\<close>): callable values; when a copy is independent of its source. \<open>Kpp_Tests\<close>
    (\<^verbatim>\<open>lib/kpp/tests\<close>): the library's unit tests pass on these models.
  \<^item> \<open>Frame_Allocator\<close> (\<^verbatim>\<open>frame_allocator.cpp\<close>, \<^verbatim>\<open>Frame.cpp\<close>): the frames after initialisation, clients never share
    a frame, reclaiming drops frames.
  \<^item> \<open>Page_Tree\<close> (\<^verbatim>\<open>PageTree.cpp\<close>, \<^verbatim>\<open>PageTreeNode.cpp\<close>): the tree in memory as an invariant, mapping one page
    changes one translation. \<open>Paging\<close> (\<^verbatim>\<open>paging.cpp\<close>): regions, the boot address space, demand mapping, the free
    regions.
  \<^item> \<open>Free_List\<close> (\<^verbatim>\<open>FreeListAllocator.cpp\<close>): the list of blocks in memory refines first fit and merging release on
    lists of blocks; freeing undoes allocating; an exact fit in the first block loses the list. \<open>Vmm\<close> (\<^verbatim>\<open>vmm.cpp\<close>):
    the free blocks after initialisation, which are 16 bytes longer than the regions. \<open>Heap_Clients\<close>: clients that
    allocate (8 bytes or more, no exact fit), write and free in any order; the blocks they hold and the free blocks never overlap; memory freed in
    reverse order restores the list.
  \<^item> \<open>Processor\<close> (\<^verbatim>\<open>processor.cpp\<close>): registers, the 8259A controllers with their initialisation words, the keyboard controller. \<open>Apic\<close>
    (\<^verbatim>\<open>LocalAPIC.cpp\<close>, \<^verbatim>\<open>APICManager.cpp\<close>, the ACPI headers): checksums, the search for the MADT, redirection entries.
    \<open>Madt\<close>: the loop over the structures of a MADT finds its I/O APICs and maps their registers.
  \<^item> \<open>Descriptors\<close> (\<^verbatim>\<open>gdt.cpp\<close>, \<^verbatim>\<open>IDTStructure.cpp\<close>, \<^verbatim>\<open>SegmentSelector.h\<close>, \<^verbatim>\<open>TableDescriptor.cpp\<close>): what the processor
    reads back from the bytes that are written. \<open>Interrupts\<close> (\<^verbatim>\<open>idt.cpp\<close>, \<^verbatim>\<open>KeyboardBuffer.hpp\<close>): the installed
    table, the service routines, the decoding of scan codes and the key buffer.
  \<^item> \<open>Line_Buffer\<close> and \<open>Terminal\<close> (\<^verbatim>\<open>Terminal.cpp\<close>, \<^verbatim>\<open>Terminal.hpp\<close>, \<^verbatim>\<open>BitmapFont.hpp\<close>): the ring of lines keeps the
    last lines, painting stays in the framebuffer and returns. \<open>Printf\<close> (\<^verbatim>\<open>printf.cpp\<close>): a locale \<open>char_sink\<close> for
    where characters go, interpreted on the terminal; \<^verbatim>\<open>printf\<close> equals a character-wise reference; numbers read
    back.
  \<^item> \<open>Shell\<close> (\<^verbatim>\<open>main.cpp\<close>): the input loop as a step relation interleaved with the keyboard interrupt and its
    invariant. \<open>Typed_Commands\<close>: from the scan codes through the interrupt routine, the key buffer, the input loop, the
    command and \<^verbatim>\<open>printf\<close> to the text on the screen. \<open>Boot\<close> (\<^verbatim>\<open>kernel.cpp\<close>): the composition of the components in \<^verbatim>\<open>kernel_init\<close>: the
    frames that the frame allocator leaves are frames from which paging can build its tables. \<open>Device_Init\<close>: the rest of
    \<^verbatim>\<open>kernel_init\<close>: on documented devices it returns, and the keyboard's interrupt arrives at the vector of its
    routine. \<open>Limine\<close> (\<^verbatim>\<open>limine_features.cpp\<close>, \<^verbatim>\<open>limine.h\<close>): the requests, the responses in memory, what keeps them and
    what frees them too early.
  \<^item> \<open>Mmu\<close>: accesses as the processor performs them, through the page tables in memory, with the page-fault routine
    of \<^verbatim>\<open>idt.cpp\<close> run where they are not permitted: memory is backed on demand. \<open>Virtual_Memory\<close>: programs of loads and stores over
    it refine a finite map from addresses to values, as long as no fault happens in the page before one in use,
    which a second theorem shows to lose data. \<open>Kernel_Tests\<close> (\<^verbatim>\<open>tests.cpp\<close>, the rest
    of \<^verbatim>\<open>main.cpp\<close> and \<^verbatim>\<open>kernel.cpp\<close>, \<^verbatim>\<open>abort.cpp\<close>): the tests the kernel runs at every start, what they show and what
    they leave behind.

  \<^bold>\<open>Bounds.\<close> The direct map covers 4 GiB (\<open>hhdm_ok\<close>: its offset is in the higher half and the window does not
  wrap, as Limine documents); the theorems on frames and tables assume memory below 4 GiB, because the masks of
  the page-tree nodes keep 32 bits of an address. Sizes of arrays (256 lines, 256 keys, 256 gates, 16 regions, 16
  I/O APICs) are those of the code.

  \<^bold>\<open>Not modelled.\<close> Assembly files and inline assembly other than their effect on registers; the debug messages; in
  the theories before \<open>Mmu\<close> the translation of addresses by the processor itself (memory is a function of the virtual
  address, with the direct map resolved), and everywhere the processor's cached translations; the copy assignment of
  \<^verbatim>\<open>kpp::Function\<close>, which does not compile, and its compile-time deduction of signatures; \<^verbatim>\<open>FreeStackAllocator\<close> and
  \<^verbatim>\<open>VirtualMemoryAllocator\<close>, which are not compiled; \<^verbatim>\<open>test_stack_smash\<close>, which is not called and overwrites its own
  stack frame; the features of the Limine protocol that the kernel does not request, and the bootloader itself.
  The offset of the direct map and the memory map are constants of the state, as they are until their responses
  are freed and overwritten (\<open>Limine\<close>); the theorems on the phases after \<^verbatim>\<open>paging_init\<close> hold as long as that has not
  happened.

  \<^bold>\<open>What is left.\<close> The headers of the virtual memory manager accessed through the page tables themselves, so that
  \<^verbatim>\<open>vmm_init\<close> causes page faults (\<open>Virtual_Memory\<close> shows for any such sequence of accesses when it is sound); the
  frames that \<^verbatim>\<open>vfree\<close> returns; the processor's cached translations.
\<close>

end
